(* ===== verification/Prelude.thy ===== *)
theory Prelude
  imports Main "HOL-Library.Finite_Map" "HOL-Library.List_Lexorder" "HOL-Library.Char_ord"
begin

section \<open>Shared vocabulary of the component models\<close>

text \<open>
  What the component theories share: the rendering of Go results, the collections of
  rewrite rules they extend, and the generic argument by which a whole sequence of method
  calls on a concrete component is replaced by the same sequence on its specification.

  A Go function that returns \<open>(T, error)\<close> is a function into \<^typ>\<open>'e + 'a\<close>: \<^const>\<open>Inl\<close>
  carries the error value, \<^const>\<open>Inr\<close> the result. A method that takes the component's mutex for
  its whole body is one atomic function on the component's state.
\<close>

named_theorems refine_simps \<open>equations that move an abstraction function over an operation\<close>
named_theorems invar_intros \<open>preservation of a component's invariant by one operation\<close>

type_synonym ('e, 'a) result = "'e + 'a"

subsection \<open>Sequences of method calls\<close>

fun run :: "('op \<Rightarrow> 's \<Rightarrow> 'out \<times> 's) \<Rightarrow> 'op list \<Rightarrow> 's \<Rightarrow> 'out list \<times> 's" where
  "run step [] s = ([], s)"
| "run step (x # xs) s =
     (let (out, s1) = step x s; (outs, s2) = run step xs s1 in (out # outs, s2))"

lemma run_append:
  "run step (xs @ ys) s =
     (let (o1, s1) = run step xs s; (o2, s2) = run step ys s1 in (o1 @ o2, s2))"
  by (induction xs arbitrary: s) (simp_all add: Let_def split_beta)

lemma run_snd_append [simp]: "snd (run step (xs @ ys) s) = snd (run step ys (snd (run step xs s)))"
  by (simp add: run_append Let_def split_beta)

lemma length_run [simp]: "length (fst (run step xs s)) = length xs"
  by (induction xs arbitrary: s) (simp_all add: Let_def split_beta)

text \<open>An invariant that every operation keeps holds after every sequence of operations.\<close>

locale preserved =
  fixes step :: "'op \<Rightarrow> 's \<Rightarrow> 'out \<times> 's"
    and inv :: "'s \<Rightarrow> bool"
  assumes step_inv: "inv s \<Longrightarrow> inv (snd (step x s))"
begin

lemma run_inv: "inv s \<Longrightarrow> inv (snd (run step xs s))"
  by (induction xs arbitrary: s) (simp_all add: step_inv Let_def split_beta)

end

text \<open>
  Forward simulation of deterministic components: if one operation on the concrete state
  answers as the specification does and the abstraction commutes with it, then so does every
  sequence of operations.
\<close>

locale refinement = preserved cstep inv
  for cstep :: "'op \<Rightarrow> 'c \<Rightarrow> 'out \<times> 'c" and inv :: "'c \<Rightarrow> bool" +
  fixes astep :: "'op \<Rightarrow> 'a \<Rightarrow> 'out \<times> 'a"
    and abs :: "'c \<Rightarrow> 'a"
  assumes step_refines: "inv s \<Longrightarrow> astep x (abs s) = (fst (cstep x s), abs (snd (cstep x s)))"
begin

lemma run_refines:
  "inv s \<Longrightarrow> run astep xs (abs s) = (fst (run cstep xs s), abs (snd (run cstep xs s)))"
  by (induction xs arbitrary: s) (simp_all add: step_refines step_inv Let_def split_beta)

end

subsection \<open>Lists\<close>

lemma map_nth_update_notin [simp]:
  "i \<notin> f ` set js \<Longrightarrow> map (\<lambda>j. (xs[i := v]) ! f j) js = map (\<lambda>j. xs ! f j) js"
  by (induction js) auto

lemma sorted_last_Max: "sorted xs \<Longrightarrow> xs \<noteq> [] \<Longrightarrow> last xs = Max (set xs)"
  by (induction xs rule: rev_induct) (auto simp: sorted_append intro!: Max_eqI [symmetric])

lemma upt_Suc_hd: "map f [0..<Suc n] = f 0 # map (\<lambda>i. f (Suc i)) [0..<n]"
  by (simp add: upt_conv_Cons map_Suc_upt [symmetric] del: upt_Suc)

end
