(* ===== verification/Ringbuffer.thy ===== *)
theory Ringbuffer
  imports Prelude "HOL-Library.Multiset"
begin

section \<open>Ring buffer (internal/ringbuffer)\<close>

text \<open>
  The generic ring buffer of \<^verbatim>\<open>internal/ringbuffer/ringbuffer.go\<close>. The buffer, its
  positions and its fill count are the fields of the Go struct; the counters, which the
  constructor's checks keep non-negative, are \<^typ>\<open>nat\<close>. The zero value of the element type,
  which Go supplies, is the argument \<open>z\<close>. A callback is a transformer of the caller's world
  \<open>'w\<close>; it runs after the mutex is released, so every method takes the world and returns it.
\<close>

datatype OverwriteStrategy = NoOverwrite | Overwrite

datatype rb_error = ErrInvalidCapacity | ErrInvalidHighWater

type_synonym 'w callback = "'w \<Rightarrow> 'w"

record ('a, 'w) RingBuffer =
  buf :: "'a list"
  capacity :: nat
  readPos :: nat
  writePos :: nat
  count :: nat
  strategy :: OverwriteStrategy
  highWater :: nat
  highWaterAlarm :: bool
  onHighWater :: "'w callback"
  onLowWater :: "'w callback"

record Config =
  Capacity :: int
  Strategy :: OverwriteStrategy
  HighWaterMark :: int

definition noopCallback :: "'w callback" where
  "noopCallback = (\<lambda>w. w)"

definition DefaultConfig :: Config where
  "DefaultConfig = \<lparr>Capacity = 1024, Strategy = NoOverwrite, HighWaterMark = 0\<rparr>"

definition NewRingBufferWithConfig ::
    "'a \<Rightarrow> Config \<Rightarrow> (rb_error, ('a, 'w) RingBuffer) result" where
  "NewRingBufferWithConfig z cfg =
     (if Capacity cfg \<le> 0 then Inl ErrInvalidCapacity
      else if HighWaterMark cfg < 0 \<or> HighWaterMark cfg > Capacity cfg then Inl ErrInvalidHighWater
      else Inr \<lparr>buf = replicate (nat (Capacity cfg)) z, capacity = nat (Capacity cfg),
                readPos = 0, writePos = 0, count = 0, strategy = Strategy cfg,
                highWater = nat (HighWaterMark cfg), highWaterAlarm = False,
                onHighWater = noopCallback, onLowWater = noopCallback\<rparr>)"

definition NewRingBuffer :: "'a \<Rightarrow> int \<Rightarrow> (rb_error, ('a, 'w) RingBuffer) result" where
  "NewRingBuffer z c = NewRingBufferWithConfig z (DefaultConfig\<lparr>Capacity := c\<rparr>)"

definition checkWaterMarkLocked ::
    "bool \<Rightarrow> ('a, 'w) RingBuffer \<Rightarrow> (bool \<times> bool) \<times> ('a, 'w) RingBuffer" where
  "checkWaterMarkLocked overwrote rb =
     (if highWater rb \<le> 0 then ((False, False), rb)
      else if count rb \<ge> highWater rb \<and> \<not> highWaterAlarm rb
        then ((True, False), rb\<lparr>highWaterAlarm := True\<rparr>)
      else if count rb < highWater rb \<and> highWaterAlarm rb \<and> \<not> overwrote
        then ((False, True), rb\<lparr>highWaterAlarm := False\<rparr>)
      else ((False, False), rb))"

definition dispatchCallbacks :: "('a, 'w) RingBuffer \<Rightarrow> bool \<Rightarrow> bool \<Rightarrow> 'w \<Rightarrow> 'w" where
  "dispatchCallbacks rb needHigh needLow w =
     (let w1 = (if needHigh then onHighWater rb w else w)
      in if needLow then onLowWater rb w1 else w1)"

text \<open>
  A method that may fire callbacks has two parts: what it does while it holds the mutex, which ends with the decision
  which callbacks to fire (\<open>needHigh\<close>, \<open>needLow\<close>), and the dispatch of the callbacks after the mutex is released.
\<close>

definition SetHighWaterMark_locked ::
    "int \<Rightarrow> ('a, 'w) RingBuffer \<Rightarrow> ((rb_error, unit) result \<times> bool \<times> bool) \<times> ('a, 'w) RingBuffer" where
  "SetHighWaterMark_locked mark rb =
     (if mark < 0 \<or> mark > int (capacity rb) then ((Inl ErrInvalidHighWater, False, False), rb)
      else let (need, rb1) = checkWaterMarkLocked False (rb\<lparr>highWater := nat mark\<rparr>) in ((Inr (), need), rb1))"

definition SetHighWaterMark ::
    "int \<Rightarrow> ('a, 'w) RingBuffer \<Rightarrow> 'w \<Rightarrow> (rb_error, unit) result \<times> ('a, 'w) RingBuffer \<times> 'w" where
  "SetHighWaterMark mark rb w =
     (let ((err, needHigh, needLow), rb1) = SetHighWaterMark_locked mark rb
      in (err, rb1, dispatchCallbacks rb1 needHigh needLow w))"

definition OnHighWater :: "'w callback option \<Rightarrow> ('a, 'w) RingBuffer \<Rightarrow> ('a, 'w) RingBuffer" where
  "OnHighWater fn rb = rb\<lparr>onHighWater := (case fn of None \<Rightarrow> noopCallback | Some f \<Rightarrow> f)\<rparr>"

definition OnLowWater :: "'w callback option \<Rightarrow> ('a, 'w) RingBuffer \<Rightarrow> ('a, 'w) RingBuffer" where
  "OnLowWater fn rb = rb\<lparr>onLowWater := (case fn of None \<Rightarrow> noopCallback | Some f \<Rightarrow> f)\<rparr>"

definition Write_locked :: "'a \<Rightarrow> 'a \<Rightarrow> ('a, 'w) RingBuffer \<Rightarrow> (bool \<times> bool \<times> bool) \<times> ('a, 'w) RingBuffer" where
  "Write_locked z v rb =
     (if strategy rb = NoOverwrite \<and> count rb = capacity rb then ((False, False, False), rb)
      else
        let overwrote = (strategy rb = Overwrite \<and> count rb = capacity rb);
            rb1 = (if overwrote
                   then rb\<lparr>buf := (buf rb)[readPos rb := z],
                           readPos := (readPos rb + 1) mod capacity rb,
                           count := count rb - 1\<rparr>
                   else rb);
            rb2 = rb1\<lparr>buf := (buf rb1)[writePos rb1 := v],
                      writePos := (writePos rb1 + 1) mod capacity rb1,
                      count := count rb1 + 1\<rparr>;
            (need, rb3) = checkWaterMarkLocked overwrote rb2
        in ((True, need), rb3))"

definition Write ::
    "'a \<Rightarrow> 'a \<Rightarrow> ('a, 'w) RingBuffer \<Rightarrow> 'w \<Rightarrow> bool \<times> ('a, 'w) RingBuffer \<times> 'w" where
  "Write z v rb w =
     (let ((result, needHigh, needLow), rb1) = Write_locked z v rb
      in (result, rb1, dispatchCallbacks rb1 needHigh needLow w))"

definition Read_locked :: "'a \<Rightarrow> ('a, 'w) RingBuffer \<Rightarrow> (('a \<times> bool) \<times> bool \<times> bool) \<times> ('a, 'w) RingBuffer" where
  "Read_locked z rb =
     (if count rb = 0 then (((z, False), False, False), rb)
      else
        let value = buf rb ! readPos rb;
            rb1 = rb\<lparr>buf := (buf rb)[readPos rb := z],
                     readPos := (readPos rb + 1) mod capacity rb,
                     count := count rb - 1\<rparr>;
            (need, rb2) = checkWaterMarkLocked False rb1
        in (((value, True), need), rb2))"

definition Read ::
    "'a \<Rightarrow> ('a, 'w) RingBuffer \<Rightarrow> 'w \<Rightarrow> ('a \<times> bool) \<times> ('a, 'w) RingBuffer \<times> 'w" where
  "Read z rb w =
     (let ((answer, needHigh, needLow), rb1) = Read_locked z rb
      in (answer, rb1, dispatchCallbacks rb1 needHigh needLow w))"

definition Peek :: "'a \<Rightarrow> ('a, 'w) RingBuffer \<Rightarrow> 'a \<times> bool" where
  "Peek z rb = (if count rb = 0 then (z, False) else (buf rb ! readPos rb, True))"

definition Len :: "('a, 'w) RingBuffer \<Rightarrow> nat" where
  "Len rb = count rb"

definition Cap :: "('a, 'w) RingBuffer \<Rightarrow> nat" where
  "Cap rb = capacity rb"

definition IsFull :: "('a, 'w) RingBuffer \<Rightarrow> bool" where
  "IsFull rb \<longleftrightarrow> count rb = capacity rb"

definition IsEmpty :: "('a, 'w) RingBuffer \<Rightarrow> bool" where
  "IsEmpty rb \<longleftrightarrow> count rb = 0"

definition SetStrategy :: "OverwriteStrategy \<Rightarrow> ('a, 'w) RingBuffer \<Rightarrow> ('a, 'w) RingBuffer" where
  "SetStrategy s rb = rb\<lparr>strategy := s\<rparr>"

definition GetStrategy :: "('a, 'w) RingBuffer \<Rightarrow> OverwriteStrategy" where
  "GetStrategy rb = strategy rb"

definition Clear :: "'a \<Rightarrow> ('a, 'w) RingBuffer \<Rightarrow> ('a, 'w) RingBuffer" where
  "Clear z rb = rb\<lparr>buf := map (\<lambda>_. z) (buf rb), readPos := 0, writePos := 0, count := 0,
                   highWaterAlarm := False\<rparr>"

subsection \<open>The interface: a bounded queue\<close>

text \<open>
  What a caller may rely on, with no buffer and no positions: the elements in arrival order,
  the capacity and the strategy. \<open>rb_op\<close> lists the calls, \<open>rb_out\<close> their answers.
\<close>

datatype 'a rb_op =
    OpWrite 'a | OpRead | OpPeek | OpLen | OpIsFull | OpIsEmpty
  | OpSetStrategy OverwriteStrategy | OpGetStrategy | OpClear | OpSetHighWaterMark int

datatype 'a rb_out =
    OutBool bool | OutVal 'a bool | OutLen nat | OutStrategy OverwriteStrategy
  | OutErr "rb_error option"

record 'a bqueue =
  items :: "'a list"
  bound :: nat
  policy :: OverwriteStrategy

fun bq_step :: "'a \<Rightarrow> 'a rb_op \<Rightarrow> 'a bqueue \<Rightarrow> 'a rb_out \<times> 'a bqueue" where
  "bq_step z (OpWrite v) q =
     (if length (items q) < bound q then (OutBool True, q\<lparr>items := items q @ [v]\<rparr>)
      else case policy q of
             NoOverwrite \<Rightarrow> (OutBool False, q)
           | Overwrite \<Rightarrow> (OutBool True, q\<lparr>items := tl (items q) @ [v]\<rparr>))"
| "bq_step z OpRead q =
     (case items q of [] \<Rightarrow> (OutVal z False, q) | x # xs \<Rightarrow> (OutVal x True, q\<lparr>items := xs\<rparr>))"
| "bq_step z OpPeek q =
     ((case items q of [] \<Rightarrow> OutVal z False | x # xs \<Rightarrow> OutVal x True), q)"
| "bq_step z OpLen q = (OutLen (length (items q)), q)"
| "bq_step z OpIsFull q = (OutBool (length (items q) = bound q), q)"
| "bq_step z OpIsEmpty q = (OutBool (items q = []), q)"
| "bq_step z (OpSetStrategy s) q = (OutBool True, q\<lparr>policy := s\<rparr>)"
| "bq_step z OpGetStrategy q = (OutStrategy (policy q), q)"
| "bq_step z OpClear q = (OutBool True, q\<lparr>items := []\<rparr>)"
| "bq_step z (OpSetHighWaterMark m) q =
     (OutErr (if m < 0 \<or> m > int (bound q) then Some ErrInvalidHighWater else None), q)"

fun rb_step ::
    "'a \<Rightarrow> 'a rb_op \<Rightarrow> ('a, 'w) RingBuffer \<times> 'w \<Rightarrow> 'a rb_out \<times> ('a, 'w) RingBuffer \<times> 'w" where
  "rb_step z (OpWrite v) (rb, w) = (case Write z v rb w of (ok, s) \<Rightarrow> (OutBool ok, s))"
| "rb_step z OpRead (rb, w) = (case Read z rb w of ((x, ok), s) \<Rightarrow> (OutVal x ok, s))"
| "rb_step z OpPeek (rb, w) = (case Peek z rb of (x, ok) \<Rightarrow> (OutVal x ok, (rb, w)))"
| "rb_step z OpLen (rb, w) = (OutLen (Len rb), (rb, w))"
| "rb_step z OpIsFull (rb, w) = (OutBool (IsFull rb), (rb, w))"
| "rb_step z OpIsEmpty (rb, w) = (OutBool (IsEmpty rb), (rb, w))"
| "rb_step z (OpSetStrategy s) (rb, w) = (OutBool True, (SetStrategy s rb, w))"
| "rb_step z OpGetStrategy (rb, w) = (OutStrategy (GetStrategy rb), (rb, w))"
| "rb_step z OpClear (rb, w) = (OutBool True, (Clear z rb, w))"
| "rb_step z (OpSetHighWaterMark m) (rb, w) =
     (case SetHighWaterMark m rb w of
        (Inl e, s) \<Rightarrow> (OutErr (Some e), s) | (Inr _, s) \<Rightarrow> (OutErr None, s))"

subsection \<open>Invariant and abstraction\<close>

definition rb_shape :: "('a, 'w) RingBuffer \<Rightarrow> bool" where
  "rb_shape rb \<longleftrightarrow>
     0 < capacity rb \<and> length (buf rb) = capacity rb \<and> readPos rb < capacity rb \<and>
     count rb \<le> capacity rb \<and> writePos rb = (readPos rb + count rb) mod capacity rb \<and>
     highWater rb \<le> capacity rb"

definition rb_inv :: "('a, 'w) RingBuffer \<Rightarrow> bool" where
  "rb_inv rb \<longleftrightarrow>
     rb_shape rb \<and> (0 < highWater rb \<longrightarrow> highWaterAlarm rb = (highWater rb \<le> count rb))"

definition contents :: "('a, 'w) RingBuffer \<Rightarrow> 'a list" where
  "contents rb = map (\<lambda>i. buf rb ! ((readPos rb + i) mod capacity rb)) [0..<count rb]"

definition rb_abs :: "('a, 'w) RingBuffer \<Rightarrow> 'a bqueue" where
  "rb_abs rb = \<lparr>items = contents rb, bound = capacity rb, policy = strategy rb\<rparr>"

lemma length_contents [simp]: "length (contents rb) = count rb"
  by (simp add: contents_def)

lemma contents_Nil_iff [simp]: "contents rb = [] \<longleftrightarrow> count rb = 0"
  by (metis length_contents length_0_conv)

lemma contents_Cons: "contents rb = x # xs \<Longrightarrow> 0 < count rb"
  by (metis length_contents length_greater_0_conv list.distinct(1))

lemma contents_alarm [simp]:
  "contents (rb\<lparr>highWaterAlarm := b\<rparr>) = contents rb" "contents (rb\<lparr>highWater := n\<rparr>) = contents rb"
  by (simp_all add: contents_def)

text \<open>Two offsets below the capacity address the same slot only when they are equal.\<close>

lemma slot_inj:
  assumes "i < c" "j < c" "(r + i) mod c = (r + j) mod (c::nat)"
  shows "i = j"
proof (cases "i \<le> j")
  case True
  with assms(3) have "c dvd (r + j) - (r + i)"
    by (metis mod_eq_dvd_iff_nat add_le_cancel_left)
  with True assms(2) show ?thesis by (cases "i = j") (auto dest: dvd_imp_le)
next
  case False
  with assms(3) have "c dvd (r + i) - (r + j)"
    by (metis mod_eq_dvd_iff_nat add_le_cancel_left nat_le_linear)
  with False assms(1) show ?thesis by (auto dest: dvd_imp_le)
qed

text \<open>Storing at the write position appends; releasing the read position drops the head.\<close>

lemma contents_store:
  assumes "rb_shape rb" "count rb < capacity rb"
  shows "contents (rb\<lparr>buf := (buf rb)[writePos rb := v],
           writePos := p, count := Suc (count rb)\<rparr>) = contents rb @ [v]"
proof -
  have "(readPos rb + count rb) mod capacity rb \<notin>
        (\<lambda>i. (readPos rb + i) mod capacity rb) ` set [0..<count rb]"
    using assms by (auto dest!: slot_inj [rotated -1] simp: rb_shape_def)
  then show ?thesis
    using assms by (simp add: contents_def rb_shape_def)
qed

lemma contents_release:
  assumes "rb_shape rb" "0 < count rb"
  shows "contents rb = buf rb ! readPos rb #
           contents (rb\<lparr>buf := (buf rb)[readPos rb := z],
             readPos := Suc (readPos rb) mod capacity rb, count := count rb - 1\<rparr>)"
proof -
  obtain n where n: "count rb = Suc n" using assms(2) by (cases "count rb") auto
  have "readPos rb \<notin> (\<lambda>i. (readPos rb + Suc i) mod capacity rb) ` set [0..<n]"
  proof
    assume "readPos rb \<in> (\<lambda>i. (readPos rb + Suc i) mod capacity rb) ` set [0..<n]"
    then obtain i where i: "i < n" "(readPos rb + 0) mod capacity rb = (readPos rb + Suc i) mod capacity rb"
      using assms(1) by (auto simp: rb_shape_def)
    have "0 = Suc i"
      by (rule slot_inj [OF _ _ i(2)]) (use assms(1) n i(1) in \<open>auto simp: rb_shape_def\<close>)
    then show False by simp
  qed
  then show ?thesis
    using assms(1) n by (simp add: contents_def rb_shape_def upt_Suc_hd mod_simps del: upt_Suc)
qed

text \<open>One write or read as a whole: the watermark check changes nothing but the alarm.\<close>

definition pushed :: "'a \<Rightarrow> ('a, 'w) RingBuffer \<Rightarrow> ('a, 'w) RingBuffer" where
  "pushed v rb = rb\<lparr>buf := (buf rb)[writePos rb := v],
                   writePos := Suc (writePos rb) mod capacity rb, count := Suc (count rb)\<rparr>"

definition popped :: "'a \<Rightarrow> ('a, 'w) RingBuffer \<Rightarrow> ('a, 'w) RingBuffer" where
  "popped z rb = rb\<lparr>buf := (buf rb)[readPos rb := z],
                   readPos := Suc (readPos rb) mod capacity rb, count := count rb - 1\<rparr>"

lemma pushed_fields [simp]:
  "capacity (pushed v rb) = capacity rb" "count (pushed v rb) = Suc (count rb)"
  "strategy (pushed v rb) = strategy rb" "highWater (pushed v rb) = highWater rb"
  "highWaterAlarm (pushed v rb) = highWaterAlarm rb"
  "onHighWater (pushed v rb) = onHighWater rb" "onLowWater (pushed v rb) = onLowWater rb"
  by (simp_all add: pushed_def)

lemma popped_fields [simp]:
  "capacity (popped z rb) = capacity rb" "count (popped z rb) = count rb - 1"
  "strategy (popped z rb) = strategy rb" "highWater (popped z rb) = highWater rb"
  "highWaterAlarm (popped z rb) = highWaterAlarm rb"
  "onHighWater (popped z rb) = onHighWater rb" "onLowWater (popped z rb) = onLowWater rb"
  by (simp_all add: popped_def)

lemma pushed_contents: "rb_shape rb \<Longrightarrow> count rb < capacity rb \<Longrightarrow> contents (pushed v rb) = contents rb @ [v]"
  unfolding pushed_def by (rule contents_store)

lemma popped_contents: "rb_shape rb \<Longrightarrow> 0 < count rb \<Longrightarrow> contents (popped z rb) = tl (contents rb)"
  unfolding popped_def by (simp add: contents_release [of rb z])

lemma hd_contents: "rb_shape rb \<Longrightarrow> 0 < count rb \<Longrightarrow> hd (contents rb) = buf rb ! readPos rb"
  by (simp add: contents_release [of rb undefined])

lemma pushed_shape: "rb_shape rb \<Longrightarrow> count rb < capacity rb \<Longrightarrow> rb_shape (pushed v rb)"
  by (auto simp: rb_shape_def pushed_def mod_simps)

lemma popped_shape:
  assumes "rb_shape rb" "0 < count rb"
  shows "rb_shape (popped z rb)"
proof -
  from assms obtain n where "count rb = Suc n" by (cases "count rb") auto
  with assms(1) show ?thesis by (auto simp: rb_shape_def popped_def mod_simps)
qed

lemma dispatch_nothing: "dispatchCallbacks rb False False w = w"
  by (simp add: dispatchCallbacks_def)

lemma Write_locked_cases:
  assumes "rb_shape rb"
  shows "Write_locked z v rb =
    (if count rb < capacity rb then
       let (need, rb') = checkWaterMarkLocked False (pushed v rb) in ((True, need), rb')
     else if strategy rb = NoOverwrite then ((False, False, False), rb)
     else let (need, rb') = checkWaterMarkLocked True (pushed v (popped z rb)) in ((True, need), rb'))"
  using assms
  by (cases "strategy rb") (auto simp: Write_locked_def pushed_def popped_def rb_shape_def Let_def)

lemma Read_locked_cases:
  "Read_locked z rb =
    (if count rb = 0 then (((z, False), False, False), rb)
     else let (need, rb') = checkWaterMarkLocked False (popped z rb) in (((buf rb ! readPos rb, True), need), rb'))"
  by (auto simp: Read_locked_def popped_def Let_def)

lemma Write_cases:
  assumes "rb_shape rb"
  shows "Write z v rb w =
    (if count rb < capacity rb then
       let ((h, l), rb') = checkWaterMarkLocked False (pushed v rb)
       in (True, rb', dispatchCallbacks rb' h l w)
     else if strategy rb = NoOverwrite then (False, rb, w)
     else let ((h, l), rb') = checkWaterMarkLocked True (pushed v (popped z rb))
          in (True, rb', dispatchCallbacks rb' h l w))"
  using assms
  by (cases "strategy rb") (auto simp: Write_def Write_locked_cases dispatch_nothing Let_def split_beta)

lemma Read_cases:
  "Read z rb w =
    (if count rb = 0 then ((z, False), rb, w)
     else let ((h, l), rb') = checkWaterMarkLocked False (popped z rb)
          in ((buf rb ! readPos rb, True), rb', dispatchCallbacks rb' h l w))"
  by (auto simp: Read_def Read_locked_cases dispatch_nothing Let_def split_beta)

lemma check_frame:
  "capacity (snd (checkWaterMarkLocked ov rb)) = capacity rb"
  "count (snd (checkWaterMarkLocked ov rb)) = count rb"
  "strategy (snd (checkWaterMarkLocked ov rb)) = strategy rb"
  "highWater (snd (checkWaterMarkLocked ov rb)) = highWater rb"
  "onHighWater (snd (checkWaterMarkLocked ov rb)) = onHighWater rb"
  "onLowWater (snd (checkWaterMarkLocked ov rb)) = onLowWater rb"
  "contents (snd (checkWaterMarkLocked ov rb)) = contents rb"
  "rb_shape (snd (checkWaterMarkLocked ov rb)) = rb_shape rb"
  by (simp_all add: checkWaterMarkLocked_def rb_shape_def)

lemma check_inv:
  "rb_shape rb \<Longrightarrow> (ov \<Longrightarrow> count rb = capacity rb) \<Longrightarrow> rb_inv (snd (checkWaterMarkLocked ov rb))"
  by (auto simp: checkWaterMarkLocked_def rb_inv_def rb_shape_def)

lemmas rb_step_simps = Write_cases Read_cases Let_def split_beta check_frame
  pushed_contents popped_contents pushed_shape popped_shape hd_contents

lemma rb_inv_shape [simp]: "rb_inv rb \<Longrightarrow> rb_shape rb"
  by (simp add: rb_inv_def)

lemma shape_mark: "rb_shape rb \<Longrightarrow> nat m \<le> capacity rb \<Longrightarrow> rb_shape (rb\<lparr>highWater := nat m\<rparr>)"
  by (simp add: rb_shape_def)

lemma Write_inv [invar_intros]:
  assumes "rb_inv rb"
  shows "rb_inv (fst (snd (Write z v rb w)))"
proof -
  from assms have shape: "rb_shape rb" by simp
  then have full: "count rb \<le> capacity rb" "0 < capacity rb" by (auto simp: rb_shape_def)
  consider "count rb < capacity rb" | "count rb = capacity rb" using full by linarith
  then show ?thesis
  proof cases
    case 1
    with shape show ?thesis
      by (simp add: Write_cases Let_def split_beta check_inv pushed_shape)
  next
    case 2
    with full have "rb_shape (pushed v (popped z rb))"
      by (intro pushed_shape popped_shape shape) auto
    with 2 full assms show ?thesis
      by (auto simp: Write_cases Let_def split_beta intro!: check_inv)
  qed
qed

lemma Read_inv [invar_intros]: "rb_inv rb \<Longrightarrow> rb_inv (fst (snd (Read z rb w)))"
  by (auto simp: Read_cases Let_def split_beta intro!: check_inv popped_shape)

lemma SetHighWaterMark_inv [invar_intros]:
  "rb_inv rb \<Longrightarrow> rb_inv (fst (snd (SetHighWaterMark m rb w)))"
  by (auto simp: SetHighWaterMark_def SetHighWaterMark_locked_def dispatch_nothing Let_def split_beta intro!: check_inv shape_mark)

lemma Clear_inv [invar_intros]: "rb_inv rb \<Longrightarrow> rb_inv (Clear z rb)"
  by (auto simp: Clear_def rb_inv_def rb_shape_def)

lemma SetStrategy_inv [invar_intros]: "rb_inv rb \<Longrightarrow> rb_inv (SetStrategy s rb)"
  by (auto simp: SetStrategy_def rb_inv_def rb_shape_def)

lemma rb_step_inv: "rb_inv (fst s) \<Longrightarrow> rb_inv (fst (snd (rb_step z x s)))"
  by (cases s; cases x)
     (auto simp: split_beta Write_inv Read_inv SetHighWaterMark_inv Clear_inv SetStrategy_inv
           split: sum.splits prod.splits dest: SetHighWaterMark_inv [of _ _ "snd s"])

interpretation rb_safe: preserved "rb_step z" "\<lambda>s. rb_inv (fst s)"
  by unfold_locales (rule rb_step_inv)

lemma rb_inv_bounds: "rb_inv rb \<Longrightarrow> count rb \<le> capacity rb \<and> 0 < capacity rb"
  by (simp add: rb_inv_def rb_shape_def)

lemma bq_write:
  assumes "rb_inv rb"
  shows "bq_step z (OpWrite v) (rb_abs rb) =
    (case Write z v rb w of (ok, rb', w') \<Rightarrow> (OutBool ok, rb_abs rb'))"
  using rb_inv_bounds [OF assms] assms
  by (cases "strategy rb")
     (auto simp: rb_abs_def Write_cases Let_def split_beta check_frame pushed_contents
        popped_contents popped_shape)

lemma bq_read: "rb_inv rb \<Longrightarrow>
  bq_step z OpRead (rb_abs rb) =
    (case Read z rb w of ((x, ok), rb', w') \<Rightarrow> (OutVal x ok, rb_abs rb'))"
  by (auto simp: rb_abs_def Read_cases Let_def split_beta check_frame popped_contents
        hd_contents [symmetric] contents_Cons split: list.split)

lemma rb_step_refines:
  assumes "rb_inv (fst s)"
  shows "bq_step z x (rb_abs (fst s)) = (fst (rb_step z x s), rb_abs (fst (snd (rb_step z x s))))"
proof (cases s)
  case (Pair rb w)
  with assms have inv: "rb_inv rb" by simp
  show ?thesis
  proof (cases x)
    case (OpWrite v)
    with Pair inv show ?thesis by (simp add: bq_write [where w = w] split_beta del: bq_step.simps)
  next
    case OpRead
    with Pair inv show ?thesis by (simp add: bq_read [where w = w] split_beta del: bq_step.simps)
  next
    case OpPeek
    with Pair inv show ?thesis
      by (auto simp: rb_abs_def Peek_def hd_contents [symmetric] contents_Cons split: list.split)
  next
    case (OpSetHighWaterMark m)
    with Pair show ?thesis
      by (auto simp: SetHighWaterMark_def SetHighWaterMark_locked_def rb_abs_def Let_def split_beta check_frame)
  qed (use Pair in \<open>auto simp: rb_abs_def Len_def IsFull_def IsEmpty_def SetStrategy_def
      GetStrategy_def Clear_def contents_def\<close>)
qed

interpretation rb_queue: refinement "rb_step z" "\<lambda>s. rb_inv (fst s)" "bq_step z" "\<lambda>s. rb_abs (fst s)"
  by unfold_locales (rule rb_step_refines)

subsection \<open>Construction and the watermark protocol\<close>

lemma New_inv: "NewRingBufferWithConfig z cfg = Inr rb \<Longrightarrow> rb_inv rb"
  by (auto simp: NewRingBufferWithConfig_def rb_inv_def rb_shape_def split: if_splits)

lemma New_abs: "NewRingBufferWithConfig z cfg = Inr rb \<Longrightarrow>
  rb_abs rb = \<lparr>items = [], bound = nat (Capacity cfg), policy = Strategy cfg\<rparr>"
  by (auto simp: NewRingBufferWithConfig_def rb_abs_def contents_def split: if_splits)

text \<open>
  Goroutines call the methods concurrently: their critical sections are serialised by the mutex, but the dispatch of the
  callbacks a section decided on may come any time later, and in any order. A state holds the buffer, the decisions
  that are not dispatched yet, all decisions in the order of the sections, and the state the callbacks work on.
\<close>

datatype 'a rb_event = Section "'a rb_op" | Dispatch nat

type_synonym need = "bool \<times> bool"

fun rb_section :: "'a \<Rightarrow> 'a rb_op \<Rightarrow> ('a, 'w) RingBuffer \<Rightarrow> need \<times> ('a, 'w) RingBuffer" where
  "rb_section z (OpWrite v) rb = (let ((_, need), rb1) = Write_locked z v rb in (need, rb1))"
| "rb_section z OpRead rb = (let ((_, need), rb1) = Read_locked z rb in (need, rb1))"
| "rb_section z (OpSetHighWaterMark m) rb = (let ((_, need), rb1) = SetHighWaterMark_locked m rb in (need, rb1))"
| "rb_section z (OpSetStrategy s) rb = ((False, False), SetStrategy s rb)"
| "rb_section z OpClear rb = ((False, False), Clear z rb)"
| "rb_section z _ rb = ((False, False), rb)"

fun rb_event_step ::
    "'a \<Rightarrow> 'a rb_event \<Rightarrow> ('a, 'w) RingBuffer \<times> need list \<times> need list \<times> 'w \<Rightarrow>
     ('a, 'w) RingBuffer \<times> need list \<times> need list \<times> 'w" where
  "rb_event_step z (Section x) (rb, pending, decided, w) =
     (let (need, rb1) = rb_section z x rb in (rb1, pending @ [need], decided @ [need], w))"
| "rb_event_step z (Dispatch i) (rb, pending, decided, w) =
     (if i < length pending
      then (rb, take i pending @ drop (Suc i) pending, decided,
            dispatchCallbacks rb (fst (pending ! i)) (snd (pending ! i)) w)
      else (rb, pending, decided, w))"

text \<open>
  Callbacks that log \<^const>\<open>True\<close> for high water and \<^const>\<open>False\<close> for low water; \<open>fires\<close> is what they log for a list of
  decisions.
\<close>

definition with_log :: "('a, bool list) RingBuffer \<Rightarrow> ('a, bool list) RingBuffer" where
  "with_log rb = OnLowWater (Some (\<lambda>w. w @ [False])) (OnHighWater (Some (\<lambda>w. w @ [True])) rb)"

definition fires :: "need list \<Rightarrow> bool list" where
  "fires needs = concat (map (\<lambda>(high, low). (if high then [True] else []) @ (if low then [False] else [])) needs)"

definition logging :: "('a, bool list) RingBuffer \<Rightarrow> bool" where
  "logging rb \<longleftrightarrow> onHighWater rb = (\<lambda>w. w @ [True]) \<and> onLowWater rb = (\<lambda>w. w @ [False])"

definition alternates :: "bool list \<Rightarrow> bool" where
  "alternates w \<longleftrightarrow> (\<forall>i < length w. w ! i = even i)"

lemma alternates_snoc: "alternates (w @ [b]) \<longleftrightarrow> alternates w \<and> b = even (length w)"
  by (auto simp: alternates_def nth_append less_Suc_eq)

lemma fires_simps [simp]:
  "fires [] = []" "fires (xs @ ys) = fires xs @ fires ys"
  "fires [(high, low)] = (if high then [True] else []) @ (if low then [False] else [])"
  by (simp_all add: fires_def)

lemma fires_nothing: "fires [(False, False)] = []"
  by simp

definition wm :: "('a, bool list) RingBuffer \<Rightarrow> bool list \<Rightarrow> bool" where
  "wm rb w \<longleftrightarrow> logging rb \<and> alternates w \<and> highWaterAlarm rb = odd (length w)"

lemma wm_frame [simp]:
  "wm (pushed v rb) w = wm rb w" "wm (popped z rb) w = wm rb w"
  "wm (rb\<lparr>highWater := n\<rparr>) w = wm rb w" "wm (SetStrategy st rb) w = wm rb w"
  by (simp_all add: wm_def logging_def SetStrategy_def)

lemma check_wm:
  "wm rb w \<Longrightarrow> wm (snd (checkWaterMarkLocked ov rb)) (w @ fires [fst (checkWaterMarkLocked ov rb)])"
  by (auto simp: checkWaterMarkLocked_def wm_def logging_def alternates_snoc)

lemma section_wm:
  assumes "rb_inv rb" "wm rb w" "x \<noteq> OpClear"
  shows "wm (snd (rb_section z x rb)) (w @ fires [fst (rb_section z x rb)])"
  using assms
  by (cases x) (auto simp: Write_locked_cases Read_locked_cases SetHighWaterMark_locked_def Let_def split_beta
      fires_nothing simp del: fires_simps(3) intro!: check_wm)

lemma section_inv: "rb_inv rb \<Longrightarrow> rb_inv (snd (rb_section z x rb))"
  using Write_inv [of rb z _ undefined] Read_inv [of rb z undefined] SetHighWaterMark_inv [of rb _ undefined] Clear_inv SetStrategy_inv
  by (cases x) (auto simp: Write_def Read_def SetHighWaterMark_def Let_def split_beta)

lemma dispatch_log: "logging rb \<Longrightarrow> dispatchCallbacks rb (fst need) (snd need) w = w @ fires [need]"
  by (cases need) (simp add: dispatchCallbacks_def logging_def)

definition wm_inv :: "('a, bool list) RingBuffer \<times> need list \<times> need list \<times> bool list \<Rightarrow> bool" where
  "wm_inv = (\<lambda>(rb, pending, decided, w).
     rb_inv rb \<and> wm rb (fires decided) \<and> mset w + mset (fires pending) = mset (fires decided))"

lemma wm_step:
  assumes "wm_inv s" "ev \<noteq> Section OpClear"
  shows "wm_inv (rb_event_step z ev s)"
proof (cases s)
  case (fields rb pending decided w)
  with assms(1) have inv: "rb_inv rb" "wm rb (fires decided)" "mset w + mset (fires pending) = mset (fires decided)"
    by (simp_all add: wm_inv_def)
  show ?thesis
  proof (cases ev)
    case (Section x)
    with assms(2) inv section_inv [of rb z x] section_wm [of rb "fires decided" x z] show ?thesis
      by (cases "rb_section z x rb") (simp add: fields wm_inv_def add.assoc [symmetric])
  next
    case (Dispatch i)
    show ?thesis
    proof (cases "i < length pending")
      case True
      then have "pending = take i pending @ [pending ! i] @ drop (Suc i) pending" by (simp add: id_take_nth_drop)
      then have "fires pending = fires (take i pending) @ fires [pending ! i] @ fires (drop (Suc i) pending)"
        by (metis fires_simps(2))
      with inv True dispatch_log [of rb "pending ! i" w] show ?thesis
        by (simp add: Dispatch fields wm_inv_def wm_def ac_simps del: fires_simps(3))
    qed (use inv in \<open>simp add: Dispatch fields wm_inv_def\<close>)
  qed
qed

lemma wm_events: "wm_inv s \<Longrightarrow> Section OpClear \<notin> set evs \<Longrightarrow> wm_inv (fold (rb_event_step z) evs s)"
proof (induction evs arbitrary: s)
  case (Cons ev evs)
  then have "wm_inv (rb_event_step z ev s)" by (intro wm_step) auto
  from Cons.IH [OF this] Cons.prems(2) show ?case by simp
qed simp

text \<open>One caller at a time: each section is followed by its own dispatch, and the log is that of the decisions.\<close>

definition in_turn :: "'a rb_op list \<Rightarrow> 'a rb_event list" where
  "in_turn ops = concat (map (\<lambda>x. [Section x, Dispatch 0]) ops)"

lemma section_logging: "rb_shape rb \<Longrightarrow> logging rb \<Longrightarrow> logging (snd (rb_section z x rb))"
  by (cases x) (auto simp: Write_locked_cases Read_locked_cases SetHighWaterMark_locked_def Let_def split_beta logging_def
      check_frame SetStrategy_def Clear_def)

lemma in_turn_log:
  "rb_inv rb \<Longrightarrow> logging rb \<Longrightarrow> w = fires decided \<Longrightarrow>
   case fold (rb_event_step z) (in_turn ops) (rb, [], decided, w) of (rb', pending, decided', w') \<Rightarrow> w' = fires decided'"
proof (induction ops arbitrary: rb decided w)
  case (Cons x ops)
  obtain need rb1 where sec: "rb_section z x rb = (need, rb1)" by (cases "rb_section z x rb")
  with Cons.prems have "rb_inv rb1" "logging rb1" using section_inv [of rb z x] section_logging [of rb z x] by simp_all
  from Cons.IH [OF this, of "w @ fires [need]" "decided @ [need]"] sec Cons.prems(3) dispatch_log [OF this(2), of need w]
  show ?case by (simp add: in_turn_def)
qed (simp add: in_turn_def)

text \<open>
  C1. A ring buffer made by \<open>NewRingBufferWithConfig\<close> answers every sequence of \<open>Write\<close>,
  \<open>Read\<close>, \<open>Peek\<close>, \<open>Len\<close>, \<open>IsFull\<close>, \<open>IsEmpty\<close>, \<open>SetStrategy\<close>, \<open>GetStrategy\<close>, \<open>Clear\<close> and
  \<open>SetHighWaterMark\<close> calls exactly as a first-in-first-out queue of the configured capacity:
  a write to a full buffer is refused under \<open>NoOverwrite\<close> and drops the oldest element under
  \<open>Overwrite\<close>.
\<close>

theorem ring_buffer_is_bounded_queue:
  assumes "NewRingBufferWithConfig z cfg = Inr rb"
  shows "fst (run (rb_step z) ops (rb, w)) =
         fst (run (bq_step z) ops \<lparr>items = [], bound = nat (Capacity cfg), policy = Strategy cfg\<rparr>)"
  using rb_queue.run_refines [of "(rb, w)" z ops] New_inv [OF assms] New_abs [OF assms] by simp

theorem ring_buffer_is_bounded_queue_witness:
  "fst (run (rb_step (0::int)) [OpWrite 1, OpWrite 2, OpWrite 3, OpRead, OpLen]
      (\<lparr>buf = [0, 0], capacity = 2, readPos = 0, writePos = 0, count = 0, strategy = Overwrite,
        highWater = 2, highWaterAlarm = False, onHighWater = noopCallback,
        onLowWater = noopCallback\<rparr>, ())) =
   [OutBool True, OutBool True, OutBool True, OutVal 2 True, OutLen 1]"
  by (subst ring_buffer_is_bounded_queue
        [where cfg = "\<lparr>Capacity = 2, Strategy = Overwrite, HighWaterMark = 2\<rparr>"])
     (simp_all add: NewRingBufferWithConfig_def numeral_2_eq_2)



end
