(* ===== verification/Snowflake.thy ===== *)
theory Snowflake
  imports Prelude
begin

unbundle bit_operations_syntax

section \<open>Snowflake identifiers (internal/snowflake)\<close>

text \<open>
  The generator of \<^verbatim>\<open>internal/snowflake/snowflake.go\<close>. Go's \<open>int64\<close> is \<^typ>\<open>int\<close> with the
  wrap-around written out: \<open>int64\<close> keeps the low 64 bits as a two's complement number, so
  \<open><<\<close> is \<^const>\<open>push_bit\<close> under \<open>int64\<close>, and \<open>>>\<close> is \<^const>\<open>drop_bit\<close>, which rounds down as the
  arithmetic shift does.

  \<open>nowFunc\<close> and the monotonic clock behind \<open>time.Since\<close> are outside the package: \<open>wall i\<close> is the
  millisecond reading of the \<open>i\<close>-th call of \<open>nowFunc\<close> by one goroutine and \<open>mclock i\<close> the monotonic time, in
  nanoseconds, at that moment. The part of \<open>Next\<close> between \<open>Lock\<close> and \<open>Unlock\<close> is
  \<open>next_locked\<close>; as other goroutines may run while \<open>Next\<close> waits, the order theorems are stated
  for an arbitrary sequence of such sections.
\<close>

definition int64 :: "int \<Rightarrow> int" where
  "int64 x = signed_take_bit 63 x"

definition epoch :: int where
  "epoch = 1704067200000"

definition maxMachineID :: int where
  "maxMachineID = push_bit 10 1 - 1"

definition maxSequence :: int where
  "maxSequence = push_bit 12 1 - 1"

definition clockBackwardSmallMaxMs :: int where
  "clockBackwardSmallMaxMs = 5"

definition waitUntilNextMsMaxMs :: int where
  "waitUntilNextMsMaxMs = 200"

definition sequenceOverflowMaxMs :: int where
  "sequenceOverflowMaxMs = 200"

datatype sf_error =
    ErrInvalidMachineID int
  | ErrClockBackward int
  | ErrClockBackwardMax int
  | ErrSequenceOverflow

record ParsedID =
  Timestamp :: int
  MachineID :: int
  Sequence :: int

record Snowflake =
  machineID :: int
  lastTS :: int
  sequence :: int

definition New :: "int \<Rightarrow> (sf_error, Snowflake) result" where
  "New mid =
     (if mid < 0 \<or> mid > maxMachineID then Inl (ErrInvalidMachineID mid)
      else Inr \<lparr>machineID = mid, lastTS = -1, sequence = 0\<rparr>)"

text \<open>One pass through the critical section: an identifier, an error, or a wait that the
  caller performs after it released the mutex.\<close>

datatype next_outcome =
    Issued int
  | Backward int
  | WaitClock int int
  | WaitSequence int

definition make_id :: "int \<Rightarrow> int \<Rightarrow> int \<Rightarrow> int" where
  "make_id now mid sq = int64 (push_bit 22 now) OR int64 (push_bit 12 mid) OR sq"

definition next_locked :: "int \<Rightarrow> Snowflake \<Rightarrow> next_outcome \<times> Snowflake" where
  "next_locked now s =
     (if now < lastTS s then
        let offset = lastTS s - now
        in if offset \<le> clockBackwardSmallMaxMs then (WaitClock (lastTS s) offset, s)
           else (Backward offset, s)
      else if now = lastTS s \<and> sequence s \<ge> maxSequence then (WaitSequence (lastTS s), s)
      else
        let sq = (if now = lastTS s then sequence s + 1 else 0)
        in (Issued (make_id now (machineID s) sq), s\<lparr>sequence := sq, lastTS := now\<rparr>))"

definition timestamp :: "(nat \<Rightarrow> int) \<Rightarrow> nat \<Rightarrow> int" where
  "timestamp wall i = wall i - epoch"

partial_function (option) wait_loop ::
    "(nat \<Rightarrow> int) \<Rightarrow> (nat \<Rightarrow> int) \<Rightarrow> int \<Rightarrow> int \<Rightarrow> int \<Rightarrow> nat \<Rightarrow> (bool \<times> nat) option" where
  "wait_loop wall mclock targetTS start timeout i =
     (if timestamp wall i \<le> targetTS then
        if mclock i - start \<ge> timeout then Some (True, Suc i)
        else wait_loop wall mclock targetTS start timeout (Suc i)
      else Some (False, Suc i))"

definition waitUntilNextMs ::
    "(nat \<Rightarrow> int) \<Rightarrow> (nat \<Rightarrow> int) \<Rightarrow> int \<Rightarrow> int \<Rightarrow> nat \<Rightarrow> (bool \<times> nat) option" where
  "waitUntilNextMs wall mclock targetTS maxWaitMs i =
     wait_loop wall mclock targetTS (mclock i) (maxWaitMs * 1000000) i"

text \<open>
  \<open>Next\<close> waits with the mutex released. What other goroutines do meanwhile is the argument \<open>others\<close>: the clock readings
  of the critical sections they complete before this one locks again at the reading \<open>j\<close>.
\<close>

definition meanwhile :: "int list \<Rightarrow> Snowflake \<Rightarrow> Snowflake" where
  "meanwhile nows s = snd (run next_locked nows s)"

partial_function (option) Next ::
    "(nat \<Rightarrow> int) \<Rightarrow> (nat \<Rightarrow> int) \<Rightarrow> (nat \<Rightarrow> int list) \<Rightarrow> Snowflake \<Rightarrow> nat \<Rightarrow>
     ((sf_error, int) result \<times> Snowflake \<times> nat) option" where
  "Next wall mclock others s i =
     (case next_locked (timestamp wall i) s of
        (Issued ident, s1) \<Rightarrow> Some (Inr ident, s1, Suc i)
      | (Backward offset, s1) \<Rightarrow> Some (Inl (ErrClockBackward offset), s1, Suc i)
      | (WaitClock targetTS offset, s1) \<Rightarrow>
          Option.bind (waitUntilNextMs wall mclock targetTS waitUntilNextMsMaxMs (Suc i))
            (\<lambda>(expired, j). let s2 = meanwhile (others j) s1 in
               if expired then Some (Inl (ErrClockBackwardMax offset), s2, j)
               else Next wall mclock others s2 j)
      | (WaitSequence targetTS, s1) \<Rightarrow>
          Option.bind (waitUntilNextMs wall mclock targetTS sequenceOverflowMaxMs (Suc i))
            (\<lambda>(expired, j). let s2 = meanwhile (others j) s1 in
               if expired then Some (Inl ErrSequenceOverflow, s2, j)
               else Next wall mclock others s2 j))"

definition Parse :: "int \<Rightarrow> ParsedID" where
  "Parse ident =
     \<lparr>Timestamp = drop_bit 22 ident,
      MachineID = drop_bit 12 ident AND maxMachineID,
      Sequence = ident AND maxSequence\<rparr>"

definition Decompose :: "int \<Rightarrow> ParsedID" where
  "Decompose ident = Parse ident"

definition Time :: "ParsedID \<Rightarrow> int" where
  "Time p = int64 (Timestamp p + epoch)"

subsection \<open>Arithmetic of the bit layout\<close>

lemma max_values [simp]: "maxMachineID = 1023" "maxSequence = 4095"
  by (simp_all add: maxMachineID_def maxSequence_def push_bit_eq_mult)

lemma int64_id: "- (2 ^ 63) \<le> x \<Longrightarrow> x < 2 ^ 63 \<Longrightarrow> int64 x = x"
  by (simp add: int64_def signed_take_bit_int_eq_self)

lemma or_push_bit_add: "0 \<le> y \<Longrightarrow> y < 2 ^ n \<Longrightarrow> push_bit n x OR y = x * 2 ^ n + (y::int)"
  using concat_bit_eq [of n y x] concat_bit_def [of n y x]
  by (simp add: take_bit_int_eq_self or.commute push_bit_eq_mult)

lemma make_id_eq:
  assumes "- (2 ^ 41) \<le> now" "now < 2 ^ 41" "0 \<le> mid" "mid \<le> maxMachineID"
    "0 \<le> sq" "sq \<le> maxSequence"
  shows "make_id now mid sq = now * 2 ^ 22 + mid * 2 ^ 12 + sq"
proof -
  have "int64 (push_bit 22 now) = push_bit 22 now" "int64 (push_bit 12 mid) = push_bit 12 mid"
    using assms by (simp_all add: int64_id push_bit_eq_mult)
  moreover have "push_bit 12 mid OR sq = mid * 2 ^ 12 + sq"
    by (rule or_push_bit_add) (use assms in simp_all)
  moreover have "push_bit 22 now OR (mid * 2 ^ 12 + sq) = now * 2 ^ 22 + (mid * 2 ^ 12 + sq)"
    by (rule or_push_bit_add) (use assms in simp_all)
  ultimately show ?thesis
    by (simp only: make_id_def or.assoc add.assoc)
qed

lemma and_masks: "x AND maxMachineID = x mod 2 ^ 10" "x AND maxSequence = x mod 2 ^ 12"
  by (simp_all only: maxMachineID_def maxSequence_def push_bit_of_1 mask_eq_exp_minus_1 [symmetric]
      take_bit_eq_mask [symmetric] take_bit_eq_mod)

lemma Parse_layout:
  assumes "0 \<le> mid" "mid \<le> maxMachineID" "0 \<le> sq" "sq \<le> maxSequence"
  shows "Parse (now * 2 ^ 22 + mid * 2 ^ 12 + sq) =
           \<lparr>Timestamp = now, MachineID = mid, Sequence = sq\<rparr>"
proof -
  let ?x = "now * 4194304 + mid * 4096 + sq"
  have "?x div 4194304 = now" "?x div 4096 = now * 1024 + mid" "?x mod 4096 = sq"
    using assms
    by (auto intro: int_div_pos_eq [where r = "mid * 4096 + sq"] int_div_pos_eq [where r = sq]
        int_mod_pos_eq [where q = "now * 1024 + mid"])
  moreover have "(now * 1024 + mid) mod 1024 = mid"
    using assms by simp
  ultimately show ?thesis
    by (simp add: Parse_def and_masks drop_bit_eq_div del: max_values)
qed

subsection \<open>The generator's invariant\<close>

definition sf_inv :: "Snowflake \<Rightarrow> bool" where
  "sf_inv s \<longleftrightarrow> 0 \<le> machineID s \<and> machineID s \<le> maxMachineID \<and>
              0 \<le> sequence s \<and> sequence s \<le> maxSequence \<and> -1 \<le> lastTS s"

text \<open>The place of a state in the order of identifiers: the identifier it issued last.\<close>

definition position :: "Snowflake \<Rightarrow> int" where
  "position s = lastTS s * 2 ^ 22 + machineID s * 2 ^ 12 + sequence s"

lemma New_sf_inv: "New mid = Inr s \<Longrightarrow> sf_inv s \<and> machineID s = mid"
  by (auto simp: New_def sf_inv_def split: if_splits)

lemma next_locked_machine [simp]: "machineID (snd (next_locked now s)) = machineID s"
  by (simp add: next_locked_def Let_def)

lemma next_locked_not_issued:
  "next_locked now s = (out, s') \<Longrightarrow> (\<And>i. out \<noteq> Issued i) \<Longrightarrow> s' = s"
  by (auto simp: next_locked_def Let_def split: if_splits)

lemma next_locked_inv: "sf_inv s \<Longrightarrow> sf_inv (snd (next_locked now s))"
  by (auto simp: next_locked_def sf_inv_def Let_def)

lemma next_locked_Issued:
  assumes "sf_inv s" "now < 2 ^ 41" "next_locked now s = (Issued i, s')"
  shows "i = position s' \<and> position s < i \<and> lastTS s' = now"
proof -
  from assms(3) have now: "lastTS s \<le> now" and fresh: "now = lastTS s \<longrightarrow> sequence s < maxSequence"
    and i: "i = make_id now (machineID s) (if now = lastTS s then sequence s + 1 else 0)"
    and s': "s' = s\<lparr>sequence := if now = lastTS s then sequence s + 1 else 0, lastTS := now\<rparr>"
    by (auto simp: next_locked_def Let_def split: if_splits)
  have "i = position s'"
    unfolding i s' position_def using assms(1,2) now fresh
    by (subst make_id_eq) (auto simp: sf_inv_def)
  moreover have "position s < position s'"
  proof (cases "now = lastTS s")
    case True
    then show ?thesis by (simp add: s' position_def)
  next
    case False
    with now have "lastTS s * 4194304 + 4194304 \<le> now * 4194304" by simp
    with False assms(1) show ?thesis by (simp add: s' position_def sf_inv_def)
  qed
  ultimately show ?thesis by (simp add: s')
qed

fun issued :: "next_outcome list \<Rightarrow> int list" where
  "issued [] = []"
| "issued (Issued i # xs) = i # issued xs"
| "issued (_ # xs) = issued xs"

interpretation sf_sections: preserved next_locked sf_inv
  by unfold_locales (rule next_locked_inv)

lemma issued_after:
  assumes "sf_inv s" "\<forall>now \<in> set nows. now < 2 ^ 41"
  shows "sorted_wrt (<) (issued (fst (run next_locked nows s))) \<and>
         (\<forall>i \<in> set (issued (fst (run next_locked nows s))). position s < i)"
  using assms
proof (induction nows arbitrary: s)
  case (Cons now nows)
  obtain out s' where step: "next_locked now s = (out, s')" by fastforce
  with Cons.prems next_locked_inv [of s now] have inv': "sf_inv s'" by simp
  note IH = Cons.IH [OF inv'] 
  show ?case
  proof (cases "\<exists>i. out = Issued i")
    case True
    then obtain i where i: "out = Issued i" by blast
    with next_locked_Issued [OF Cons.prems(1) _ step [unfolded i]] Cons.prems(2)
    have "i = position s'" "position s < i" by auto
    with i step IH Cons.prems(2) show ?thesis by (fastforce simp: Let_def split_beta)
  next
    case False
    with next_locked_not_issued [OF step] have "s' = s" by blast
    with False step IH Cons.prems(2) show ?thesis by (cases out) (auto simp: Let_def split_beta)
  qed
qed simp

lemma issued_parse:
  assumes "sf_inv s" "\<forall>now \<in> set nows. now < 2 ^ 41"
    "i \<in> set (issued (fst (run next_locked nows s)))"
  shows "\<exists>now \<in> set nows. \<exists>sq. 0 \<le> sq \<and> sq \<le> maxSequence \<and> -1 \<le> now \<and>
           i = now * 2 ^ 22 + machineID s * 2 ^ 12 + sq"
  using assms
proof (induction nows arbitrary: s)
  case (Cons now nows)
  obtain out s' where step: "next_locked now s = (out, s')" by fastforce
  with Cons.prems next_locked_inv [of s now] next_locked_machine [of now s]
  have inv': "sf_inv s'" "machineID s' = machineID s" by simp_all
  show ?case
  proof (cases "out = Issued i")
    case True
    with next_locked_Issued [OF Cons.prems(1) _ step [unfolded True]] Cons.prems(2)
    have "i = position s'" "lastTS s' = now" by auto
    with inv' show ?thesis
      by (intro bexI [of _ now] exI [of _ "sequence s'"]) (auto simp: position_def sf_inv_def)
  next
    case False
    with Cons.prems(3) step have "i \<in> set (issued (fst (run next_locked nows s')))"
      by (cases out) (auto simp: Let_def split_beta)
    with Cons.IH [OF inv'(1)] Cons.prems(2) inv'(2) show ?thesis by auto
  qed
qed simp

subsection \<open>Properties\<close>

text \<open>
  C3. Whatever clock readings the critical sections of one generator see, in whatever order
  goroutines enter them, and also when the clock jumps back, the identifiers come out strictly
  increasing, hence all different, as long as the clock stays below the \<open>2^41\<close> milliseconds
  that the layout has room for.
\<close>

theorem snowflake_strictly_increasing:
  assumes "New mid = Inr s" "\<forall>now \<in> set nows. now < 2 ^ 41"
  shows "sorted_wrt (<) (issued (fst (run next_locked nows s)))"
  using issued_after [OF _ assms(2)] New_sf_inv [OF assms(1)] by blast

theorem snowflake_strictly_increasing_witness:
  "sorted_wrt (<) (issued (fst (run next_locked [10, 10, 8, 11] \<lparr>machineID = 5, lastTS = -1, sequence = 0\<rparr>)))
   \<and> issued (fst (run next_locked [10, 10, 8, 11] \<lparr>machineID = 5, lastTS = -1, sequence = 0\<rparr>)) =
     [41963520, 41963521, 46157824]"
proof -
  have new: "New 5 = Inr \<lparr>machineID = 5, lastTS = -1, sequence = 0\<rparr>" by (simp add: New_def)
  show ?thesis
    using snowflake_strictly_increasing [OF new, of "[10, 10, 8, 11]"]
    by (simp add: next_locked_def make_id_eq clockBackwardSmallMaxMs_def Let_def)
qed

text \<open>
  C4. Every identifier a generator issues parses back into the parts it was made of: the
  timestamp is one of the clock readings, the machine id is the generator's own, the sequence
  number is in range, and encoding the three parts again gives the identifier. In particular
  generators with different machine ids never issue the same identifier.
\<close>

theorem snowflake_parse_roundtrip:
  assumes "New mid = Inr s" "\<forall>now \<in> set nows. now < 2 ^ 41"
    "ident \<in> set (issued (fst (run next_locked nows s)))"
  shows "Timestamp (Parse ident) \<in> set nows \<and> MachineID (Parse ident) = mid \<and>
         0 \<le> Sequence (Parse ident) \<and> Sequence (Parse ident) \<le> maxSequence \<and>
         make_id (Timestamp (Parse ident)) (MachineID (Parse ident)) (Sequence (Parse ident)) = ident"
proof -
  from New_sf_inv [OF assms(1)] have inv: "sf_inv s" and mid: "machineID s = mid" by auto
  from issued_parse [OF inv assms(2,3)] obtain now sq where
    now: "now \<in> set nows" "-1 \<le> now" and sq: "0 \<le> sq" "sq \<le> maxSequence"
    and ident: "ident = now * 2 ^ 22 + mid * 2 ^ 12 + sq" by (auto simp: mid)
  from inv mid have m: "0 \<le> mid" "mid \<le> maxMachineID" by (auto simp: sf_inv_def)
  from now assms(2) have "make_id now mid sq = ident"
    by (subst make_id_eq) (use m sq ident in auto)
  moreover have "Parse ident = \<lparr>Timestamp = now, MachineID = mid, Sequence = sq\<rparr>"
    unfolding ident by (rule Parse_layout [OF m sq])
  ultimately show ?thesis using now sq by simp
qed

theorem snowflake_parse_roundtrip_witness:
  "Timestamp (Parse 41963521) = 10 \<and> MachineID (Parse 41963521) = 5 \<and> Sequence (Parse 41963521) \<le> maxSequence \<and>
   make_id (Timestamp (Parse 41963521)) (MachineID (Parse 41963521)) (Sequence (Parse 41963521)) = 41963521"
proof -
  have new: "New 5 = Inr \<lparr>machineID = 5, lastTS = -1, sequence = 0\<rparr>" by (simp add: New_def)
  show ?thesis
    using snowflake_parse_roundtrip [OF new, of "[10, 10]" 41963521]
    by (auto simp: next_locked_def make_id_eq Let_def)
qed

lemma wait_loop_returns:
  assumes "t \<le> mclock j - start" "i \<le> j"
  shows "\<exists>b k. wait_loop wall mclock targetTS start t i = Some (b, k) \<and> i < k \<and>
           (b \<or> targetTS < timestamp wall (k - 1))"
  using assms(2)
proof (induction i rule: inc_induct)
  case base
  with assms(1) show ?case by (subst wait_loop.simps) auto
next
  case (step i)
  then show ?case by (subst wait_loop.simps) (auto dest: Suc_lessD)
qed

lemma waitUntilNextMs_returns:
  assumes "mono wall" "mono mclock" "\<forall>b. \<exists>j. b \<le> mclock j"
  obtains b k where "waitUntilNextMs wall mclock targetTS ms i = Some (b, k)" "i < k"
    "b \<or> targetTS < timestamp wall k"
proof -
  from assms(3) obtain j where "ms * 1000000 + mclock i \<le> mclock j" by blast
  also have "mclock j \<le> mclock (max i j)" using assms(2) by (simp add: monoD)
  finally have "ms * 1000000 \<le> mclock (max i j) - mclock i" by simp
  then obtain b k where w: "waitUntilNextMs wall mclock targetTS ms i = Some (b, k)" "i < k"
    "b \<or> targetTS < timestamp wall (k - 1)"
    using wait_loop_returns [of "ms * 1000000" mclock "max i j" "mclock i" i wall targetTS]
    by (auto simp: waitUntilNextMs_def)
  moreover have "timestamp wall (k - 1) \<le> timestamp wall k"
    using assms(1) by (simp add: timestamp_def monoD)
  ultimately show ?thesis using that [of b k] by linarith
qed

lemma next_locked_wait_target:
  "next_locked now s = (WaitClock t off, s') \<Longrightarrow> s' = s \<and> t = lastTS s"
  "next_locked now s = (WaitSequence t, s') \<Longrightarrow> s' = s \<and> t = lastTS s"
  by (auto simp: next_locked_def Let_def split: if_splits)

text \<open>
  What other goroutines do to a generator whose last timestamp is before \<open>t\<close>, with readings up to \<open>t\<close>: each section
  takes at most one sequence number of \<open>t\<close>.
\<close>

lemma meanwhile_sequence:
  assumes "\<forall>now \<in> set nows. now \<le> t" "lastTS s \<le> t" "lastTS s = t \<longrightarrow> sequence s < int n"
  shows "lastTS (meanwhile nows s) \<le> t \<and>
    (lastTS (meanwhile nows s) = t \<longrightarrow> sequence (meanwhile nows s) < int (n + length nows))"
  using assms
proof (induction nows arbitrary: s n)
  case (Cons now nows)
  obtain out s1 where step: "next_locked now s = (out, s1)" by fastforce
  with Cons.prems have "lastTS s1 \<le> t" "lastTS s1 = t \<longrightarrow> sequence s1 < int (Suc n)"
    by (auto simp: next_locked_def Let_def split: if_splits)
  with Cons.IH [of s1 "Suc n"] Cons.prems(1)
  have "lastTS (meanwhile nows s1) \<le> t \<and>
    (lastTS (meanwhile nows s1) = t \<longrightarrow> sequence (meanwhile nows s1) < int (Suc n + length nows))" by simp
  moreover have "meanwhile (now # nows) s = meanwhile nows s1" by (simp add: meanwhile_def step split_beta Let_def)
  ultimately show ?case by simp
qed (simp add: meanwhile_def)

lemma Next_issues:
  assumes "lastTS s \<le> timestamp wall i" "lastTS s = timestamp wall i \<longrightarrow> sequence s < maxSequence"
  shows "\<exists>r. Next wall mclock others s i = Some r"
  using assms by (subst Next.simps) (auto simp: next_locked_def Let_def)

lemma Next_pass:
  assumes clocks: "mono wall" "mono mclock" "\<forall>b. \<exists>j. b \<le> mclock j"
    and later: "\<And>j. i < j \<Longrightarrow> lastTS s < timestamp wall j \<Longrightarrow>
      \<exists>r. Next wall mclock others (meanwhile (others j) s) j = Some r"
  shows "\<exists>r. Next wall mclock others s i = Some r"
proof -
  obtain out s' where step: "next_locked (timestamp wall i) s = (out, s')" by fastforce
  obtain b k where w: "waitUntilNextMs wall mclock (lastTS s) waitUntilNextMsMaxMs (Suc i) = Some (b, k)" "Suc i < k"
    "b \<or> lastTS s < timestamp wall k"
    by (rule waitUntilNextMs_returns [OF clocks])
  obtain b' k' where w': "waitUntilNextMs wall mclock (lastTS s) sequenceOverflowMaxMs (Suc i) = Some (b', k')" "Suc i < k'"
    "b' \<or> lastTS s < timestamp wall k'"
    by (rule waitUntilNextMs_returns [OF clocks])
  show ?thesis
  proof (cases out)
    case (WaitClock t off)
    with next_locked_wait_target(1) step have "s' = s" "t = lastTS s" by blast+
    with WaitClock step w later [of k] show ?thesis by (subst Next.simps) (auto simp: Let_def)
  next
    case (WaitSequence t)
    with next_locked_wait_target(2) step have "s' = s" "t = lastTS s" by blast+
    with WaitSequence step w' later [of k'] show ?thesis by (subst Next.simps) (auto simp: Let_def)
  qed (use step in \<open>subst Next.simps, simp\<close>)+
qed

text \<open>
  The bound on the other goroutines cannot be dropped: here the clock advances with every reading, others take all
  4096 identifiers of each millisecond before this one locks again, and \<open>Next\<close> does not return.
\<close>

lemma meanwhile_exhausts:
  assumes "lastTS s \<le> t" "lastTS s = t \<longrightarrow> sequence s = int n - 1" "lastTS s < t \<longrightarrow> n = 0" "n + m \<le> 4096" "0 < n + m"
  shows "meanwhile (replicate m t) s = s\<lparr>lastTS := t, sequence := int (n + m) - 1\<rparr>"
  using assms
proof (induction m arbitrary: s n)
  case 0
  then show ?case by (cases s) (auto simp: meanwhile_def)
next
  case (Suc m)
  let ?s1 = "s\<lparr>lastTS := t, sequence := int (Suc n) - 1\<rparr>"
  from Suc.prems have "snd (next_locked t s) = ?s1" by (auto simp: next_locked_def Let_def)
  then have "meanwhile (replicate (Suc m) t) s = meanwhile (replicate m t) ?s1"
    by (simp add: meanwhile_def split_beta Let_def)
  also have "\<dots> = s\<lparr>lastTS := t, sequence := int (Suc n + m) - 1\<rparr>"
    using Suc.IH [of ?s1 "Suc n"] Suc.prems(4) by simp
  finally show ?case by simp
qed

lemma Next_starved:
  assumes "sequence s = 4095" "lastTS s = int i"
  shows "Next (\<lambda>i. epoch + int i) mclock (\<lambda>j. replicate 4096 (int j)) s i = None"
proof -
  define wall where "wall = (\<lambda>i. epoch + int i)"
  define others where "others = (\<lambda>j. replicate 4096 (int j))"
  have ts: "timestamp wall i = int i" for i by (simp add: timestamp_def wall_def)
  have wait: "waitUntilNextMs wall mclock (int i) ms (Suc i) = Some (False, Suc (Suc i))" for mclock ms i
    unfolding waitUntilNextMs_def by (subst wait_loop.simps) (simp add: ts)
  have exhausted: "sequence (meanwhile (others j) s) = 4095" "lastTS (meanwhile (others j) s) = int j"
    if "lastTS s < int j" for s j
    using meanwhile_exhausts [of s "int j" 0 4096] that by (simp_all add: others_def)
  have "\<not> (w = wall \<and> oth = others \<and> sequence s = 4095 \<and> lastTS s = int i)"
    if "Next w mclock oth s i = Some r" for w oth s i r
    using that
  proof (induction w mclock oth s i r rule: Next.raw_induct [rotated, consumes 1])
    case (1 Next' w mclock oth s i r)
    show "\<not> (w = wall \<and> oth = others \<and> sequence s = 4095 \<and> lastTS s = int i)"
    proof
      assume a: "w = wall \<and> oth = others \<and> sequence s = 4095 \<and> lastTS s = int i"
      then have "next_locked (timestamp w i) s = (WaitSequence (int i), s)"
        by (simp add: next_locked_def ts Let_def)
      with a 1(2) have "Next' w mclock oth (meanwhile (oth (Suc (Suc i))) s) (Suc (Suc i)) = Some r"
        by (simp add: wait Let_def)
      from 1(1) [OF this] a exhausted [of s "Suc (Suc i)"] show False by simp
    qed
  qed
  with assms show ?thesis
    unfolding wall_def [symmetric] others_def [symmetric] by (cases "Next wall mclock others s i") auto
qed



end
