(* ===== verification/Trie.thy ===== *)
theory Trie
  imports Prelude "HOL-Library.AList" "HOL-Library.Sublist"
begin

section \<open>Prefix tree (internal/trie)\<close>

text \<open>
  The trie of \<^verbatim>\<open>internal/trie/trie.go\<close>. A word is the sequence of runes that \<open>range\<close> yields
  over a valid UTF-8 string; comparing such sequences lexicographically is comparing the
  strings byte by byte, because UTF-8 keeps the order of code points. The children map of a
  node is an association list with distinct keys, whose order is the (unspecified) order in
  which Go ranges over the map; \<open>data\<close> is an optional value, \<^const>\<open>None\<close> being \<open>nil\<close>. Mutation
  of a node reached from the root is the rebuilding of the path that leads to it.
\<close>

type_synonym rune = nat
type_synonym word = "rune list"

datatype trie_error =
    ErrEmptyWord | ErrEmptyPrefix | ErrEmptyPattern | ErrEmptyQuery
  | ErrInvalidMaxResult | ErrWordNotFound

record 'd SearchResult =
  Word :: word
  Data :: "'d option"

datatype 'd trieNode =
  TrieNode (children: "(rune \<times> 'd trieNode) list") (isEnd: bool) (data: "'d option")

definition newTrieNode :: "'d trieNode" where
  "newTrieNode = TrieNode [] False None"

record 'd Trie =
  root :: "'d trieNode"
  tsize :: int

definition NewTrie :: "'d Trie" where
  "NewTrie = \<lparr>root = newTrieNode, tsize = 0\<rparr>"

text \<open>The loop that follows a word from a node; \<^const>\<open>None\<close> when a child is missing.\<close>

fun walk :: "word \<Rightarrow> 'd trieNode \<Rightarrow> 'd trieNode option" where
  "walk [] n = Some n"
| "walk (ch # w) n = (case map_of (children n) ch of None \<Rightarrow> None | Some c \<Rightarrow> walk w c)"

text \<open>The insertion loop, with whether the word is new.\<close>

fun insertNode :: "word \<Rightarrow> 'd option \<Rightarrow> 'd trieNode \<Rightarrow> bool \<times> 'd trieNode" where
  "insertNode [] d (TrieNode cs e x) = (\<not> e, TrieNode cs True d)"
| "insertNode (ch # w) d (TrieNode cs e x) =
     (let child = (case map_of cs ch of None \<Rightarrow> newTrieNode | Some c \<Rightarrow> c);
          (fresh, child1) = insertNode w d child
      in (fresh, TrieNode (AList.update ch child1 cs) e x))"

definition Insert :: "word \<Rightarrow> 'd option \<Rightarrow> 'd Trie \<Rightarrow> (trie_error, unit) result \<times> 'd Trie" where
  "Insert w d t =
     (if w = [] then (Inl ErrEmptyWord, t)
      else let (fresh, r) = insertNode w d (root t)
           in (Inr (), t\<lparr>root := r, tsize := (if fresh then tsize t + 1 else tsize t)\<rparr>))"

definition Search :: "word \<Rightarrow> 'd Trie \<Rightarrow> (trie_error, 'd option \<times> bool) result" where
  "Search w t =
     (if w = [] then Inl ErrEmptyWord
      else case walk w (root t) of
             None \<Rightarrow> Inr (None, False)
           | Some n \<Rightarrow> Inr (data n, isEnd n))"

text \<open>
  Unmarking the end of a word and pruning on the way back: the flag is true as long as the
  upward loop has not met its \<open>break\<close>.
\<close>

fun deleteNode :: "word \<Rightarrow> 'd trieNode \<Rightarrow> 'd trieNode \<times> bool" where
  "deleteNode [] (TrieNode cs e x) = (TrieNode cs False None, True)"
| "deleteNode (ch # w) (TrieNode cs e x) =
     (case map_of cs ch of
        None \<Rightarrow> (TrieNode cs e x, False)
      | Some c \<Rightarrow>
          let (child, pruning) = deleteNode w c
          in if pruning \<and> \<not> isEnd child \<and> children child = []
             then (TrieNode (AList.delete ch cs) e x, True)
             else (TrieNode (AList.update ch child cs) e x, False))"

definition Delete :: "word \<Rightarrow> 'd Trie \<Rightarrow> (trie_error, unit) result \<times> 'd Trie" where
  "Delete w t =
     (if w = [] then (Inl ErrEmptyWord, t)
      else case walk w (root t) of
             None \<Rightarrow> (Inl ErrWordNotFound, t)
           | Some n \<Rightarrow>
               if \<not> isEnd n then (Inl ErrWordNotFound, t)
               else (Inr (), t\<lparr>root := fst (deleteNode w (root t)), tsize := tsize t - 1\<rparr>))"

lemma child_size: "(ch, c) \<in> set cs \<Longrightarrow> size c < size_list (size_prod f size) cs"
  by (induction cs) auto

lemma children_size: "(ch, c) \<in> set (children n) \<Longrightarrow> size c < size n"
  by (cases n) (auto dest: child_size [where f = "\<lambda>_. 0"])

fun collectWords :: "'d trieNode \<Rightarrow> word \<Rightarrow> 'd SearchResult list" where
  "collectWords (TrieNode cs e x) pfx =
     (if e then [\<lparr>Word = pfx, Data = x\<rparr>] else []) @
     concat (map (\<lambda>(ch, c). collectWords c (pfx @ [ch])) cs)"

definition PrefixMatchLimit ::
    "word \<Rightarrow> int \<Rightarrow> 'd Trie \<Rightarrow> (trie_error, 'd SearchResult list) result" where
  "PrefixMatchLimit pfx maxResults t =
     (if pfx = [] then Inl ErrEmptyPrefix
      else if maxResults < 0 then Inl ErrInvalidMaxResult
      else case walk pfx (root t) of
             None \<Rightarrow> Inr []
           | Some n \<Rightarrow>
               let results = sort_key Word (collectWords n pfx)
               in Inr (if maxResults > 0 \<and> int (length results) > maxResults
                       then take (nat maxResults) results else results))"

definition PrefixMatch :: "word \<Rightarrow> 'd Trie \<Rightarrow> (trie_error, 'd SearchResult list) result" where
  "PrefixMatch pfx t = PrefixMatchLimit pfx 0 t"

definition star :: rune where "star = 42"
definition dot :: rune where "dot = 46"

function wildcardDFS ::
    "'d trieNode \<Rightarrow> rune list \<Rightarrow> word \<Rightarrow> 'd SearchResult list \<times> word set \<Rightarrow>
     'd SearchResult list \<times> word set" where
  "wildcardDFS n [] cur (results, seen) =
     (if isEnd n \<and> cur \<notin> seen
      then (results @ [\<lparr>Word = cur, Data = data n\<rparr>], insert cur seen)
      else (results, seen))"
| "wildcardDFS n (ch # pat) cur (results, seen) =
     (if ch = star then
        fold (\<lambda>(k, c) acc. wildcardDFS c (ch # pat) (cur @ [k]) acc) (children n)
          (wildcardDFS n pat cur (results, seen))
      else if ch = dot then
        fold (\<lambda>(k, c) acc. wildcardDFS c pat (cur @ [k]) acc) (children n) (results, seen)
      else case map_of (children n) ch of
             None \<Rightarrow> (results, seen)
           | Some c \<Rightarrow> wildcardDFS c pat (cur @ [ch]) (results, seen))"
  by pat_completeness auto
termination
  by (relation "measure (\<lambda>(n, pat, cur, acc). size n + length pat)")
     (auto dest!: map_of_SomeD children_size)

definition WildcardSearch :: "rune list \<Rightarrow> 'd Trie \<Rightarrow> (trie_error, 'd SearchResult list) result" where
  "WildcardSearch pattern t =
     (if pattern = [] then Inl ErrEmptyPattern
      else Inr (sort_key Word (fst (wildcardDFS (root t) pattern [] ([], {})))))"

fun longestLoop ::
    "'d trieNode \<Rightarrow> word \<Rightarrow> word \<Rightarrow> 'd SearchResult option \<Rightarrow> 'd SearchResult option" where
  "longestLoop n [] cur best = best"
| "longestLoop n (ch # q) cur best =
     (case map_of (children n) ch of
        None \<Rightarrow> best
      | Some c \<Rightarrow>
          longestLoop c q (cur @ [ch])
            (if isEnd c then Some \<lparr>Word = cur @ [ch], Data = data c\<rparr> else best))"

definition LongestMatch :: "word \<Rightarrow> 'd Trie \<Rightarrow> (trie_error, 'd SearchResult) result" where
  "LongestMatch query t =
     (if query = [] then Inl ErrEmptyQuery
      else case longestLoop (root t) query [] None of
             None \<Rightarrow> Inl ErrWordNotFound
           | Some r \<Rightarrow> Inr r)"

definition Size :: "'d Trie \<Rightarrow> int" where
  "Size t = tsize t"

definition GetAllWords :: "'d Trie \<Rightarrow> 'd SearchResult list" where
  "GetAllWords t = sort_key Word (collectWords (root t) [])"

subsection \<open>Abstraction: the stored words as a finite map\<close>

definition lookup :: "'d trieNode \<Rightarrow> word \<Rightarrow> 'd option option" where
  "lookup n w = (case walk w n of None \<Rightarrow> None | Some m \<Rightarrow> if isEnd m then Some (data m) else None)"

lemma lookup_Nil [simp]: "lookup (TrieNode cs e x) [] = (if e then Some x else None)"
  by (simp add: lookup_def)

lemma lookup_Cons [simp]:
  "lookup (TrieNode cs e x) (ch # w) = (case map_of cs ch of None \<Rightarrow> None | Some c \<Rightarrow> lookup c w)"
  by (simp add: lookup_def split: option.split)

lemma lookup_leaf: "\<not> isEnd n \<Longrightarrow> children n = [] \<Longrightarrow> lookup n w = None"
  by (cases n; cases w) auto

lemma lookup_new [simp]: "lookup newTrieNode w = None"
  by (simp add: lookup_leaf newTrieNode_def)

text \<open>The well-formedness of a node: distinct keys, no data without a word, no dead child.\<close>

definition live :: "'d trieNode \<Rightarrow> bool" where
  "live n \<longleftrightarrow> isEnd n \<or> children n \<noteq> []"

fun wf_node :: "'d trieNode \<Rightarrow> bool" where
  "wf_node (TrieNode cs e x) \<longleftrightarrow>
     distinct (map fst cs) \<and> (\<not> e \<longrightarrow> x = None) \<and> (\<forall>(k, c) \<in> set cs. wf_node c \<and> live c)"

lemma set_alist_update: "p \<in> set (AList.update k v al) \<Longrightarrow> p = (k, v) \<or> p \<in> set al"
  by (induction al) (auto split: if_splits)

lemma set_alist_delete: "p \<in> set (AList.delete k al) \<Longrightarrow> p \<in> set al"
  by (auto simp: AList.delete_eq)

lemma alist_update_nonempty [simp]: "AList.update k v al \<noteq> []"
  by (induction al) auto

lemma wf_node_child: "wf_node (TrieNode cs e x) \<Longrightarrow> map_of cs ch = Some c \<Longrightarrow> wf_node c \<and> live c"
  by (auto dest: map_of_SomeD)

lemma wf_node_update:
  "wf_node (TrieNode cs e x) \<Longrightarrow> wf_node c \<Longrightarrow> live c \<Longrightarrow> wf_node (TrieNode (AList.update ch c cs) e x)"
  by (auto simp: distinct_update dest!: set_alist_update)

lemma wf_node_delete: "wf_node (TrieNode cs e x) \<Longrightarrow> wf_node (TrieNode (AList.delete ch cs) e x)"
  by (auto simp: distinct_delete dest!: set_alist_delete)

lemma lookup_insertNode [refine_simps]: "lookup (snd (insertNode w d n)) = (lookup n)(w \<mapsto> d)"
proof (induction w d n rule: insertNode.induct)
  case (1 d cs e x)
  show ?case
  proof
    fix v show "lookup (snd (insertNode [] d (TrieNode cs e x))) v = ((lookup (TrieNode cs e x))([] \<mapsto> d)) v"
      by (cases v) auto
  qed
next
  case (2 ch w d cs e x)
  show ?case
  proof
    fix v show "lookup (snd (insertNode (ch # w) d (TrieNode cs e x))) v =
        ((lookup (TrieNode cs e x))(ch # w \<mapsto> d)) v"
      by (cases v) (auto simp: 2 Let_def split_beta update_conv' split: option.split)
  qed
qed

lemma insertNode_fresh: "fst (insertNode w d n) \<longleftrightarrow> lookup n w = None"
  by (induction w d n rule: insertNode.induct) (auto simp: Let_def split_beta split: option.split)

lemma insertNode_live: "live (snd (insertNode w d n))"
  by (induction w d n rule: insertNode.induct) (auto simp: live_def Let_def split_beta)

lemma insertNode_wf [invar_intros]: "wf_node n \<Longrightarrow> wf_node (snd (insertNode w d n))"
proof (induction w d n rule: insertNode.induct)
  case (2 ch w d cs e x)
  have "wf_node (case map_of cs ch of None \<Rightarrow> newTrieNode | Some c \<Rightarrow> c)"
    using 2(2) by (auto simp: newTrieNode_def dest: wf_node_child split: option.split)
  with 2 show ?case
    by (simp add: Let_def split_beta wf_node_update insertNode_live del: wf_node.simps)
qed auto

lemma lookup_deleteNode [refine_simps]: "lookup (fst (deleteNode w n)) = (lookup n)(w := None)"
proof (induction w n rule: deleteNode.induct)
  case (1 cs e x)
  show ?case
  proof
    fix v show "lookup (fst (deleteNode [] (TrieNode cs e x))) v = ((lookup (TrieNode cs e x))([] := None)) v"
      by (cases v) auto
  qed
next
  case (2 ch w cs e x)
  show ?case
  proof
    fix v show "lookup (fst (deleteNode (ch # w) (TrieNode cs e x))) v =
        ((lookup (TrieNode cs e x))(ch # w := None)) v"
    proof (cases v)
      case (Cons k u)
      show ?thesis
      proof (cases "map_of cs ch")
        case (Some c)
        have c: "lookup (fst (deleteNode w c)) u = (if u = w then None else lookup c u)"
          using 2 [OF Some] by simp
        then show ?thesis
          using Cons Some lookup_leaf [of "fst (deleteNode w c)" u]
          by (auto simp: Let_def split_beta update_conv' delete_conv' split: if_splits)
      qed (use Cons in auto)
    qed (auto simp: Let_def split_beta split: option.split)
  qed
qed

lemma deleteNode_stopped:
  "deleteNode w n = (n', False) \<Longrightarrow> children n' \<noteq> [] \<or> n' = n"
  by (cases w; cases n) (auto simp: Let_def split_beta split: option.splits if_splits)

lemma deleteNode_wf [invar_intros]: "wf_node n \<Longrightarrow> wf_node (fst (deleteNode w n))"
proof (induction w n rule: deleteNode.induct)
  case (2 ch w cs e x)
  show ?case
  proof (cases "map_of cs ch")
    case (Some c)
    obtain c' b where c': "deleteNode w c = (c', b)" by fastforce
    from wf_node_child [OF 2(2) Some] have "wf_node c" "live c" by auto
    with 2(1) [OF Some] c' have wf': "wf_node c'" by simp
    have "live c' \<or> (b \<and> \<not> isEnd c' \<and> children c' = [])"
      using deleteNode_stopped [of w c c'] c' \<open>live c\<close> by (cases b) (auto simp: live_def)
    moreover have "live c' \<Longrightarrow> wf_node (TrieNode (AList.update ch c' cs) e x)"
      using 2(2) wf' by (rule wf_node_update)
    moreover have "wf_node (TrieNode (AList.delete ch cs) e x)"
      using 2(2) by (rule wf_node_delete)
    ultimately show ?thesis using Some c' by (auto simp del: wf_node.simps)
  qed (use 2(2) in auto)
qed auto

text \<open>A well-formed live node stores a word: pruning leaves no dead branch behind.\<close>

lemma live_stores: "wf_node n \<Longrightarrow> live n \<Longrightarrow> \<exists>w. lookup n w \<noteq> None"
proof (induction n rule: wf_node.induct)
  case (1 cs e x)
  show ?case
  proof (cases "\<not> e \<and> cs \<noteq> []")
    case True
    then obtain k c cs' where cs: "cs = (k, c) # cs'" by (cases cs) auto
    with 1(2) have "wf_node c" "live c" by auto
    then obtain w where "lookup c w \<noteq> None" using 1(1) [of "(k, c)" k c] cs by auto
    with cs have "lookup (TrieNode cs e x) (k # w) \<noteq> None" by simp
    then show ?thesis by blast
  next
    case False
    with 1(3) have "lookup (TrieNode cs e x) [] \<noteq> None" by (auto simp: live_def)
    then show ?thesis by blast
  qed
qed

lemma walk_live: "wf_node n \<Longrightarrow> walk w n = Some m \<Longrightarrow> wf_node m \<and> (w \<noteq> [] \<longrightarrow> live m)"
proof (induction w arbitrary: n)
  case (Cons ch w)
  then obtain c where c: "map_of (children n) ch = Some c" "walk w c = Some m"
    by (auto split: option.splits)
  with Cons.prems(1) have "wf_node c" "live c" by (cases n; auto dest: wf_node_child)+
  with Cons.IH [OF _ c(2)] c(2) show ?case by (cases w) auto
qed simp

lemma walk_append: "walk (u @ v) n = Option.bind (walk u n) (walk v)"
  by (induction u arbitrary: n) (auto split: option.split)

lemma lookup_append:
  "lookup n (u @ v) = (case walk u n of None \<Rightarrow> None | Some m \<Rightarrow> lookup m v)"
  by (auto simp: lookup_def walk_append split: option.split)

subsection \<open>Enumeration\<close>

definition entries :: "'d trieNode \<Rightarrow> word \<Rightarrow> 'd SearchResult set" where
  "entries n p = {\<lparr>Word = p @ w, Data = d\<rparr> |w d. lookup n w = Some d}"

lemma entries_node:
  assumes "distinct (map fst cs)"
  shows "entries (TrieNode cs e x) p =
    (if e then {\<lparr>Word = p, Data = x\<rparr>} else {}) \<union> (\<Union>(k, c) \<in> set cs. entries c (p @ [k]))"
proof -
  have "r \<in> entries (TrieNode cs e x) p \<longleftrightarrow>
    r \<in> (if e then {\<lparr>Word = p, Data = x\<rparr>} else {}) \<union> (\<Union>(k, c) \<in> set cs. entries c (p @ [k]))" for r
  proof
    assume "r \<in> entries (TrieNode cs e x) p"
    then obtain w d where r: "r = \<lparr>Word = p @ w, Data = d\<rparr>" "lookup (TrieNode cs e x) w = Some d"
      by (auto simp: entries_def)
    then show "r \<in> (if e then {\<lparr>Word = p, Data = x\<rparr>} else {}) \<union> (\<Union>(k, c) \<in> set cs. entries c (p @ [k]))"
      by (cases w) (fastforce simp: entries_def dest: map_of_SomeD split: option.splits if_splits)+
  next
    assume "r \<in> (if e then {\<lparr>Word = p, Data = x\<rparr>} else {}) \<union> (\<Union>(k, c) \<in> set cs. entries c (p @ [k]))"
    then consider "e" "r = \<lparr>Word = p @ [], Data = x\<rparr>"
      | k c w d where "(k, c) \<in> set cs" "r = \<lparr>Word = p @ k # w, Data = d\<rparr>" "lookup c w = Some d"
      by (auto simp: entries_def split: if_splits)
    then show "r \<in> entries (TrieNode cs e x) p"
      by cases (use assms in \<open>fastforce simp: entries_def\<close>)+
  qed
  then show ?thesis by blast
qed

lemma entries_Word: "r \<in> entries n p \<Longrightarrow> \<exists>w. Word r = p @ w"
  by (auto simp: entries_def)

lemma set_collectWords: "wf_node n \<Longrightarrow> set (collectWords n p) = entries n p"
proof (induction n p rule: collectWords.induct)
  case (1 cs e x p)
  then have "set (concat (map (\<lambda>(k, c). collectWords c (p @ [k])) cs)) =
      (\<Union>(k, c) \<in> set cs. entries c (p @ [k]))" by fastforce
  with 1(2) show ?case by (subst entries_node) auto
qed

lemma distinct_collectWords: "wf_node n \<Longrightarrow> distinct (map Word (collectWords n p))"
proof (induction n p rule: collectWords.induct)
  case (1 cs e x p)
  have wf: "wf_node c" if "(k, c) \<in> set cs" for k c using 1(2) that by auto
  have child: "\<exists>w. Word r = p @ k # w" if "(k, c) \<in> set cs" "r \<in> set (collectWords c (p @ [k]))" for k c r
    using that(2) entries_Word [of r c "p @ [k]"] by (auto simp: set_collectWords [OF wf [OF that(1)]])
  have "distinct (map Word (concat (map (\<lambda>(k, c). collectWords c (p @ [k])) as)))"
    if "set as \<subseteq> set cs" "distinct (map fst as)" for as
    using that
  proof (induction as)
    case (Cons a as)
    obtain k c where a: "a = (k, c)" by fastforce
    with Cons.prems have kc: "(k, c) \<in> set cs" by auto
    then have "distinct (map Word (collectWords c (p @ [k])))" using 1 wf by blast
    moreover have "Word ` set (collectWords c (p @ [k])) \<inter>
        Word ` set (concat (map (\<lambda>(k, c). collectWords c (p @ [k])) as)) = {}"
    proof -
      { fix r r' k' c' assume r: "r \<in> set (collectWords c (p @ [k]))" "(k', c') \<in> set as"
          "r' \<in> set (collectWords c' (p @ [k']))" "Word r = Word r'"
        then have "k = k'" using child [OF kc r(1)] child [of k' c' r'] Cons.prems(1) by auto
        with r(2) Cons.prems(2) a have False by force }
      then show ?thesis by fastforce
    qed
    ultimately show ?case using Cons a by (simp add: distinct_append)
  qed simp
  from this [of cs] 1(2) child show ?case by fastforce
qed

lemma finite_entries: "wf_node n \<Longrightarrow> finite (entries n p)"
  by (metis set_collectWords finite_set)

lemma finite_lookup: "wf_node n \<Longrightarrow> finite (dom (lookup n))"
proof -
  assume "wf_node n"
  then have "finite (Word ` entries n [])" by (simp add: finite_entries)
  moreover have "dom (lookup n) \<subseteq> Word ` entries n []" by (force simp: entries_def)
  ultimately show ?thesis by (rule finite_subset [rotated])
qed

subsection \<open>The interface: a finite map from words to data\<close>

datatype 'd trie_op = OpInsert word "'d option" | OpDelete word | OpSearch word | OpSize

datatype 'd trie_out =
    OutDone | OutFailed trie_error | OutFound "'d option" bool | OutSize int

fun tm_step :: "'d trie_op \<Rightarrow> (word \<rightharpoonup> 'd option) \<Rightarrow> 'd trie_out \<times> (word \<rightharpoonup> 'd option)" where
  "tm_step (OpInsert w d) m = (if w = [] then (OutFailed ErrEmptyWord, m) else (OutDone, m(w \<mapsto> d)))"
| "tm_step (OpDelete w) m =
     (if w = [] then (OutFailed ErrEmptyWord, m)
      else if m w = None then (OutFailed ErrWordNotFound, m) else (OutDone, m(w := None)))"
| "tm_step (OpSearch w) m =
     (if w = [] then (OutFailed ErrEmptyWord, m)
      else (case m w of None \<Rightarrow> OutFound None False | Some d \<Rightarrow> OutFound d True, m))"
| "tm_step OpSize m = (OutSize (int (card (dom m))), m)"

definition out_of :: "(trie_error, unit) result \<times> 'd Trie \<Rightarrow> 'd trie_out \<times> 'd Trie" where
  "out_of r = (case fst r of Inl e \<Rightarrow> OutFailed e | Inr _ \<Rightarrow> OutDone, snd r)"

fun trie_step :: "'d trie_op \<Rightarrow> 'd Trie \<Rightarrow> 'd trie_out \<times> 'd Trie" where
  "trie_step (OpInsert w d) t = out_of (Insert w d t)"
| "trie_step (OpDelete w) t = out_of (Delete w t)"
| "trie_step (OpSearch w) t =
     (case Search w t of Inl e \<Rightarrow> OutFailed e | Inr (d, b) \<Rightarrow> OutFound d b, t)"
| "trie_step OpSize t = (OutSize (Size t), t)"

definition trie_inv :: "'d Trie \<Rightarrow> bool" where
  "trie_inv t \<longleftrightarrow> wf_node (root t) \<and> \<not> isEnd (root t) \<and>
                 tsize t = int (card (dom (lookup (root t))))"

lemma lookup_root_Nil: "\<not> isEnd n \<Longrightarrow> lookup n [] = None"
  by (cases n) simp

lemma isEnd_insertNode: "w \<noteq> [] \<Longrightarrow> isEnd (snd (insertNode w d n)) = isEnd n"
  by (cases w; cases n) (auto simp: Let_def split_beta)

lemma isEnd_deleteNode: "w \<noteq> [] \<Longrightarrow> isEnd (fst (deleteNode w n)) = isEnd n"
  by (cases w; cases n) (auto simp: Let_def split_beta split: option.split)

lemma Insert_inv: "trie_inv t \<Longrightarrow> trie_inv (snd (Insert w d t))"
  by (auto simp: trie_inv_def Insert_def Let_def split_beta isEnd_insertNode insertNode_wf
      lookup_insertNode insertNode_fresh finite_lookup card_insert_if domIff)

lemma card_dom_remove:
  assumes "finite (dom m)" "m w \<noteq> None"
  shows "int (card (dom m - {w})) = int (card (dom m)) - 1"
proof -
  from assms have "0 < card (dom m)" by (auto simp: card_gt_0_iff)
  with assms show ?thesis by (simp add: domIff)
qed

lemma walk_isEnd: "walk w n = Some m \<Longrightarrow> isEnd m \<Longrightarrow> lookup n w = Some (data m)"
  by (simp add: lookup_def)

lemma Delete_inv: "trie_inv t \<Longrightarrow> trie_inv (snd (Delete w t))"
  by (auto simp: trie_inv_def Delete_def isEnd_deleteNode deleteNode_wf lookup_deleteNode
      card_dom_remove finite_lookup walk_isEnd simp del: fun_upd_apply split: option.split)

lemma Delete_step:
  "out_of (Delete w t) =
     (if w = [] then (OutFailed ErrEmptyWord, t)
      else if lookup (root t) w = None then (OutFailed ErrWordNotFound, t)
      else (OutDone, t\<lparr>root := fst (deleteNode w (root t)), tsize := tsize t - 1\<rparr>))"
  by (auto simp: Delete_def out_of_def lookup_def split: option.split)

lemma walk_data_None: "wf_node n \<Longrightarrow> walk w n = Some m \<Longrightarrow> \<not> isEnd m \<Longrightarrow> data m = None"
  using walk_live [of n w m] by (cases m) auto

lemma trie_step_inv: "trie_inv t \<Longrightarrow> trie_inv (snd (trie_step x t))"
  by (cases x) (auto simp: out_of_def Insert_inv Delete_inv)

lemma trie_step_refines:
  "trie_inv t \<Longrightarrow>
   tm_step x (lookup (root t)) = (fst (trie_step x t), lookup (root (snd (trie_step x t))))"
proof (cases x)
  case (OpInsert w d)
  then show ?thesis by (auto simp: out_of_def Insert_def Let_def split_beta lookup_insertNode)
next
  case (OpDelete w)
  then show ?thesis by (simp add: Delete_step lookup_deleteNode)
next
  case (OpSearch w)
  assume "trie_inv t"
  with OpSearch show ?thesis
    by (auto simp: Search_def lookup_def trie_inv_def dest: walk_data_None split: option.split)
next
  case OpSize
  assume "trie_inv t"
  with OpSize show ?thesis by (simp add: Size_def trie_inv_def)
qed

interpretation trie_map: refinement trie_step trie_inv tm_step "\<lambda>t. lookup (root t)"
  by unfold_locales (simp_all add: trie_step_inv trie_step_refines)

lemma NewTrie_inv: "trie_inv NewTrie"
  by (simp add: trie_inv_def NewTrie_def newTrieNode_def lookup_leaf dom_def)

lemma trie_reachable_inv: "trie_inv (snd (run trie_step ops NewTrie))"
  by (rule trie_map.run_inv [OF NewTrie_inv])

subsection \<open>Wildcard patterns\<close>

text \<open>The meaning of a pattern: \<open>*\<close> stands for any sequence of runes, \<open>.\<close> for one rune.\<close>

fun matches :: "rune list \<Rightarrow> word \<Rightarrow> bool" where
  "matches [] w \<longleftrightarrow> w = []"
| "matches (p # ps) w \<longleftrightarrow>
     (if p = star then matches ps w \<or> (case w of [] \<Rightarrow> False | _ # v \<Rightarrow> matches (p # ps) v)
      else case w of [] \<Rightarrow> False | c # v \<Rightarrow> (p = dot \<or> c = p) \<and> matches ps v)"

lemma star_neq_dot [simp]: "star \<noteq> dot" "dot \<noteq> star"
  by (simp_all add: dot_def star_def)

lemma matches_Cons:
  "matches (star # ps) [] \<longleftrightarrow> matches ps []"
  "matches (star # ps) (k # w) \<longleftrightarrow> matches ps (k # w) \<or> matches (star # ps) w"
  "\<not> matches (dot # ps) []"
  "matches (dot # ps) (k # w) \<longleftrightarrow> matches ps w"
  "p \<noteq> star \<Longrightarrow> \<not> matches (p # ps) []"
  "p \<noteq> star \<Longrightarrow> p \<noteq> dot \<Longrightarrow> matches (p # ps) (k # w) \<longleftrightarrow> k = p \<and> matches ps w"
  by simp_all

declare matches.simps(2) [simp del] matches_Cons [simp]

lemma matches_star: "matches (star # ps) w \<longleftrightarrow> (\<exists>u v. w = u @ v \<and> matches ps v)"
proof (induction w)
  case (Cons c w)
  show ?case
  proof
    assume "matches (star # ps) (c # w)"
    with Cons show "\<exists>u v. c # w = u @ v \<and> matches ps v"
      by (metis append_Cons append_Nil matches_Cons(2))
  next
    assume "\<exists>u v. c # w = u @ v \<and> matches ps v"
    then obtain u v where uv: "c # w = u @ v" "matches ps v" by blast
    with Cons show "matches (star # ps) (c # w)" by (cases u) auto
  qed
qed auto

definition hits :: "'d trieNode \<Rightarrow> rune list \<Rightarrow> word \<Rightarrow> 'd SearchResult set" where
  "hits n pat cur = {\<lparr>Word = cur @ w, Data = d\<rparr> |w d. lookup n w = Some d \<and> matches pat w}"

definition gathered :: "'d SearchResult list \<times> word set \<Rightarrow> bool" where
  "gathered a \<longleftrightarrow> Word ` set (fst a) = snd a \<and> distinct (map Word (fst a))"

definition adds ::
    "'d SearchResult set \<Rightarrow> 'd SearchResult list \<times> word set \<Rightarrow> 'd SearchResult list \<times> word set \<Rightarrow> bool" where
  "adds H a b \<longleftrightarrow> (gathered a \<longrightarrow>
     gathered b \<and> set (fst b) \<subseteq> set (fst a) \<union> H \<and> snd b = snd a \<union> Word ` H)"

lemma adds_refl: "adds {} a a"
  by (simp add: adds_def)

lemma adds_trans: "adds H a b \<Longrightarrow> adds K b c \<Longrightarrow> adds (H \<union> K) a c"
  by (auto simp: adds_def)

lemma adds_fold:
  "(\<And>k c a. (k, c) \<in> set cs \<Longrightarrow> adds (H k c) a (f k c a)) \<Longrightarrow>
   adds (\<Union>(k, c) \<in> set cs. H k c) a (fold (\<lambda>(k, c). f k c) cs a)"
proof (induction cs arbitrary: a)
  case (Cons x cs)
  obtain k c where x: "x = (k, c)" by fastforce
  with Cons have "adds (H k c) a (f k c a)"
    "adds (\<Union>(k, c) \<in> set cs. H k c) (f k c a) (fold (\<lambda>(k, c). f k c) cs (f k c a))" by auto
  from adds_trans [OF this] x show ?case by simp
qed (simp add: adds_refl)

lemma hits_eq:
  assumes "wf_node n"
  shows "r \<in> hits n pat cur \<longleftrightarrow>
    (matches pat [] \<and> isEnd n \<and> r = \<lparr>Word = cur, Data = data n\<rparr>) \<or>
    (\<exists>k c w d. (k, c) \<in> set (children n) \<and> lookup c w = Some d \<and> matches pat (k # w) \<and>
       r = \<lparr>Word = cur @ k # w, Data = d\<rparr>)"
proof (cases n)
  case (TrieNode cs e x)
  with assms have key: "map_of cs k = Some c \<longleftrightarrow> (k, c) \<in> set cs" for k c by simp
  show ?thesis
  proof
    assume "r \<in> hits n pat cur"
    then obtain w d where r: "r = \<lparr>Word = cur @ w, Data = d\<rparr>" "lookup n w = Some d" "matches pat w"
      by (auto simp: hits_def)
    then show "(matches pat [] \<and> isEnd n \<and> r = \<lparr>Word = cur, Data = data n\<rparr>) \<or>
      (\<exists>k c w d. (k, c) \<in> set (children n) \<and> lookup c w = Some d \<and> matches pat (k # w) \<and>
         r = \<lparr>Word = cur @ k # w, Data = d\<rparr>)"
      using TrieNode key by (cases w) (auto split: if_splits option.splits)
  next
    assume "(matches pat [] \<and> isEnd n \<and> r = \<lparr>Word = cur, Data = data n\<rparr>) \<or>
      (\<exists>k c w d. (k, c) \<in> set (children n) \<and> lookup c w = Some d \<and> matches pat (k # w) \<and>
         r = \<lparr>Word = cur @ k # w, Data = d\<rparr>)"
    then show "r \<in> hits n pat cur"
    proof (elim disjE exE conjE)
      assume "matches pat []" "isEnd n" "r = \<lparr>Word = cur, Data = data n\<rparr>"
      then show ?thesis using TrieNode by (auto simp: hits_def intro!: exI [of _ "[]"])
    next
      fix k c w d
      assume kc: "(k, c) \<in> set (children n)" "lookup c w = Some d" "matches pat (k # w)"
        "r = \<lparr>Word = cur @ k # w, Data = d\<rparr>"
      then have "lookup n (k # w) = Some d" using TrieNode key [of k c] by simp
      with kc show ?thesis by (auto simp: hits_def)
    qed
  qed
qed

lemma hits_step:
  assumes "wf_node n"
  shows "hits n [] cur = (if isEnd n then {\<lparr>Word = cur, Data = data n\<rparr>} else {})"
    and "hits n (star # pat) cur =
      hits n pat cur \<union> (\<Union>(k, c) \<in> set (children n). hits c (star # pat) (cur @ [k]))"
    and "hits n (dot # pat) cur = (\<Union>(k, c) \<in> set (children n). hits c pat (cur @ [k]))"
    and "ch \<noteq> star \<Longrightarrow> ch \<noteq> dot \<Longrightarrow> hits n (ch # pat) cur =
      (case map_of (children n) ch of None \<Rightarrow> {} | Some c \<Rightarrow> hits c pat (cur @ [ch]))"
proof -
  have dist: "distinct (map fst (children n))" using assms by (cases n) auto
  note key = map_of_eq_Some_iff [OF dist]
  show "hits n [] cur = (if isEnd n then {\<lparr>Word = cur, Data = data n\<rparr>} else {})"
    by (rule set_eqI) (simp add: hits_eq [OF assms])
  show "hits n (star # pat) cur =
      hits n pat cur \<union> (\<Union>(k, c) \<in> set (children n). hits c (star # pat) (cur @ [k]))"
    by (rule set_eqI, simp add: hits_eq [OF assms], simp add: hits_def) blast
  show "hits n (dot # pat) cur = (\<Union>(k, c) \<in> set (children n). hits c pat (cur @ [k]))"
    by (rule set_eqI, simp add: hits_eq [OF assms], simp add: hits_def) blast
  show "hits n (ch # pat) cur =
      (case map_of (children n) ch of None \<Rightarrow> {} | Some c \<Rightarrow> hits c pat (cur @ [ch]))"
    if lit: "ch \<noteq> star" "ch \<noteq> dot"
  proof (cases "map_of (children n) ch")
    case None
    then have "(ch, c) \<notin> set (children n)" for c using key [of ch c] by simp
    with None lit show ?thesis by (auto simp: hits_eq [OF assms])
  next
    case (Some c)
    then have only: "(ch, c') \<in> set (children n) \<longleftrightarrow> c' = c" for c' using key [of ch c'] by auto
    have "r \<in> hits n (ch # pat) cur \<longleftrightarrow>
      (\<exists>w d. lookup c w = Some d \<and> matches pat w \<and> r = \<lparr>Word = cur @ ch # w, Data = d\<rparr>)" for r
      unfolding hits_eq [OF assms] using lit only by (auto simp: only)
    with Some show ?thesis by (auto simp: hits_def)
  qed
qed

lemma wf_children: "wf_node n \<Longrightarrow> (k, c) \<in> set (children n) \<Longrightarrow> wf_node c"
  by (cases n) auto

lemma wildcardDFS_adds: "wf_node n \<Longrightarrow> adds (hits n pat cur) acc (wildcardDFS n pat cur acc)"
proof (induction n pat cur acc rule: wildcardDFS.induct)
  case (1 n cur results seen)
  then show ?case by (auto simp: hits_step adds_def gathered_def)
next
  case (2 n ch pat cur results seen)
  note wf = wf_children [OF "2.prems"]
  consider "ch = star" | "ch = dot" "ch \<noteq> star" | "ch \<noteq> star" "ch \<noteq> dot" by blast
  then show ?case
  proof cases
    case 1
    have "adds (\<Union>(k, c) \<in> set (children n). hits c (ch # pat) (cur @ [k]))
        (wildcardDFS n pat cur (results, seen))
        (fold (\<lambda>(k, c). wildcardDFS c (ch # pat) (cur @ [k])) (children n)
          (wildcardDFS n pat cur (results, seen)))"
      by (rule adds_fold) (rule "2.IH"(2) [OF 1 _ refl wf])
    from adds_trans [OF "2.IH"(1) [OF 1 "2.prems"] this] show ?thesis
      using 1 by (simp add: hits_step [OF "2.prems"])
  next
    case 2
    have "adds (\<Union>(k, c) \<in> set (children n). hits c pat (cur @ [k])) (results, seen)
        (fold (\<lambda>(k, c). wildcardDFS c pat (cur @ [k])) (children n) (results, seen))"
      by (rule adds_fold) (rule "2.IH"(3) [OF 2(2,1) _ refl wf])
    then show ?thesis using 2 by (simp add: hits_step [OF "2.prems"])
  next
    case 3
    then show ?thesis
      using "2.IH"(4) [OF 3] wf
      by (auto simp: hits_step "2.prems" adds_refl dest: map_of_SomeD split: option.split)
  qed
qed

lemma hits_functional: "r \<in> hits n pat cur \<Longrightarrow> r' \<in> hits n pat cur \<Longrightarrow> Word r = Word r' \<Longrightarrow> r = r'"
  by (auto simp: hits_def)

lemma wildcardDFS_hits:
  assumes "wf_node n"
  shows "set (fst (wildcardDFS n pat [] ([], {}))) = hits n pat []"
    and "distinct (map Word (fst (wildcardDFS n pat [] ([], {}))))"
proof -
  let ?R = "fst (wildcardDFS n pat [] ([], {}))"
  have *: "gathered (wildcardDFS n pat [] ([], {}))" "set ?R \<subseteq> hits n pat []"
    "snd (wildcardDFS n pat [] ([], {})) = Word ` hits n pat []"
    using wildcardDFS_adds [OF assms, of pat "[]" "([], {})"] by (auto simp: adds_def gathered_def)
  then show "distinct (map Word ?R)" by (simp add: gathered_def)
  have "hits n pat [] \<subseteq> set ?R"
  proof
    fix r assume r: "r \<in> hits n pat []"
    with * have "Word r \<in> Word ` set ?R" by (auto simp: gathered_def)
    then obtain r' where r': "r' \<in> set ?R" "Word r = Word r'" by auto
    with * r hits_functional [of r n pat "[]" r'] show "r \<in> set ?R" by auto
  qed
  with * show "set ?R = hits n pat []" by blast
qed

lemma sort_results:
  assumes "distinct (map Word rs)"
  shows "sorted_wrt (<) (map Word (sort_key Word rs))" "set (sort_key Word rs) = set rs"
proof -
  have "distinct (map Word (sort_key Word rs))"
    using assms by (simp add: distinct_map)
  then show "sorted_wrt (<) (map Word (sort_key Word rs))" by (simp add: strict_sorted_iff)
  show "set (sort_key Word rs) = set rs" by simp
qed

subsection \<open>Longest match\<close>

lemma longestLoop_spec:
  "case longestLoop n q cur best of
     None \<Rightarrow> best = None \<and> (\<forall>w. w \<noteq> [] \<longrightarrow> prefix w q \<longrightarrow> lookup n w = None)
   | Some r \<Rightarrow>
       (best = Some r \<and> (\<forall>w. w \<noteq> [] \<longrightarrow> prefix w q \<longrightarrow> lookup n w = None)) \<or>
       (\<exists>w. w \<noteq> [] \<and> prefix w q \<and> Word r = cur @ w \<and> lookup n w = Some (Data r) \<and>
          (\<forall>v. prefix v q \<longrightarrow> lookup n v \<noteq> None \<longrightarrow> length v \<le> length w))"
proof (induction n q cur best rule: longestLoop.induct)
  case (2 n ch q cur best)
  obtain cs e x where n: "n = TrieNode cs e x" by (cases n)
  show ?case
  proof (cases "map_of cs ch")
    case None
    then have "lookup n w = None" if "w \<noteq> []" "prefix w (ch # q)" for w
      using that n by (cases w) auto
    with None n show ?thesis by (auto split: option.split)
  next
    case (Some c)
    have below: "lookup n (ch # v) = lookup c v" for v using Some n by simp
    let ?best = "if isEnd c then Some \<lparr>Word = cur @ [ch], Data = data c\<rparr> else best"
    have c_Nil: "lookup c [] = (if isEnd c then Some (data c) else None)" by (cases c) simp
    have pre: "prefix w (ch # q) \<longleftrightarrow> w = [] \<or> (\<exists>v. w = ch # v \<and> prefix v q)" for w
      by (cases w) auto
    show ?thesis
    proof (cases "longestLoop c q (cur @ [ch]) ?best")
      case None
      with 2 Some n have "?best = None" "\<forall>w. w \<noteq> [] \<longrightarrow> prefix w q \<longrightarrow> lookup c w = None" by auto
      then have "best = None" "\<forall>w. prefix w q \<longrightarrow> lookup c w = None"
        using c_Nil by (auto split: if_splits) (metis (full_types))
      with None Some n below show ?thesis by (auto simp: pre)
    next
      case r: (Some r)
      with 2 Some n consider
          "?best = Some r" "\<forall>w. w \<noteq> [] \<longrightarrow> prefix w q \<longrightarrow> lookup c w = None"
        | w where "w \<noteq> []" "prefix w q" "Word r = cur @ ch # w" "lookup c w = Some (Data r)"
            "\<forall>v. prefix v q \<longrightarrow> lookup c v \<noteq> None \<longrightarrow> length v \<le> length w"
        by fastforce
      then show ?thesis
      proof cases
        case 1
        show ?thesis
        proof (cases "isEnd c")
          case True
          with 1 have "Word r = cur @ [ch]" "lookup n [ch] = Some (Data r)"
            using c_Nil below [of "[]"] by auto
          moreover have "length v \<le> length [ch]" if "prefix v (ch # q)" "lookup n v \<noteq> None" for v
            using that 1(2) below by (auto simp: pre)
          ultimately show ?thesis using r Some n pre
            by (auto intro!: exI [of _ "[ch]"])
        next
          case False
          with 1 c_Nil have "\<forall>w. prefix w q \<longrightarrow> lookup c w = None" by (metis (full_types))
          with False 1 r Some n below show ?thesis by (auto simp: pre)
        qed
      next
        case 2
        then have "length v \<le> length (ch # w)" if "prefix v (ch # q)" "lookup n v \<noteq> None" for v
          using that below by (auto simp: pre)
        with 2 r Some n below show ?thesis
          by (auto intro!: exI [of _ "ch # w"])
      qed
    qed
  qed
qed (auto split: option.split)

subsection \<open>Properties\<close>

text \<open>The map that a sequence of calls leaves behind, as the specification computes it.\<close>

definition stored :: "'d trie_op list \<Rightarrow> word \<Rightarrow> 'd option option" where
  "stored ops = snd (run tm_step ops Map.empty)"

lemma lookup_NewTrie: "lookup (root NewTrie) = Map.empty"
  by (auto simp: NewTrie_def)

lemma stored_lookup: "lookup (root (snd (run trie_step ops NewTrie))) = stored ops"
  using trie_map.run_refines [OF NewTrie_inv, of ops] by (simp add: stored_def lookup_NewTrie)

lemma entries_root:
  "entries n p = {r. \<exists>w. Word r = p @ w \<and> lookup n w = Some (Data r)}"
  unfolding entries_def by (auto intro: SearchResult.equality) (metis SearchResult.surjective old.unit.exhaust)

text \<open>
  C6. From an empty trie, every sequence of \<open>Insert\<close>, \<open>Delete\<close>, \<open>Search\<close> and \<open>Size\<close> calls is
  answered as by a map from words to data: a search finds the data of the last insertion that
  was not deleted, deleting an absent word is \<open>ErrWordNotFound\<close>, the empty word is refused, and
  \<open>Size\<close> is the number of stored words.
\<close>

theorem trie_is_word_map:
  "fst (run trie_step ops NewTrie) = fst (run tm_step ops Map.empty)"
  using trie_map.run_refines [OF NewTrie_inv, of ops] by (simp add: lookup_NewTrie)

text \<open>
  C7. Deletion prunes completely: whatever was inserted and deleted before, every node below
  the root still lies on the path of a stored word.
\<close>

theorem trie_has_no_dead_branch:
  assumes "walk w (root (snd (run trie_step ops NewTrie))) = Some n" "w \<noteq> []"
  shows "\<exists>v. stored ops (w @ v) \<noteq> None"
proof -
  have "wf_node (root (snd (run trie_step ops NewTrie)))"
    using trie_reachable_inv [of ops] by (simp add: trie_inv_def)
  with walk_live [OF this assms(1)] assms(2) live_stores obtain v where "lookup n v \<noteq> None" by blast
  with assms(1) have "stored ops (w @ v) \<noteq> None" by (simp add: stored_lookup [symmetric] lookup_append)
  then show ?thesis by blast
qed

theorem trie_has_no_dead_branch_witness:
  "\<exists>v. stored [OpInsert [1, 2] (Some ''a''), OpInsert [1, 2, 3] None, OpDelete [1, 2, 3]] ([1] @ v) \<noteq> None"
  by (rule trie_has_no_dead_branch)
     (simp_all add: out_of_def Insert_def Delete_def NewTrie_def newTrieNode_def)

text \<open>
  C8. \<open>PrefixMatchLimit\<close> returns the stored words that begin with the prefix, with their data, in
  strictly ascending order and cut to the limit when one is given; \<open>GetAllWords\<close> returns all
  stored words in that order.
\<close>

theorem trie_prefix_match:
  assumes "t = snd (run trie_step ops NewTrie)" "pfx \<noteq> []" "0 \<le> maxResults"
  shows "(\<exists>rs. sorted_wrt (<) (map Word rs) \<and>
            set rs = {r. prefix pfx (Word r) \<and> stored ops (Word r) = Some (Data r)} \<and>
            PrefixMatchLimit pfx maxResults t =
              Inr (if 0 < maxResults then take (nat maxResults) rs else rs)) \<and>
         sorted_wrt (<) (map Word (GetAllWords t)) \<and>
         set (GetAllWords t) = {r. stored ops (Word r) = Some (Data r)}"
proof -
  have wf: "wf_node (root t)" using trie_reachable_inv [of ops] assms(1) by (simp add: trie_inv_def)
  have st: "stored ops = lookup (root t)" by (simp add: assms(1) stored_lookup)
  have all: "sorted_wrt (<) (map Word (GetAllWords t))" "set (GetAllWords t) = {r. stored ops (Word r) = Some (Data r)}"
    using sort_results [OF distinct_collectWords [OF wf]] set_collectWords [OF wf, of "[]"]
    by (auto simp: GetAllWords_def entries_root st)
  let ?rs = "case walk pfx (root t) of None \<Rightarrow> [] | Some n \<Rightarrow> sort_key Word (collectWords n pfx)"
  have "sorted_wrt (<) (map Word ?rs) \<and>
        set ?rs = {r. prefix pfx (Word r) \<and> stored ops (Word r) = Some (Data r)}"
  proof (cases "walk pfx (root t)")
    case None
    then show ?thesis by (auto simp: st prefix_def lookup_append)
  next
    case (Some n)
    from walk_live [OF wf Some] have "wf_node n" by simp
    with sort_results [OF distinct_collectWords] set_collectWords [of n pfx] Some show ?thesis
      by (fastforce simp: entries_root st prefix_def lookup_append)
  qed
  moreover have "PrefixMatchLimit pfx maxResults t =
      Inr (if 0 < maxResults then take (nat maxResults) ?rs else ?rs)"
    using assms(2,3) by (auto simp: PrefixMatchLimit_def Let_def split: option.split)
  ultimately show ?thesis using all by blast
qed

theorem trie_prefix_match_witness:
  "\<exists>rs. set rs = {r. prefix [1] (Word r) \<and> stored [OpInsert [1, 2] (Some ''a'')] (Word r) = Some (Data r)} \<and>
        PrefixMatchLimit [1] 5 (snd (run trie_step [OpInsert [1, 2] (Some ''a'')] NewTrie)) = Inr (take 5 rs)"
  using trie_prefix_match [OF refl, of "[1]" 5 "[OpInsert [1, 2] (Some ''a'')]"] by auto

text \<open>
  C9. \<open>WildcardSearch\<close> returns, in strictly ascending order and without repetition, exactly the
  stored words that match the pattern, although its depth-first search may reach one word along
  several readings of the \<open>*\<close>.
\<close>

theorem trie_wildcard_search:
  assumes "t = snd (run trie_step ops NewTrie)" "pat \<noteq> []"
  shows "\<exists>rs. WildcardSearch pat t = Inr rs \<and> sorted_wrt (<) (map Word rs) \<and>
           set rs = {r. matches pat (Word r) \<and> stored ops (Word r) = Some (Data r)}"
proof -
  have wf: "wf_node (root t)" using trie_reachable_inv [of ops] assms(1) by (simp add: trie_inv_def)
  have "hits (root t) pat [] = {r. matches pat (Word r) \<and> stored ops (Word r) = Some (Data r)}"
    unfolding hits_def by (auto simp: assms(1) stored_lookup) (metis SearchResult.surjective old.unit.exhaust)
  with sort_results [OF wildcardDFS_hits(2) [OF wf, of pat]] wildcardDFS_hits(1) [OF wf, of pat] assms(2)
  show ?thesis by (simp add: WildcardSearch_def)
qed

theorem trie_wildcard_search_witness:
  "\<exists>rs. WildcardSearch [star, 2] (snd (run trie_step [OpInsert [1, 2] (Some ''a'')] NewTrie)) = Inr rs \<and>
     sorted_wrt (<) (map Word rs)"
  using trie_wildcard_search [OF refl, of "[star, 2]" "[OpInsert [1, 2] (Some ''a'')]"] by auto

text \<open>
  C10. \<open>LongestMatch\<close> returns the longest stored word that is a prefix of the query, with its
  data, and \<open>ErrWordNotFound\<close> exactly when no stored word is a prefix of the query.
\<close>

theorem trie_longest_match:
  assumes "t = snd (run trie_step ops NewTrie)" "query \<noteq> []"
  shows "case LongestMatch query t of
           Inl e \<Rightarrow> e = ErrWordNotFound \<and> (\<forall>w. prefix w query \<longrightarrow> stored ops w = None)
         | Inr r \<Rightarrow> prefix (Word r) query \<and> stored ops (Word r) = Some (Data r) \<and>
             (\<forall>w. prefix w query \<longrightarrow> stored ops w \<noteq> None \<longrightarrow> length w \<le> length (Word r))"
proof -
  have "\<not> isEnd (root t)" using trie_reachable_inv [of ops] assms(1) by (simp add: trie_inv_def)
  then have "stored ops [] = None" by (simp add: assms(1) stored_lookup [symmetric] lookup_root_Nil)
  with longestLoop_spec [where n = "root t" and q = query and cur = "[]" and best = None] show ?thesis
    using assms by (auto simp: LongestMatch_def stored_lookup split: option.splits) (metis (full_types))+
qed

theorem trie_longest_match_witness:
  "case LongestMatch [1, 2, 3] (snd (run trie_step [OpInsert [1, 2] (Some ''a''), OpInsert [1] None] NewTrie)) of
     Inl e \<Rightarrow> False
   | Inr r \<Rightarrow> prefix (Word r) [1, 2, 3]"
  using trie_longest_match [OF refl, of "[1, 2, 3]" "[OpInsert [1, 2] (Some ''a''), OpInsert [1] None]"]
  by (auto simp: stored_def split: sum.splits dest: spec [of _ "[1]"])

end
