(* ===== verification/Gostrings.thy ===== *)
theory Gostrings
  imports Prelude
begin

section \<open>Strings of the Go standard library\<close>

text \<open>
  What the components use of the packages \<open>strings\<close> and \<open>fmt\<close>. A Go string is a list of bytes,
  \<^typ>\<open>string\<close>. Printing with \<open>%d\<close> and scanning with \<open>%d\<close> are proved inverse on the values of
  an \<open>int\<close>, which has 64 bits.
\<close>

subsection \<open>Prefixes and splitting\<close>

definition HasPrefix :: "string \<Rightarrow> string \<Rightarrow> bool" where
  "HasPrefix s p \<longleftrightarrow> take (length p) s = p"

definition TrimPrefix :: "string \<Rightarrow> string \<Rightarrow> string" where
  "TrimPrefix s p = (if HasPrefix s p then drop (length p) s else s)"

text \<open>\<open>strings.Index\<close>; \<^const>\<open>None\<close> is the result \<open>-1\<close>.\<close>

fun Index :: "string \<Rightarrow> string \<Rightarrow> nat option" where
  "Index [] sub = (if sub = [] then Some 0 else None)"
| "Index (c # cs) sub = (if HasPrefix (c # cs) sub then Some 0 else map_option Suc (Index cs sub))"

text \<open>\<open>strings.SplitN(s, sep, 2)\<close> for a separator of one character.\<close>

definition SplitN2 :: "char \<Rightarrow> string \<Rightarrow> string list" where
  "SplitN2 sep s =
     (case dropWhile (\<lambda>c. c \<noteq> sep) s of
        [] \<Rightarrow> [s]
      | _ # rest \<Rightarrow> [takeWhile (\<lambda>c. c \<noteq> sep) s, rest])"

lemma HasPrefix_append [simp]: "HasPrefix (p @ s) p"
  by (simp add: HasPrefix_def)

lemma HasPrefix_Cons [simp]: "HasPrefix (c # s) (d # p) \<longleftrightarrow> c = d \<and> HasPrefix s p"
  by (auto simp: HasPrefix_def)

lemma HasPrefix_Nil [simp]: "HasPrefix s []" "HasPrefix [] (d # p) \<longleftrightarrow> False"
  by (simp_all add: HasPrefix_def)

lemma TrimPrefix_append [simp]: "TrimPrefix (p @ s) p = s"
  by (simp add: TrimPrefix_def)

lemma TrimPrefix_Cons: "TrimPrefix (c # s) [d] = (if c = d then s else c # s)"
  by (simp add: TrimPrefix_def)

lemma SplitN2_append: "sep \<notin> set s \<Longrightarrow> SplitN2 sep (s @ sep # t) = [s, t]"
  by (induction s) (auto simp: SplitN2_def split: list.splits)

lemma Index_append: "c \<notin> set s \<Longrightarrow> Index (s @ c # sub @ t) (c # sub) = Some (length s)"
  by (induction s) auto

subsection \<open>Decimal numbers\<close>

definition digit :: "nat \<Rightarrow> char" where "digit n = char_of (48 + n)"

definition digit_value :: "char \<Rightarrow> nat" where "digit_value c = of_char c - 48"

definition is_digit :: "char \<Rightarrow> bool" where "is_digit c \<longleftrightarrow> 48 \<le> (of_char c :: nat) \<and> of_char c \<le> (57 :: nat)"

fun show_nat :: "nat \<Rightarrow> string" where
  "show_nat n = (if n < 10 then [digit n] else show_nat (n div 10) @ [digit (n mod 10)])"

definition show_int :: "int \<Rightarrow> string" where
  "show_int i = (if i < 0 then ''-'' @ show_nat (nat (- i)) else show_nat (nat i))"

definition read_nat :: "string \<Rightarrow> nat" where
  "read_nat ds = foldl (\<lambda>n c. 10 * n + digit_value c) 0 ds"

text \<open>
  The white space that \<open>fmt\<close> skips before a number (\<open>isSpace\<close>), one rune at a time on the UTF-8
  bytes; a newline is an error in \<open>Sscanf\<close>.
\<close>

definition spaces :: "nat list list" where
  "spaces = [[9], [10], [11], [12], [13], [32], [0xC2, 0x85], [0xC2, 0xA0], [0xE1, 0x9A, 0x80]] @
     map (\<lambda>b. [0xE2, 0x80, b]) ([0x80..<0x8B] @ [0xA8, 0xA9, 0xAF]) @ [[0xE2, 0x81, 0x9F], [0xE3, 0x80, 0x80]]"

definition space_width :: "string \<Rightarrow> nat" where
  "space_width s =
     (case find (\<lambda>r. take (length r) (map of_char s) = r) spaces of None \<Rightarrow> 0 | Some r \<Rightarrow> length r)"

function SkipSpace :: "string \<Rightarrow> string option" where
  "SkipSpace s =
     (if s \<noteq> [] \<and> hd s = CHR 0x0A then None
      else if space_width s = 0 then Some s
      else SkipSpace (drop (space_width s) s))"
  by auto
termination
proof (relation "measure length")
  fix s assume "space_width s \<noteq> 0"
  moreover have "space_width [] = 0" by (simp add: space_width_def spaces_def)
  ultimately show "(drop (space_width s) s, s) \<in> measure length" by (cases s) auto
qed simp

declare SkipSpace.simps [simp del] show_nat.simps [simp del]

text \<open>\<open>fmt.Sscanf(s, "%d", &n)\<close>: \<^const>\<open>None\<close> is the error; what follows the number is ignored.\<close>

definition Sscanf_d :: "string \<Rightarrow> int option" where
  "Sscanf_d s =
     (case SkipSpace s of
        None \<Rightarrow> None
      | Some s1 \<Rightarrow>
          let (sign, s2) = (case s1 of c # cs \<Rightarrow> if c = CHR ''-'' then (-1, cs) else if c = CHR ''+'' then (1, cs) else (1, s1)
                                     | [] \<Rightarrow> (1, s1));
              ds = takeWhile is_digit s2;
              i = sign * int (read_nat ds)
          in if ds = [] \<or> i < - (2 ^ 63) \<or> 2 ^ 63 \<le> i then None else Some i)"

lemma of_char_digit: "n < 10 \<Longrightarrow> of_char (digit n) = (48 + n :: nat)"
  by (simp add: digit_def)

lemma digit_props [simp]: "n < 10 \<Longrightarrow> is_digit (digit n)" "n < 10 \<Longrightarrow> digit_value (digit n) = n"
  by (simp_all add: is_digit_def digit_value_def of_char_digit)

lemma show_nat_digits: "list_all is_digit (show_nat n) \<and> show_nat n \<noteq> []"
proof (induction n rule: show_nat.induct)
  case (1 n)
  then show ?case by (subst (1 2) show_nat.simps) simp
qed

lemma set_show_nat: "c \<in> set (show_nat n) \<Longrightarrow> is_digit c"
  using show_nat_digits [of n] by (simp add: list_all_iff)

lemma read_show_nat [simp]: "read_nat (show_nat n) = n"
proof (induction n rule: show_nat.induct)
  case (1 n)
  then show ?case by (subst show_nat.simps) (simp add: read_nat_def)
qed

lemma not_digit [simp]: "is_digit CHR ''-'' \<longleftrightarrow> False" "is_digit CHR ''+'' \<longleftrightarrow> False" "is_digit CHR '','' \<longleftrightarrow> False"
  "is_digit CHR '' '' \<longleftrightarrow> False" "is_digit CHR ''@'' \<longleftrightarrow> False" "is_digit CHR 0x0A \<longleftrightarrow> False"
  by (simp_all add: is_digit_def)

lemma SkipSpace_stop:
  assumes "33 \<le> (of_char c :: nat)" "of_char c < (128 :: nat)"
  shows "SkipSpace (c # cs) = Some (c # cs)"
proof -
  have "c \<noteq> CHR 0x0A" using assms by auto
  moreover have "space_width (c # cs) = 0" using assms by (auto simp: space_width_def spaces_def upt_rec)
  ultimately show ?thesis by (subst SkipSpace.simps) simp
qed

lemma Sscanf_show_int:
  assumes "- (2 ^ 63) \<le> i" "i < 2 ^ 63" "rest = [] \<or> \<not> is_digit (hd rest)"
  shows "Sscanf_d (show_int i @ rest) = Some i"
proof -
  obtain c cs where show_nat: "show_nat (nat \<bar>i\<bar>) = c # cs" "is_digit c" "list_all is_digit cs"
    using show_nat_digits [of "nat \<bar>i\<bar>"] by (cases "show_nat (nat \<bar>i\<bar>)") auto
  then have start: "SkipSpace (c # xs) = Some (c # xs)" "SkipSpace (CHR ''-'' # xs) = Some (CHR ''-'' # xs)" for xs
    by (auto intro!: SkipSpace_stop simp: is_digit_def)
  have sign: "c \<noteq> CHR ''-''" "c \<noteq> CHR ''+''" using show_nat(2) not_digit by metis+
  have digits: "takeWhile is_digit (show_nat (nat \<bar>i\<bar>) @ rest) = show_nat (nat \<bar>i\<bar>)"
    using assms(3) show_nat by (cases rest) (auto simp: takeWhile_append list_all_iff)
  have "read_nat (c # cs) = nat \<bar>i\<bar>" using show_nat(1) by (metis read_show_nat)
  then show ?thesis
    using assms(1,2) show_nat start sign digits
    by (cases "i < 0") (simp_all add: Sscanf_d_def show_int_def Let_def)
qed

subsection \<open>Suffixes and \<open>strconv.Atoi\<close>\<close>

definition HasSuffix :: "string \<Rightarrow> string \<Rightarrow> bool" where
  "HasSuffix s p \<longleftrightarrow> length p \<le> length s \<and> drop (length s - length p) s = p"

definition TrimSuffix :: "string \<Rightarrow> string \<Rightarrow> string" where
  "TrimSuffix s p = (if HasSuffix s p then take (length s - length p) s else s)"

definition Atoi :: "string \<Rightarrow> int option" where
  "Atoi s =
     (let (sign, ds) = (case s of c # cs \<Rightarrow> if c = CHR ''-'' then (-1, cs) else if c = CHR ''+'' then (1, cs) else (1, s)
                                | [] \<Rightarrow> (1, s));
          i = sign * int (read_nat ds)
      in if ds = [] \<or> \<not> list_all is_digit ds \<or> i < - (2 ^ 63) \<or> 2 ^ 63 \<le> i then None else Some i)"

lemma HasSuffix_append [simp]: "HasSuffix (s @ p) p"
  by (simp add: HasSuffix_def)

lemma TrimSuffix_append [simp]: "TrimSuffix (s @ p) p = s"
  by (simp add: TrimSuffix_def)

end
