(* ===== verification/Rbac.thy ===== *)
theory Rbac
  imports Gostrings
begin

section \<open>Role-based access control (\<open>src/internal/rbac/rbac.go\<close>)\<close>

text \<open>
  The in-memory role store. The five Go maps of \<open>RBAC\<close> are finite maps; the two-level
  \<open>map[..]map[..]bool\<close> are maps into finite sets, because the code only ever stores \<open>true\<close> and
  deletes. The specification is the core RBAC model: a user-to-role relation and a
  role-to-permission relation, and the access decision is their composition. The invariant is the
  referential integrity between the five maps.

  \<open>CreateRole\<close> hands out the stored pointer; the model is that of callers that do not write
  through it. A function that takes the read lock twice has the states seen at its two critical
  sections as two arguments.
\<close>

subsection \<open>Data\<close>

datatype rbac_error =
    ErrRoleNotFound | ErrRoleExists | ErrPermissionNotFound | ErrPermissionExists | ErrUserNotFound
  | ErrEmptyRoleName | ErrEmptyRoleID | ErrEmptyResource | ErrEmptyAction | ErrEmptyUserID
  | ErrRoleInUse | ErrPermissionInUse

fun Error :: "rbac_error \<Rightarrow> string" where
  "Error ErrRoleNotFound = ''role not found''"
| "Error ErrRoleExists = ''role already exists''"
| "Error ErrPermissionNotFound = ''permission not found''"
| "Error ErrPermissionExists = ''permission already exists''"
| "Error ErrUserNotFound = ''user not found''"
| "Error ErrEmptyRoleName = ''role name cannot be empty''"
| "Error ErrEmptyRoleID = ''role id cannot be empty''"
| "Error ErrEmptyResource = ''resource cannot be empty''"
| "Error ErrEmptyAction = ''action cannot be empty''"
| "Error ErrEmptyUserID = ''user id cannot be empty''"
| "Error ErrRoleInUse = ''role is in use and cannot be deleted''"
| "Error ErrPermissionInUse = ''permission is in use and cannot be unregistered''"

record Role =
  ID :: string
  Name :: string
  Description :: string

datatype Permission = Permission (Resource: string) (Action: string)

text \<open>The order by which the listing methods sort permissions.\<close>

instantiation Permission :: linorder
begin

definition less_Permission :: "Permission \<Rightarrow> Permission \<Rightarrow> bool" where
  "p < q \<longleftrightarrow>
     (if Resource p \<noteq> Resource q then Resource p < Resource q else Action p < Action q)"

definition less_eq_Permission :: "Permission \<Rightarrow> Permission \<Rightarrow> bool" where
  "p \<le> q \<longleftrightarrow> p = q \<or> p < (q :: Permission)"

instance
  by standard
    (auto simp: less_Permission_def less_eq_Permission_def Permission.expand split: if_splits)

end

definition String :: "Permission \<Rightarrow> string" where
  "String p = Resource p @ '':'' @ Action p"

definition ParsePermission :: "string \<Rightarrow> (string, Permission) result" where
  "ParsePermission s =
     (case SplitN2 CHR '':'' s of
        [r, a] \<Rightarrow> Inr (Permission r a)
      | _ \<Rightarrow> Inl (''invalid permission format: '' @ s))"

record RoleWithPermissions =
  rwpRole :: Role
  rwpPermissions :: "Permission list"

record UserWithRoles =
  uwrUserID :: string
  uwrRoles :: "Role list"
  uwrPermissions :: "Permission list"

record Decision =
  Allowed :: bool
  Reason :: string

record RBAC =
  roles :: "(string, Role) fmap"
  roleByName :: "(string, string) fmap"
  permissions :: "Permission fset"
  rolePermissions :: "(string, Permission fset) fmap"
  userRoles :: "(string, string fset) fmap"

definition NewRBAC :: RBAC where
  "NewRBAC = \<lparr>roles = fmempty, roleByName = fmempty, permissions = {||},
              rolePermissions = fmempty, userRoles = fmempty\<rparr>"

subsection \<open>Operations\<close>

definition CreateRole ::
    "string \<Rightarrow> string \<Rightarrow> string \<Rightarrow> RBAC \<Rightarrow> (rbac_error, Role) result \<times> RBAC" where
  "CreateRole roleID name description r =
     (if roleID = '''' then (Inl ErrEmptyRoleID, r)
      else if name = '''' then (Inl ErrEmptyRoleName, r)
      else if fmlookup (roles r) roleID \<noteq> None then (Inl ErrRoleExists, r)
      else if fmlookup (roleByName r) name \<noteq> None then (Inl ErrRoleExists, r)
      else let role = \<lparr>ID = roleID, Name = name, Description = description\<rparr>
           in (Inr role,
               r\<lparr>roles := fmupd roleID role (roles r),
                 roleByName := fmupd name roleID (roleByName r),
                 rolePermissions := fmupd roleID {||} (rolePermissions r)\<rparr>))"

definition DeleteRole :: "string \<Rightarrow> RBAC \<Rightarrow> (rbac_error, unit) result \<times> RBAC" where
  "DeleteRole roleID r =
     (if roleID = '''' then (Inl ErrEmptyRoleID, r)
      else case fmlookup (roles r) roleID of
             None \<Rightarrow> (Inl ErrRoleNotFound, r)
           | Some role \<Rightarrow>
               if fBex (fmran (userRoles r)) (\<lambda>s. roleID |\<in>| s) then (Inl ErrRoleInUse, r)
               else (Inr (),
                     r\<lparr>roles := fmdrop roleID (roles r),
                       roleByName := fmdrop (Name role) (roleByName r),
                       rolePermissions := fmdrop roleID (rolePermissions r)\<rparr>))"

definition GetRole :: "string \<Rightarrow> RBAC \<Rightarrow> (rbac_error, Role) result" where
  "GetRole roleID r =
     (if roleID = '''' then Inl ErrEmptyRoleID
      else case fmlookup (roles r) roleID of None \<Rightarrow> Inl ErrRoleNotFound | Some role \<Rightarrow> Inr role)"

text \<open>
  \<open>GetRoleByName\<close> dereferences \<open>r.roles[roleID]\<close> without a check; \<^const>\<open>None\<close> is the panic of a
  nil pointer.
\<close>

definition GetRoleByName :: "string \<Rightarrow> RBAC \<Rightarrow> (rbac_error, Role) result option" where
  "GetRoleByName name r =
     (if name = '''' then Some (Inl ErrEmptyRoleName)
      else case fmlookup (roleByName r) name of
             None \<Rightarrow> Some (Inl ErrRoleNotFound)
           | Some roleID \<Rightarrow> map_option Inr (fmlookup (roles r) roleID))"

text \<open>
  The values of a Go map in some iteration order, then sorted by id. The order in which the
  values are collected is the ascending one; Go leaves it open.
\<close>

definition ListRoles :: "RBAC \<Rightarrow> Role list" where
  "ListRoles r =
     sort_key ID (List.map_filter (fmlookup (roles r)) (sorted_list_of_fset (fmdom (roles r))))"

definition RegisterPermission ::
    "string \<Rightarrow> string \<Rightarrow> RBAC \<Rightarrow> (rbac_error, Permission) result \<times> RBAC" where
  "RegisterPermission resource action r =
     (if resource = '''' then (Inl ErrEmptyResource, r)
      else if action = '''' then (Inl ErrEmptyAction, r)
      else let perm = Permission resource action
           in if perm |\<in>| permissions r then (Inl ErrPermissionExists, r)
              else (Inr perm, r\<lparr>permissions := finsert perm (permissions r)\<rparr>))"

definition UnregisterPermission ::
    "string \<Rightarrow> string \<Rightarrow> RBAC \<Rightarrow> (rbac_error, unit) result \<times> RBAC" where
  "UnregisterPermission resource action r =
     (if resource = '''' then (Inl ErrEmptyResource, r)
      else if action = '''' then (Inl ErrEmptyAction, r)
      else let perm = Permission resource action
           in if perm |\<notin>| permissions r then (Inl ErrPermissionNotFound, r)
              else if fBex (fmran (rolePermissions r)) (\<lambda>s. perm |\<in>| s)
              then (Inl ErrPermissionInUse, r)
              else (Inr (), r\<lparr>permissions := permissions r |-| {|perm|}\<rparr>))"

definition HasPermission :: "string \<Rightarrow> string \<Rightarrow> RBAC \<Rightarrow> bool" where
  "HasPermission resource action r \<longleftrightarrow> Permission resource action |\<in>| permissions r"

definition ListPermissions :: "RBAC \<Rightarrow> Permission list" where
  "ListPermissions r = sorted_list_of_fset (permissions r)"

definition GrantPermission ::
    "string \<Rightarrow> string \<Rightarrow> string \<Rightarrow> RBAC \<Rightarrow> (rbac_error, unit) result \<times> RBAC" where
  "GrantPermission roleID resource action r =
     (if roleID = '''' then (Inl ErrEmptyRoleID, r)
      else if resource = '''' then (Inl ErrEmptyResource, r)
      else if action = '''' then (Inl ErrEmptyAction, r)
      else let perm = Permission resource action
           in if fmlookup (roles r) roleID = None then (Inl ErrRoleNotFound, r)
              else if perm |\<notin>| permissions r then (Inl ErrPermissionNotFound, r)
              else let perms = (case fmlookup (rolePermissions r) roleID of
                                  None \<Rightarrow> {||} | Some s \<Rightarrow> s)
                   in (Inr (), r\<lparr>rolePermissions :=
                                   fmupd roleID (finsert perm perms) (rolePermissions r)\<rparr>))"

definition RevokePermission ::
    "string \<Rightarrow> string \<Rightarrow> string \<Rightarrow> RBAC \<Rightarrow> (rbac_error, unit) result \<times> RBAC" where
  "RevokePermission roleID resource action r =
     (if roleID = '''' then (Inl ErrEmptyRoleID, r)
      else if resource = '''' then (Inl ErrEmptyResource, r)
      else if action = '''' then (Inl ErrEmptyAction, r)
      else let perm = Permission resource action
           in if fmlookup (roles r) roleID = None then (Inl ErrRoleNotFound, r)
              else case fmlookup (rolePermissions r) roleID of
                     None \<Rightarrow> (Inl ErrPermissionNotFound, r)
                   | Some perms \<Rightarrow>
                       if perm |\<notin>| perms then (Inl ErrPermissionNotFound, r)
                       else (Inr (), r\<lparr>rolePermissions :=
                               fmupd roleID (perms |-| {|perm|}) (rolePermissions r)\<rparr>))"

definition GetRolePermissions :: "string \<Rightarrow> RBAC \<Rightarrow> (rbac_error, Permission list) result" where
  "GetRolePermissions roleID r =
     (if roleID = '''' then Inl ErrEmptyRoleID
      else if fmlookup (roles r) roleID = None then Inl ErrRoleNotFound
      else case fmlookup (rolePermissions r) roleID of
             None \<Rightarrow> Inr []
           | Some permsMap \<Rightarrow> Inr (sorted_list_of_fset permsMap))"

definition GetRoleWithPermissions ::
    "string \<Rightarrow> RBAC \<Rightarrow> RBAC \<Rightarrow> (rbac_error, RoleWithPermissions) result" where
  "GetRoleWithPermissions roleID r1 r2 =
     (case GetRole roleID r1 of
        Inl e \<Rightarrow> Inl e
      | Inr role \<Rightarrow>
          case GetRolePermissions roleID r2 of
            Inl e \<Rightarrow> Inl e
          | Inr perms \<Rightarrow> Inr \<lparr>rwpRole = role, rwpPermissions = perms\<rparr>)"

definition AssignRole :: "string \<Rightarrow> string \<Rightarrow> RBAC \<Rightarrow> (rbac_error, unit) result \<times> RBAC" where
  "AssignRole userID roleID r =
     (if userID = '''' then (Inl ErrEmptyUserID, r)
      else if roleID = '''' then (Inl ErrEmptyRoleID, r)
      else if fmlookup (roles r) roleID = None then (Inl ErrRoleNotFound, r)
      else let rs = (case fmlookup (userRoles r) userID of None \<Rightarrow> {||} | Some s \<Rightarrow> s)
           in (Inr (), r\<lparr>userRoles := fmupd userID (finsert roleID rs) (userRoles r)\<rparr>))"

definition RevokeRole :: "string \<Rightarrow> string \<Rightarrow> RBAC \<Rightarrow> (rbac_error, unit) result \<times> RBAC" where
  "RevokeRole userID roleID r =
     (if userID = '''' then (Inl ErrEmptyUserID, r)
      else if roleID = '''' then (Inl ErrEmptyRoleID, r)
      else case fmlookup (userRoles r) userID of
             None \<Rightarrow> (Inl ErrRoleNotFound, r)
           | Some rs \<Rightarrow>
               if roleID |\<notin>| rs then (Inl ErrRoleNotFound, r)
               else let rs1 = rs |-| {|roleID|}
                    in (Inr (), r\<lparr>userRoles :=
                          (if rs1 = {||} then fmdrop userID (userRoles r)
                           else fmupd userID rs1 (userRoles r))\<rparr>))"

definition GetUserRoles :: "string \<Rightarrow> RBAC \<Rightarrow> (rbac_error, Role list) result" where
  "GetUserRoles userID r =
     (if userID = '''' then Inl ErrEmptyUserID
      else case fmlookup (userRoles r) userID of
             None \<Rightarrow> Inl ErrUserNotFound
           | Some roleIDs \<Rightarrow>
               Inr (sort_key ID
                      (List.map_filter (fmlookup (roles r)) (sorted_list_of_fset roleIDs))))"

definition GetUserPermissions :: "string \<Rightarrow> RBAC \<Rightarrow> (rbac_error, Permission list) result" where
  "GetUserPermissions userID r =
     (if userID = '''' then Inl ErrEmptyUserID
      else case fmlookup (userRoles r) userID of
             None \<Rightarrow> Inl ErrUserNotFound
           | Some roleIDs \<Rightarrow>
               Inr (sorted_list_of_fset
                      (ffUnion ((\<lambda>roleID. case fmlookup (rolePermissions r) roleID of
                                            None \<Rightarrow> {||} | Some perms \<Rightarrow> perms) |`| roleIDs))))"

definition GetUserWithRoles ::
    "string \<Rightarrow> RBAC \<Rightarrow> RBAC \<Rightarrow> (rbac_error, UserWithRoles) result" where
  "GetUserWithRoles userID r1 r2 =
     (if userID = '''' then Inl ErrEmptyUserID
      else case GetUserRoles userID r1 of
             Inl e \<Rightarrow> Inl e
           | Inr rs \<Rightarrow>
               case GetUserPermissions userID r2 of
                 Inl e \<Rightarrow> Inl e
               | Inr perms \<Rightarrow>
                   Inr \<lparr>uwrUserID = userID, uwrRoles = rs, uwrPermissions = perms\<rparr>)"

definition deny :: "string \<Rightarrow> Decision" where
  "deny why = \<lparr>Allowed = False, Reason = why\<rparr>"

definition CheckPermission :: "string \<Rightarrow> string \<Rightarrow> string \<Rightarrow> RBAC \<Rightarrow> Decision" where
  "CheckPermission userID resource action r =
     (if userID = '''' then deny (Error ErrEmptyUserID)
      else if resource = '''' then deny (Error ErrEmptyResource)
      else if action = '''' then deny (Error ErrEmptyAction)
      else let requested = Permission resource action
           in if requested |\<notin>| permissions r
              then deny (''permission '' @ String requested @ '' is not registered'')
              else case fmlookup (userRoles r) userID of
                     None \<Rightarrow> deny (Error ErrUserNotFound)
                   | Some roleIDs \<Rightarrow>
                       if roleIDs = {||} then deny (''user '' @ userID @ '' has no roles assigned'')
                       else if fBex roleIDs (\<lambda>roleID. case fmlookup (rolePermissions r) roleID of
                                  None \<Rightarrow> False | Some perms \<Rightarrow> requested |\<in>| perms)
                       then \<lparr>Allowed = True, Reason = ''''\<rparr>
                       else deny (''user '' @ userID @ '' does not have permission '' @ String requested))"

definition RoleCount :: "RBAC \<Rightarrow> nat" where
  "RoleCount r = fcard (fmdom (roles r))"

definition PermissionCount :: "RBAC \<Rightarrow> nat" where
  "PermissionCount r = fcard (permissions r)"

definition UserCount :: "RBAC \<Rightarrow> nat" where
  "UserCount r = fcard (fmdom (userRoles r))"

subsection \<open>Specification: core RBAC\<close>

datatype rbac_op =
    OpCreateRole string string string
  | OpDeleteRole string
  | OpRegisterPermission string string
  | OpUnregisterPermission string string
  | OpGrantPermission string string string
  | OpRevokePermission string string string
  | OpAssignRole string string
  | OpRevokeRole string string

fun rbac_step :: "rbac_op \<Rightarrow> RBAC \<Rightarrow> (rbac_error, unit) result \<times> RBAC" where
  "rbac_step (OpCreateRole i n d) r = apfst (map_sum id (\<lambda>_. ())) (CreateRole i n d r)"
| "rbac_step (OpDeleteRole i) r = DeleteRole i r"
| "rbac_step (OpRegisterPermission p a) r = apfst (map_sum id (\<lambda>_. ())) (RegisterPermission p a r)"
| "rbac_step (OpUnregisterPermission p a) r = UnregisterPermission p a r"
| "rbac_step (OpGrantPermission i p a) r = GrantPermission i p a r"
| "rbac_step (OpRevokePermission i p a) r = RevokePermission i p a r"
| "rbac_step (OpAssignRole u i) r = AssignRole u i r"
| "rbac_step (OpRevokeRole u i) r = RevokeRole u i r"

text \<open>
  The specification state: the roles with their (unique) names, the registered permissions, the
  role-to-permission relation \<open>pa\<close> and the user-to-role relation \<open>ua\<close>.
\<close>

record core =
  croles :: "string \<rightharpoonup> Role"
  cperms :: "Permission set"
  pa :: "(string \<times> Permission) set"
  ua :: "(string \<times> string) set"

definition core_init :: core where
  "core_init = \<lparr>croles = Map.empty, cperms = {}, pa = {}, ua = {}\<rparr>"

text \<open>An operation is refused with the first error whose condition holds, and else takes effect.\<close>

fun refuse :: "(bool \<times> rbac_error) list \<Rightarrow> core \<Rightarrow> core \<Rightarrow> (rbac_error, unit) result \<times> core" where
  "refuse [] c c1 = (Inr (), c1)"
| "refuse ((b, e) # gs) c c1 = (if b then (Inl e, c) else refuse gs c c1)"

fun core_step :: "rbac_op \<Rightarrow> core \<Rightarrow> (rbac_error, unit) result \<times> core" where
  "core_step (OpCreateRole i n d) c =
     refuse [(i = [], ErrEmptyRoleID), (n = [], ErrEmptyRoleName),
             (i \<in> dom (croles c) \<or> n \<in> Name ` ran (croles c), ErrRoleExists)]
       c (c\<lparr>croles := (croles c)(i \<mapsto> \<lparr>ID = i, Name = n, Description = d\<rparr>)\<rparr>)"
| "core_step (OpDeleteRole i) c =
     refuse [(i = [], ErrEmptyRoleID), (i \<notin> dom (croles c), ErrRoleNotFound),
             (i \<in> Range (ua c), ErrRoleInUse)]
       c (c\<lparr>croles := (croles c)(i := None), pa := pa c - {i} \<times> UNIV\<rparr>)"
| "core_step (OpRegisterPermission p a) c =
     refuse [(p = [], ErrEmptyResource), (a = [], ErrEmptyAction),
             (Permission p a \<in> cperms c, ErrPermissionExists)]
       c (c\<lparr>cperms := insert (Permission p a) (cperms c)\<rparr>)"
| "core_step (OpUnregisterPermission p a) c =
     refuse [(p = [], ErrEmptyResource), (a = [], ErrEmptyAction),
             (Permission p a \<notin> cperms c, ErrPermissionNotFound),
             (Permission p a \<in> Range (pa c), ErrPermissionInUse)]
       c (c\<lparr>cperms := cperms c - {Permission p a}\<rparr>)"
| "core_step (OpGrantPermission i p a) c =
     refuse [(i = [], ErrEmptyRoleID), (p = [], ErrEmptyResource), (a = [], ErrEmptyAction),
             (i \<notin> dom (croles c), ErrRoleNotFound), (Permission p a \<notin> cperms c, ErrPermissionNotFound)]
       c (c\<lparr>pa := insert (i, Permission p a) (pa c)\<rparr>)"
| "core_step (OpRevokePermission i p a) c =
     refuse [(i = [], ErrEmptyRoleID), (p = [], ErrEmptyResource), (a = [], ErrEmptyAction),
             (i \<notin> dom (croles c), ErrRoleNotFound), ((i, Permission p a) \<notin> pa c, ErrPermissionNotFound)]
       c (c\<lparr>pa := pa c - {(i, Permission p a)}\<rparr>)"
| "core_step (OpAssignRole u i) c =
     refuse [(u = [], ErrEmptyUserID), (i = [], ErrEmptyRoleID), (i \<notin> dom (croles c), ErrRoleNotFound)]
       c (c\<lparr>ua := insert (u, i) (ua c)\<rparr>)"
| "core_step (OpRevokeRole u i) c =
     refuse [(u = [], ErrEmptyUserID), (i = [], ErrEmptyRoleID), ((u, i) \<notin> ua c, ErrRoleNotFound)]
       c (c\<lparr>ua := ua c - {(u, i)}\<rparr>)"

subsection \<open>Referential integrity\<close>

definition pairs :: "('a, 'b fset) fmap \<Rightarrow> ('a \<times> 'b) set" where
  "pairs m = {(x, y). \<exists>s. fmlookup m x = Some s \<and> y |\<in>| s}"

lemma pairs_empty [simp]: "pairs fmempty = {}"
  by (simp add: pairs_def)

lemma pairs_upd [simp]: "pairs (fmupd x s m) = (pairs m - {x} \<times> UNIV) \<union> {x} \<times> fset s"
  by (auto simp: pairs_def split: if_splits)

lemma pairs_drop [simp]: "pairs (fmdrop x m) = pairs m - {x} \<times> UNIV"
  by (auto simp: pairs_def split: if_splits)

lemma pairs_iff: "(x, y) \<in> pairs m \<longleftrightarrow> (case fmlookup m x of None \<Rightarrow> False | Some s \<Rightarrow> y |\<in>| s)"
  by (auto simp: pairs_def split: option.split)

lemma pairs_Range: "y \<in> Range (pairs m) \<longleftrightarrow> fBex (fmran m) (\<lambda>s. y |\<in>| s)"
  unfolding pairs_def by (blast intro: fmranI)

lemma fmdom'_lookup: "x \<in> fmdom' m \<longleftrightarrow> fmlookup m x \<noteq> None"
  by (auto simp: fmlookup_dom'_iff)

definition core_of :: "RBAC \<Rightarrow> core" where
  "core_of r = \<lparr>croles = fmlookup (roles r), cperms = fset (permissions r),
                pa = pairs (rolePermissions r), ua = pairs (userRoles r)\<rparr>"

definition names_ok :: "(string, Role) fmap \<Rightarrow> (string, string) fmap \<Rightarrow> bool" where
  "names_ok rs ns \<longleftrightarrow>
     (\<forall>i role. fmlookup rs i = Some role \<longrightarrow>
        ID role = i \<and> i \<noteq> [] \<and> Name role \<noteq> [] \<and> fmlookup ns (Name role) = Some i) \<and>
     (\<forall>n i. fmlookup ns n = Some i \<longrightarrow> (\<exists>role. fmlookup rs i = Some role \<and> Name role = n))"

definition grants_ok :: "(string, Role) fmap \<Rightarrow> (string, Permission fset) fmap \<Rightarrow> Permission fset \<Rightarrow> bool" where
  "grants_ok rs rp P \<longleftrightarrow>
     fmdom rp = fmdom rs \<and> (\<forall>i s. fmlookup rp i = Some s \<longrightarrow> s |\<subseteq>| P)"

definition users_ok :: "(string, Role) fmap \<Rightarrow> (string, string fset) fmap \<Rightarrow> bool" where
  "users_ok rs us \<longleftrightarrow>
     (\<forall>u s. fmlookup us u = Some s \<longrightarrow> u \<noteq> [] \<and> s \<noteq> {||} \<and> s |\<subseteq>| fmdom rs)"

definition rbac_inv :: "RBAC \<Rightarrow> bool" where
  "rbac_inv r \<longleftrightarrow>
     names_ok (roles r) (roleByName r) \<and>
     grants_ok (roles r) (rolePermissions r) (permissions r) \<and>
     (\<forall>p. p |\<in>| permissions r \<longrightarrow> Resource p \<noteq> [] \<and> Action p \<noteq> []) \<and>
     users_ok (roles r) (userRoles r)"

lemma names_ok_names:
  "names_ok rs ns \<Longrightarrow> n \<in> Name ` ran (fmlookup rs) \<longleftrightarrow> fmlookup ns n \<noteq> None"
  unfolding names_ok_def ran_def by force

lemma names_ok_create [invar_intros]:
  "names_ok rs ns \<Longrightarrow> fmlookup rs i = None \<Longrightarrow> fmlookup ns n = None \<Longrightarrow> i \<noteq> [] \<Longrightarrow> n \<noteq> [] \<Longrightarrow>
   names_ok (fmupd i \<lparr>ID = i, Name = n, Description = d\<rparr> rs) (fmupd n i ns)"
  unfolding names_ok_def by (auto split: if_splits) (metis option.distinct(1) option.inject)+

lemma names_ok_delete [invar_intros]:
  "names_ok rs ns \<Longrightarrow> fmlookup rs i = Some role \<Longrightarrow> names_ok (fmdrop i rs) (fmdrop (Name role) ns)"
  unfolding names_ok_def by (auto split: if_splits) (metis option.distinct(1) option.inject)+

lemma grants_ok_create [invar_intros]:
  "grants_ok rs rp P \<Longrightarrow> grants_ok (fmupd i role rs) (fmupd i {||} rp) P"
  by (simp add: grants_ok_def)

lemma grants_ok_delete [invar_intros]: "grants_ok rs rp P \<Longrightarrow> grants_ok (fmdrop i rs) (fmdrop i rp) P"
  by (simp add: grants_ok_def)

lemma grants_ok_more [invar_intros]: "grants_ok rs rp P \<Longrightarrow> grants_ok rs rp (finsert p P)"
  by (auto simp: grants_ok_def)

lemma grants_ok_less [invar_intros]:
  "grants_ok rs rp P \<Longrightarrow> \<not> fBex (fmran rp) (\<lambda>s. p |\<in>| s) \<Longrightarrow> grants_ok rs rp (P |-| {|p|})"
  unfolding grants_ok_def by (blast intro: fmranI)

lemma grants_ok_upd [invar_intros]:
  "grants_ok rs rp P \<Longrightarrow> fmlookup rs i = Some role \<Longrightarrow> s |\<subseteq>| P \<Longrightarrow> grants_ok rs (fmupd i s rp) P"
  by (auto simp: grants_ok_def intro: fmdomI)

lemma users_ok_create [invar_intros]: "users_ok rs us \<Longrightarrow> users_ok (fmupd i role rs) us"
  by (auto simp: users_ok_def)

lemma users_ok_delete [invar_intros]:
  "users_ok rs us \<Longrightarrow> \<not> fBex (fmran us) (\<lambda>s. i |\<in>| s) \<Longrightarrow> users_ok (fmdrop i rs) us"
  unfolding users_ok_def fmdom_drop by (blast intro: fmranI)

lemma users_ok_upd [invar_intros]:
  "users_ok rs us \<Longrightarrow> u \<noteq> [] \<Longrightarrow> s \<noteq> {||} \<Longrightarrow> s |\<subseteq>| fmdom rs \<Longrightarrow> users_ok rs (fmupd u s us)"
  by (simp add: users_ok_def)

lemma users_ok_drop [invar_intros]: "users_ok rs us \<Longrightarrow> users_ok rs (fmdrop u us)"
  by (simp add: users_ok_def)

lemma users_okD: "users_ok rs us \<Longrightarrow> fmlookup us u = Some s \<Longrightarrow> s |\<subseteq>| fmdom rs"
  by (simp add: users_ok_def)

lemma grants_okD: "grants_ok rs rp P \<Longrightarrow> fmlookup rp i = Some s \<Longrightarrow> s |\<subseteq>| P"
  by (simp add: grants_ok_def)

lemma grants_ok_None: "grants_ok rs rp P \<Longrightarrow> fmlookup rs i = None \<Longrightarrow> fmlookup rp i = None"
  by (metis grants_ok_def fmdom_notI fmdom_notD)

lemma rbac_step_inv [invar_intros]:
  assumes "rbac_inv r"
  shows "rbac_inv (snd (rbac_step x r))"
proof (cases x)
  case (OpCreateRole i n d)
  then show ?thesis using assms
    by (simp add: CreateRole_def rbac_inv_def Let_def invar_intros)
next
  case (OpDeleteRole i)
  then show ?thesis using assms
    by (simp add: DeleteRole_def rbac_inv_def invar_intros split: option.split)
next
  case (OpRegisterPermission p a)
  then show ?thesis using assms
    by (simp add: RegisterPermission_def rbac_inv_def Let_def invar_intros)
next
  case (OpUnregisterPermission p a)
  then show ?thesis using assms
    by (simp add: UnregisterPermission_def rbac_inv_def Let_def invar_intros)
next
  case (OpGrantPermission i p a)
  then show ?thesis using assms
    by (auto simp: GrantPermission_def rbac_inv_def Let_def intro: invar_intros dest: grants_okD
        split: option.split)
next
  case (OpRevokePermission i p a)
  then show ?thesis using assms
    by (auto simp: RevokePermission_def rbac_inv_def Let_def intro!: grants_ok_upd dest: grants_okD
        split: option.split)
next
  case (OpAssignRole u i)
  then show ?thesis using assms
    by (auto simp: AssignRole_def rbac_inv_def Let_def intro!: users_ok_upd intro: fmdomI dest: users_okD
        split: option.split)
next
  case (OpRevokeRole u i)
  then show ?thesis using assms
    by (auto simp: RevokeRole_def rbac_inv_def Let_def users_ok_drop intro!: users_ok_upd dest: users_okD
        split: option.split)
qed

lemma rbac_step_core [refine_simps]:
  assumes "rbac_inv r"
  shows "core_step x (core_of r) = (fst (rbac_step x r), core_of (snd (rbac_step x r)))"
proof (cases x)
  case (OpCreateRole i n d)
  then show ?thesis using assms names_ok_names [of "roles r" "roleByName r" n]
    by (auto simp: CreateRole_def rbac_inv_def core_of_def Let_def pairs_iff grants_ok_None fmdom'_lookup)
next
  case (OpDeleteRole i)
  then show ?thesis using assms
    by (auto simp: DeleteRole_def core_of_def fmdom'_lookup pairs_Range [symmetric] split: option.split)
next
  case (OpRegisterPermission p a)
  then show ?thesis by (auto simp: RegisterPermission_def core_of_def Let_def)
next
  case (OpUnregisterPermission p a)
  then show ?thesis by (auto simp: UnregisterPermission_def core_of_def Let_def pairs_Range [symmetric])
next
  case (OpGrantPermission i p a)
  then show ?thesis
    by (auto simp: GrantPermission_def core_of_def Let_def pairs_iff fmdom'_lookup
        split: option.split)
next
  case (OpRevokePermission i p a)
  then show ?thesis
    by (auto simp: RevokePermission_def core_of_def Let_def pairs_iff fmdom'_lookup
        split: option.split)
next
  case (OpAssignRole u i)
  then show ?thesis
    by (auto simp: AssignRole_def core_of_def Let_def pairs_iff fmdom'_lookup
        split: option.split)
next
  case (OpRevokeRole u i)
  then show ?thesis
    by (auto simp: RevokeRole_def core_of_def Let_def pairs_iff fmdom'_lookup
        split: option.split)
qed

interpretation rbac_core: refinement rbac_step rbac_inv core_step core_of
  by unfold_locales (fact rbac_step_inv rbac_step_core)+

lemma NewRBAC_inv: "rbac_inv NewRBAC"
  by (simp add: rbac_inv_def NewRBAC_def names_ok_def grants_ok_def users_ok_def)

lemma core_of_NewRBAC: "core_of NewRBAC = core_init"
  by (simp add: core_of_def NewRBAC_def core_init_def fun_eq_iff)

lemma reachable_core:
  "snd (run core_step ops core_init) = core_of (snd (run rbac_step ops NewRBAC))"
  using rbac_core.run_refines [OF NewRBAC_inv, of ops] by (simp add: core_of_NewRBAC)

lemmas reachable_rbac_inv = rbac_core.run_inv [OF NewRBAC_inv]

lemma mem_role_union:
  "p |\<in>| ffUnion ((\<lambda>i. case fmlookup m i of None \<Rightarrow> {||} | Some s \<Rightarrow> s) |`| A) \<longleftrightarrow>
     (\<exists>i s. i |\<in>| A \<and> fmlookup m i = Some s \<and> p |\<in>| s)"
  by (auto simp: ffUnion.rep_eq split: option.splits)

lemma user_permissions_core:
  "rbac_inv r \<Longrightarrow>
   (u, p) \<in> ua (core_of r) O pa (core_of r) \<longleftrightarrow>
     (\<exists>ps. GetUserPermissions u r = Inr ps \<and> p \<in> set ps)"
  unfolding GetUserPermissions_def core_of_def rbac_inv_def users_ok_def
  by (auto simp: relcomp_unfold pairs_def mem_role_union split: option.splits)

lemma check_permission_core:
  assumes "rbac_inv r"
  shows "Allowed (CheckPermission u res act r) \<longleftrightarrow>
    (u, Permission res act) \<in> ua (core_of r) O pa (core_of r)"
proof -
  have "u \<noteq> [] \<and> res \<noteq> [] \<and> act \<noteq> [] \<and> Permission res act |\<in>| permissions r \<and> rs \<noteq> {||}"
    if "fmlookup (userRoles r) u = Some rs" "fmlookup (rolePermissions r) i = Some ps"
      "Permission res act |\<in>| ps" for rs i ps
    using assms that grants_okD [of "roles r" "rolePermissions r" "permissions r" i ps]
    by (fastforce simp: rbac_inv_def users_ok_def)
  then show ?thesis
    by (auto simp: CheckPermission_def deny_def Let_def core_of_def relcomp_unfold pairs_def
        split: option.splits)
qed

subsection \<open>Properties\<close>

text \<open>
  C11. From an empty store, every sequence of administrative calls is answered, error for error,
  as by the core RBAC model: a role id and a role name are unique, a role that some user holds and a
  permission that some role holds cannot be deleted, and every other call adds or removes exactly
  one pair of the user-role or role-permission relation.
\<close>

theorem rbac_refines_core:
  "fst (run rbac_step ops NewRBAC) = fst (run core_step ops core_init)"
  using rbac_core.run_refines [OF NewRBAC_inv, of ops] by (simp add: core_of_NewRBAC)

text \<open>
  C12. After any sequence of administrative calls, \<open>CheckPermission\<close> allows a user an action
  exactly when the user holds a role that was granted the permission, that is, when the pair
  is in the composition of the two relations of the specification; \<open>GetUserPermissions\<close> lists exactly
  the permissions \<open>CheckPermission\<close> allows.
\<close>

theorem check_permission_is_composition:
  "(Allowed (CheckPermission u res act (snd (run rbac_step ops NewRBAC))) \<longleftrightarrow>
      (u, Permission res act) \<in> ua (snd (run core_step ops core_init)) O pa (snd (run core_step ops core_init))) \<and>
   (Allowed (CheckPermission u res act (snd (run rbac_step ops NewRBAC))) \<longleftrightarrow>
      (\<exists>ps. GetUserPermissions u (snd (run rbac_step ops NewRBAC)) = Inr ps \<and> Permission res act \<in> set ps))"
  using check_permission_core user_permissions_core reachable_rbac_inv reachable_core by simp

text \<open>
  C13. The lookup by name never dereferences a nil pointer, although it does not check the second
  map access, and it finds a role exactly when a role of that name exists.
\<close>

theorem get_role_by_name_total:
  "GetRoleByName n (snd (run rbac_step ops NewRBAC)) \<noteq> None \<and>
   (GetRoleByName n (snd (run rbac_step ops NewRBAC)) = Some (Inr role) \<longleftrightarrow>
      role \<in> ran (croles (snd (run core_step ops core_init))) \<and> Name role = n)"
proof -
  have "names_ok (roles (snd (run rbac_step ops NewRBAC))) (roleByName (snd (run rbac_step ops NewRBAC)))"
    using reachable_rbac_inv [of ops] by (simp add: rbac_inv_def)
  then show ?thesis
    unfolding reachable_core GetRoleByName_def names_ok_def core_of_def ran_def
    by (auto split: option.split) (metis option.distinct(1) option.inject)+
qed

text \<open>
  C14. Parsing is the left inverse of printing on exactly the permissions whose resource has no
  colon, every text that parses prints back to itself, and a text is refused exactly when it has
  no colon.
\<close>

theorem permission_text_roundtrip:
  "(ParsePermission (String p) = Inr p \<longleftrightarrow> CHR '':'' \<notin> set (Resource p)) \<and>
   (case ParsePermission s of Inl _ \<Rightarrow> CHR '':'' \<notin> set s | Inr q \<Rightarrow> String q = s)"
proof
  have "takeWhile (\<lambda>c. c \<noteq> CHR '':'') (r @ '':'' @ a) = r \<longleftrightarrow> CHR '':'' \<notin> set r" for r a :: string
    by (induction r) auto
  moreover have "dropWhile (\<lambda>c. c \<noteq> CHR '':'') (r @ '':'' @ a) \<noteq> []"
    "CHR '':'' \<notin> set r \<Longrightarrow> dropWhile (\<lambda>c. c \<noteq> CHR '':'') (r @ '':'' @ a) = '':'' @ a" for r a :: string
    by (simp_all add: dropWhile_eq_Nil_conv) (induction r; auto)
  ultimately show "ParsePermission (String p) = Inr p \<longleftrightarrow> CHR '':'' \<notin> set (Resource p)"
    by (cases p) (auto simp: ParsePermission_def SplitN2_def String_def split: list.split)
next
  have "dropWhile (\<lambda>c. c \<noteq> CHR '':'') s = c # rest \<Longrightarrow>
      takeWhile (\<lambda>c. c \<noteq> CHR '':'') s @ '':'' @ rest = s" for c rest
    by (induction s) (auto split: if_splits)
  then show "case ParsePermission s of Inl _ \<Rightarrow> CHR '':'' \<notin> set s | Inr q \<Rightarrow> String q = s"
    by (auto simp: ParsePermission_def SplitN2_def String_def dropWhile_eq_Nil_conv split: list.split)
qed

end
