(* ===== verification/Distlock.thy ===== *)
theory Distlock
  imports Prelude
begin

section \<open>The lock manager (\<open>src/internal/distlock/distlock.go\<close>, lines 1 to 417)\<close>

text \<open>
  A \<open>LockManager\<close> keeps leases: a key is held by a token, a number of times, until an instant.
  Instants and durations are integers (nanoseconds). Every method takes the mutex for its
  whole body and reads the clock at most once there, so a method is one function of the instant
  \<open>now\<close>. Expired entries are removed lazily, by whichever method meets them or by the background
  loop, each of whose ticks is one \<open>CleanExpired\<close>. The specification is a table of the leases in force
  and of the keys whose lease has lapsed unnoticed; the lemmas show that the manager answers as the table, and that a
  lease excludes every other token until it is released or its instant has passed.
\<close>

subsection \<open>Data\<close>

datatype lock_error =
    ErrLockNotHeld | ErrLockAlreadyHeld | ErrInvalidToken | ErrLockExpired | ErrEmptyKey
  | ErrEmptyToken | ErrInvalidTTL | ErrMaxReentrancy | ErrNodeFailure lock_error
  | ErrQuorumNotReached | ErrInvalidNodeCount | ErrLockManagerStopped

definition DefaultMaxReentrancy :: int where "DefaultMaxReentrancy = 32"
definition DefaultCleanInterval :: int where "DefaultCleanInterval = 100000000"

record lockEntry =
  key :: string
  token :: string
  expiresAt :: int
  reentrancy :: int

definition isExpired :: "lockEntry \<Rightarrow> int \<Rightarrow> bool" where
  "isExpired e now \<longleftrightarrow> now > expiresAt e"

definition remainingTTL :: "lockEntry \<Rightarrow> int \<Rightarrow> int" where
  "remainingTTL e now = (let d = expiresAt e - now in if d < 0 then 0 else d)"

record LockManagerConfig =
  MaxReentrancy :: int
  CleanInterval :: int

definition DefaultLockManagerConfig :: LockManagerConfig where
  "DefaultLockManagerConfig =
     \<lparr>MaxReentrancy = DefaultMaxReentrancy, CleanInterval = DefaultCleanInterval\<rparr>"

text \<open>\<open>stopClosed\<close> is whether the channel \<open>stopCh\<close> has been closed.\<close>

record LockManager =
  cfg :: LockManagerConfig
  locks :: "(string, lockEntry) fmap"
  running :: bool
  stopped :: bool
  stopClosed :: bool

definition NewLockManagerWithConfig :: "LockManagerConfig \<Rightarrow> (lock_error, LockManager) result" where
  "NewLockManagerWithConfig c =
     (let c1 = (if MaxReentrancy c < 1 then c\<lparr>MaxReentrancy := DefaultMaxReentrancy\<rparr> else c)
      in if CleanInterval c1 < 0 then Inl ErrInvalidTTL
         else let c2 = (if CleanInterval c1 = 0 then c1\<lparr>CleanInterval := DefaultCleanInterval\<rparr> else c1)
              in Inr \<lparr>cfg = c2, locks = fmempty, running = False, stopped = False, stopClosed = False\<rparr>)"

definition NewLockManager :: LockManager where
  "NewLockManager =
     (case NewLockManagerWithConfig DefaultLockManagerConfig of
        Inr lm \<Rightarrow> lm
      | Inl _ \<Rightarrow> \<lparr>cfg = DefaultLockManagerConfig, locks = fmempty,
                  running = False, stopped = False, stopClosed = False\<rparr>)"

subsection \<open>Operations\<close>

definition Start :: "LockManager \<Rightarrow> LockManager" where
  "Start lm =
     (if stopped lm then lm
      else if running lm then lm
      else lm\<lparr>running := True, stopClosed := False\<rparr>)"

definition Stop :: "LockManager \<Rightarrow> LockManager" where
  "Stop lm =
     (if stopped lm then lm
      else let lm1 = lm\<lparr>stopped := True\<rparr>
           in if running lm1 then lm1\<lparr>running := False, stopClosed := True\<rparr> else lm1)"

definition lockInternal ::
    "string \<Rightarrow> string \<Rightarrow> int \<Rightarrow> bool \<Rightarrow> int \<Rightarrow> LockManager \<Rightarrow> lock_error option \<times> LockManager" where
  "lockInternal k tok ttl tryOnly now lm =
     (if k = '''' then (Some ErrEmptyKey, lm)
      else if tok = '''' then (Some ErrEmptyToken, lm)
      else if ttl \<le> 0 then (Some ErrInvalidTTL, lm)
      else if stopped lm then (Some ErrLockManagerStopped, lm)
      else let fresh = (None, lm\<lparr>locks := fmupd k \<lparr>key = k, token = tok, expiresAt = now + ttl,
                                                   reentrancy = 1\<rparr> (locks lm)\<rparr>)
           in case fmlookup (locks lm) k of
                None \<Rightarrow> fresh
              | Some entry \<Rightarrow>
                  if isExpired entry now then fresh
                  else if token entry = tok then
                    (if reentrancy entry \<ge> MaxReentrancy (cfg lm) then (Some ErrMaxReentrancy, lm)
                     else (None, lm\<lparr>locks := fmupd k
                             (entry\<lparr>reentrancy := reentrancy entry + 1, expiresAt := now + ttl\<rparr>)
                             (locks lm)\<rparr>))
                  else if tryOnly then (Some ErrLockAlreadyHeld, lm)
                  else (Some ErrLockAlreadyHeld, lm))"

definition Lock :: "string \<Rightarrow> string \<Rightarrow> int \<Rightarrow> int \<Rightarrow> LockManager \<Rightarrow> lock_error option \<times> LockManager" where
  "Lock k tok ttl now lm = lockInternal k tok ttl False now lm"

definition TryLock ::
    "string \<Rightarrow> string \<Rightarrow> int \<Rightarrow> int \<Rightarrow> LockManager \<Rightarrow> (lock_error, bool) result \<times> LockManager" where
  "TryLock k tok ttl now lm =
     (let (err, lm1) = lockInternal k tok ttl True now lm
      in (case err of
            Some e \<Rightarrow> if e = ErrLockAlreadyHeld then Inr False else Inl e
          | None \<Rightarrow> Inr True, lm1))"

definition Unlock :: "string \<Rightarrow> string \<Rightarrow> int \<Rightarrow> LockManager \<Rightarrow> lock_error option \<times> LockManager" where
  "Unlock k tok now lm =
     (if k = '''' then (Some ErrEmptyKey, lm)
      else if tok = '''' then (Some ErrEmptyToken, lm)
      else if stopped lm then (Some ErrLockManagerStopped, lm)
      else case fmlookup (locks lm) k of
             None \<Rightarrow> (Some ErrLockNotHeld, lm)
           | Some entry \<Rightarrow>
               if isExpired entry now
               then (Some ErrLockExpired, lm\<lparr>locks := fmdrop k (locks lm)\<rparr>)
               else if token entry \<noteq> tok then (Some ErrInvalidToken, lm)
               else let entry1 = entry\<lparr>reentrancy := reentrancy entry - 1\<rparr>
                    in (None, lm\<lparr>locks := (if reentrancy entry1 \<le> 0 then fmdrop k (locks lm)
                                           else fmupd k entry1 (locks lm))\<rparr>))"

definition Heartbeat ::
    "string \<Rightarrow> string \<Rightarrow> int \<Rightarrow> int \<Rightarrow> LockManager \<Rightarrow> lock_error option \<times> LockManager" where
  "Heartbeat k tok ttl now lm =
     (if k = '''' then (Some ErrEmptyKey, lm)
      else if tok = '''' then (Some ErrEmptyToken, lm)
      else if ttl \<le> 0 then (Some ErrInvalidTTL, lm)
      else if stopped lm then (Some ErrLockManagerStopped, lm)
      else case fmlookup (locks lm) k of
             None \<Rightarrow> (Some ErrLockNotHeld, lm)
           | Some entry \<Rightarrow>
               if isExpired entry now
               then (Some ErrLockExpired, lm\<lparr>locks := fmdrop k (locks lm)\<rparr>)
               else if token entry \<noteq> tok then (Some ErrInvalidToken, lm)
               else (None, lm\<lparr>locks := fmupd k (entry\<lparr>expiresAt := now + ttl\<rparr>) (locks lm)\<rparr>))"

definition IsLocked :: "string \<Rightarrow> int \<Rightarrow> LockManager \<Rightarrow> (lock_error, bool) result \<times> LockManager" where
  "IsLocked k now lm =
     (if k = '''' then (Inl ErrEmptyKey, lm)
      else if stopped lm then (Inl ErrLockManagerStopped, lm)
      else case fmlookup (locks lm) k of
             None \<Rightarrow> (Inr False, lm)
           | Some entry \<Rightarrow>
               if isExpired entry now then (Inr False, lm\<lparr>locks := fmdrop k (locks lm)\<rparr>)
               else (Inr True, lm))"

definition GetHolder ::
    "string \<Rightarrow> int \<Rightarrow> LockManager \<Rightarrow> (lock_error, string \<times> int \<times> int) result \<times> LockManager" where
  "GetHolder k now lm =
     (if k = '''' then (Inl ErrEmptyKey, lm)
      else if stopped lm then (Inl ErrLockManagerStopped, lm)
      else case fmlookup (locks lm) k of
             None \<Rightarrow> (Inl ErrLockNotHeld, lm)
           | Some entry \<Rightarrow>
               if isExpired entry now then (Inl ErrLockExpired, lm\<lparr>locks := fmdrop k (locks lm)\<rparr>)
               else (Inr (token entry, reentrancy entry, remainingTTL entry now), lm))"

definition ForceUnlock :: "string \<Rightarrow> LockManager \<Rightarrow> lock_error option \<times> LockManager" where
  "ForceUnlock k lm =
     (if k = '''' then (Some ErrEmptyKey, lm)
      else if stopped lm then (Some ErrLockManagerStopped, lm)
      else (None, lm\<lparr>locks := fmdrop k (locks lm)\<rparr>))"

definition Count :: "int \<Rightarrow> LockManager \<Rightarrow> (lock_error, nat) result" where
  "Count now lm =
     (if stopped lm then Inl ErrLockManagerStopped
      else Inr (fcard (ffilter (\<lambda>k. case fmlookup (locks lm) k of
                          None \<Rightarrow> False | Some entry \<Rightarrow> \<not> isExpired entry now) (fmdom (locks lm)))))"

definition Clear :: "LockManager \<Rightarrow> lock_error option \<times> LockManager" where
  "Clear lm =
     (if stopped lm then (Some ErrLockManagerStopped, lm)
      else (None, lm\<lparr>locks := fmempty\<rparr>))"

definition cleanExpiredLocked :: "int \<Rightarrow> LockManager \<Rightarrow> nat \<times> LockManager" where
  "cleanExpiredLocked now lm =
     (let gone = ffilter (\<lambda>k. case fmlookup (locks lm) k of
                          None \<Rightarrow> False | Some entry \<Rightarrow> isExpired entry now) (fmdom (locks lm))
      in (fcard gone, lm\<lparr>locks := fmdrop_fset gone (locks lm)\<rparr>))"

definition CleanExpired :: "int \<Rightarrow> LockManager \<Rightarrow> (lock_error, nat) result \<times> LockManager" where
  "CleanExpired now lm =
     (if stopped lm then (Inl ErrLockManagerStopped, lm)
      else apfst Inr (cleanExpiredLocked now lm))"

text \<open>One tick of the background loop; after the stop channel is closed the loop has returned.\<close>

definition cleanLoop_tick :: "int \<Rightarrow> LockManager \<Rightarrow> LockManager" where
  "cleanLoop_tick now lm =
     (if running lm \<and> \<not> stopClosed lm then snd (CleanExpired now lm) else lm)"

subsection \<open>Specification: a lease table\<close>

datatype lm_op =
    OpLock string string int
  | OpTryLock string string int
  | OpUnlock string string
  | OpHeartbeat string string int
  | OpIsLocked string
  | OpGetHolder string
  | OpForceUnlock string
  | OpCount
  | OpClear
  | OpCleanExpired
  | OpTick
  | OpStart
  | OpStop

datatype lm_out =
    OutErr "lock_error option"
  | OutBool "(lock_error, bool) result"
  | OutHolder "(lock_error, string \<times> int \<times> int) result"
  | OutCount "(lock_error, nat) result"
  | OutCleaned "(lock_error, nat) result"
  | OutUnit

fun lm_step :: "lm_op \<Rightarrow> int \<Rightarrow> LockManager \<Rightarrow> lm_out \<times> LockManager" where
  "lm_step (OpLock k tok ttl) now lm = apfst OutErr (Lock k tok ttl now lm)"
| "lm_step (OpTryLock k tok ttl) now lm = apfst OutBool (TryLock k tok ttl now lm)"
| "lm_step (OpUnlock k tok) now lm = apfst OutErr (Unlock k tok now lm)"
| "lm_step (OpHeartbeat k tok ttl) now lm = apfst OutErr (Heartbeat k tok ttl now lm)"
| "lm_step (OpIsLocked k) now lm = apfst OutBool (IsLocked k now lm)"
| "lm_step (OpGetHolder k) now lm = apfst OutHolder (GetHolder k now lm)"
| "lm_step (OpForceUnlock k) now lm = apfst OutErr (ForceUnlock k lm)"
| "lm_step OpCount now lm = (OutCount (Count now lm), lm)"
| "lm_step OpClear now lm = apfst OutErr (Clear lm)"
| "lm_step OpCleanExpired now lm = apfst OutCleaned (CleanExpired now lm)"
| "lm_step OpTick now lm = (OutUnit, cleanLoop_tick now lm)"
| "lm_step OpStart now lm = (OutUnit, Start lm)"
| "lm_step OpStop now lm = (OutUnit, Stop lm)"

text \<open>A call made \<open>d\<close> nanoseconds after the previous one, on the manager and its clock.\<close>

fun lm_timed :: "nat \<times> lm_op \<Rightarrow> int \<times> LockManager \<Rightarrow> lm_out \<times> int \<times> LockManager" where
  "lm_timed (d, x) (t, lm) =
     (let (out, lm1) = lm_step x (t + int d) lm in (out, t + int d, lm1))"

text \<open>
  The table: the leases in force, and the keys whose lease has run out without anybody having noticed. The first call
  that asks for a lapsed key is told that the lock has expired, and from then on it is not held; cleaning forgets the
  lapsed keys and says how many there were.
\<close>

record leases =
  lnow :: int
  lmax :: int
  lrunning :: bool
  lstopped :: bool
  held :: "string \<rightharpoonup> string \<times> int \<times> int"
  lapsed :: "string set"

fun guarded :: "(bool \<times> lock_error) list \<Rightarrow> (lock_error \<Rightarrow> 'o) \<Rightarrow> 's \<Rightarrow> 'o \<times> 's \<Rightarrow> 'o \<times> 's" where
  "guarded [] err s r = r"
| "guarded ((b, e) # gs) err s r = (if b then (err e, s) else guarded gs err s r)"

definition lease_lock :: "string \<Rightarrow> string \<Rightarrow> int \<Rightarrow> leases \<Rightarrow> lock_error option \<times> leases" where
  "lease_lock k tok ttl l =
     guarded [(k = [], ErrEmptyKey), (tok = [], ErrEmptyToken), (ttl \<le> 0, ErrInvalidTTL),
              (lstopped l, ErrLockManagerStopped)] Some l
       (case held l k of
          None \<Rightarrow> (None, l\<lparr>held := (held l)(k \<mapsto> (tok, 1, lnow l + ttl)), lapsed := lapsed l - {k}\<rparr>)
        | Some (own, n, x) \<Rightarrow>
            guarded [(own \<noteq> tok, ErrLockAlreadyHeld), (n \<ge> lmax l, ErrMaxReentrancy)] Some l
              (None, l\<lparr>held := (held l)(k \<mapsto> (tok, n + 1, lnow l + ttl))\<rparr>))"

definition lease_missing :: "string \<Rightarrow> leases \<Rightarrow> lock_error \<times> leases" where
  "lease_missing k l =
     (if k \<in> lapsed l then ErrLockExpired else ErrLockNotHeld, l\<lparr>lapsed := lapsed l - {k}\<rparr>)"

definition lease_own ::
    "string \<Rightarrow> string \<Rightarrow> (int \<Rightarrow> int \<Rightarrow> (string \<times> int \<times> int) option) \<Rightarrow> leases \<Rightarrow>
     lock_error option \<times> leases" where
  "lease_own k tok f l =
     guarded [(lstopped l, ErrLockManagerStopped)] Some l
       (case held l k of
          None \<Rightarrow> apfst Some (lease_missing k l)
        | Some (own, n, x) \<Rightarrow>
            if own \<noteq> tok then (Some ErrInvalidToken, l)
            else (None, l\<lparr>held := (held l)(k := f n x)\<rparr>))"

fun lease_op :: "lm_op \<Rightarrow> leases \<Rightarrow> lm_out \<times> leases" where
  "lease_op (OpLock k tok ttl) l = apfst OutErr (lease_lock k tok ttl l)"
| "lease_op (OpTryLock k tok ttl) l =
     apfst (\<lambda>e. OutBool (case e of None \<Rightarrow> Inr True | Some e \<Rightarrow>
                           if e = ErrLockAlreadyHeld then Inr False else Inl e)) (lease_lock k tok ttl l)"
| "lease_op (OpUnlock k tok) l =
     apfst OutErr (guarded [(k = [], ErrEmptyKey), (tok = [], ErrEmptyToken)] Some l
       (lease_own k tok (\<lambda>n x. if n = 1 then None else Some (tok, n - 1, x)) l))"
| "lease_op (OpHeartbeat k tok ttl) l =
     apfst OutErr (guarded [(k = [], ErrEmptyKey), (tok = [], ErrEmptyToken), (ttl \<le> 0, ErrInvalidTTL)] Some l
       (lease_own k tok (\<lambda>n x. Some (tok, n, lnow l + ttl)) l))"
| "lease_op (OpIsLocked k) l =
     guarded [(k = [], ErrEmptyKey), (lstopped l, ErrLockManagerStopped)] (\<lambda>e. OutBool (Inl e)) l
       (OutBool (Inr (held l k \<noteq> None)), l\<lparr>lapsed := lapsed l - {k}\<rparr>)"
| "lease_op (OpGetHolder k) l =
     guarded [(k = [], ErrEmptyKey), (lstopped l, ErrLockManagerStopped)] (\<lambda>e. OutHolder (Inl e)) l
       (case held l k of
          None \<Rightarrow> apfst (\<lambda>e. OutHolder (Inl e)) (lease_missing k l)
        | Some (own, n, x) \<Rightarrow> (OutHolder (Inr (own, n, x - lnow l)), l))"
| "lease_op (OpForceUnlock k) l =
     apfst OutErr (guarded [(k = [], ErrEmptyKey), (lstopped l, ErrLockManagerStopped)] Some l
       (None, l\<lparr>held := (held l)(k := None), lapsed := lapsed l - {k}\<rparr>))"
| "lease_op OpCount l =
     (OutCount (if lstopped l then Inl ErrLockManagerStopped else Inr (card (dom (held l)))), l)"
| "lease_op OpClear l =
     apfst OutErr (guarded [(lstopped l, ErrLockManagerStopped)] Some l
       (None, l\<lparr>held := Map.empty, lapsed := {}\<rparr>))"
| "lease_op OpCleanExpired l =
     guarded [(lstopped l, ErrLockManagerStopped)] (\<lambda>e. OutCleaned (Inl e)) l
       (OutCleaned (Inr (card (lapsed l))), l\<lparr>lapsed := {}\<rparr>)"
| "lease_op OpTick l = (OutUnit, if lrunning l then l\<lparr>lapsed := {}\<rparr> else l)"
| "lease_op OpStart l = (OutUnit, l\<lparr>lrunning := \<not> lstopped l\<rparr>)"
| "lease_op OpStop l = (OutUnit, l\<lparr>lstopped := True, lrunning := False\<rparr>)"

text \<open>Time passes, the leases whose instant has passed lapse, and then the call is made.\<close>

definition alive :: "int \<Rightarrow> (string \<rightharpoonup> string \<times> int \<times> int) \<Rightarrow> string \<rightharpoonup> string \<times> int \<times> int" where
  "alive t h = (\<lambda>k. case h k of None \<Rightarrow> None | Some (own, n, x) \<Rightarrow> if t > x then None else Some (own, n, x))"

fun lease_step :: "nat \<times> lm_op \<Rightarrow> leases \<Rightarrow> lm_out \<times> leases" where
  "lease_step (d, x) l =
     (let t = lnow l + int d;
          h = alive t (held l)
      in lease_op x (l\<lparr>lnow := t, held := h, lapsed := lapsed l \<union> (dom (held l) - dom h)\<rparr>))"

subsection \<open>Refinement\<close>

definition lease_of :: "lockEntry \<Rightarrow> string \<times> int \<times> int" where
  "lease_of e = (token e, reentrancy e, expiresAt e)"

definition entries :: "(string, lockEntry) fmap \<Rightarrow> string \<rightharpoonup> string \<times> int \<times> int" where
  "entries m = (\<lambda>k. map_option lease_of (fmlookup m k))"

fun leases_of :: "int \<times> LockManager \<Rightarrow> leases" where
  "leases_of (t, lm) =
     \<lparr>lnow = t, lmax = MaxReentrancy (cfg lm), lrunning = running lm, lstopped = stopped lm,
      held = alive t (entries (locks lm)), lapsed = dom (entries (locks lm)) - dom (alive t (entries (locks lm)))\<rparr>"

text \<open>Every entry is filed under its key and counts between one and the maximum of the configuration.\<close>

definition entry_ok :: "int \<Rightarrow> string \<Rightarrow> lockEntry \<Rightarrow> bool" where
  "entry_ok m k e \<longleftrightarrow> key e = k \<and> 1 \<le> reentrancy e \<and> reentrancy e \<le> m"

definition lm_inv :: "LockManager \<Rightarrow> bool" where
  "lm_inv lm \<longleftrightarrow>
     1 \<le> MaxReentrancy (cfg lm) \<and> 0 < CleanInterval (cfg lm) \<and>
     (\<forall>k e. fmlookup (locks lm) k = Some e \<longrightarrow> entry_ok (MaxReentrancy (cfg lm)) k e) \<and>
     (running lm \<longrightarrow> \<not> stopped lm \<and> \<not> stopClosed lm)"

lemma alive_entries:
  "alive t (entries m) k =
     (case fmlookup m k of None \<Rightarrow> None | Some e \<Rightarrow> if isExpired e t then None else Some (lease_of e))"
  by (simp add: alive_def entries_def isExpired_def lease_of_def split: option.split)

lemma alive_alive [simp]: "t \<le> t' \<Longrightarrow> alive t' (alive t h) = alive t' h"
  by (auto simp: alive_def fun_eq_iff split: option.split)

lemma alive_upd:
  "alive t (entries (fmupd k e m)) =
     (alive t (entries m))(k := (if isExpired e t then None else Some (lease_of e)))"
  by (simp add: alive_entries fun_eq_iff)

lemma alive_drop: "alive t (entries (fmdrop k m)) = (alive t (entries m))(k := None)"
  by (simp add: alive_entries fun_eq_iff)

lemma alive_dead: "fmlookup m k = None \<or> (\<exists>e. fmlookup m k = Some e \<and> isExpired e t) \<Longrightarrow>
    (alive t (entries m))(k := None) = alive t (entries m)"
  by (auto simp: alive_entries fun_eq_iff)

lemma lm_step_inv: "lm_inv lm \<Longrightarrow> lm_inv (snd (lm_step x now lm))"
  by (cases x;
      auto simp: lm_inv_def entry_ok_def Lock_def TryLock_def lockInternal_def Unlock_def Heartbeat_def
        IsLocked_def GetHolder_def ForceUnlock_def Clear_def CleanExpired_def cleanExpiredLocked_def
        cleanLoop_tick_def Start_def Stop_def Let_def split_beta split: option.split if_splits;
      fastforce)

lemmas lease_simps = leases_of.simps lease_step.simps lm_timed.simps Let_def split_beta

lemma held_fresh:
  "fmlookup m k = None \<or> (\<exists>e. fmlookup m k = Some e \<and> isExpired e t) \<longleftrightarrow> alive t (entries m) k = None"
  by (auto simp: alive_entries split: option.split)

lemma held_live:
  "fmlookup m k = Some e \<Longrightarrow> \<not> isExpired e t \<Longrightarrow> alive t (entries m) k = Some (token e, reentrancy e, expiresAt e)"
  by (simp add: alive_entries lease_of_def)

lemma lapsed_keys:
  "dom (entries m) - dom (alive t (entries m)) = {k. \<exists>e. fmlookup m k = Some e \<and> isExpired e t}"
proof -
  have "dom (entries m) = {k. fmlookup m k \<noteq> None}" by (auto simp: entries_def)
  moreover have "dom (alive t (entries m)) = {k. \<exists>e. fmlookup m k = Some e \<and> \<not> isExpired e t}"
    by (auto simp: alive_entries split: option.splits if_splits)
  ultimately show ?thesis by auto
qed

lemma clean_lease:
  "fst (cleanExpiredLocked t lm) = card (dom (entries (locks lm)) - dom (alive t (entries (locks lm))))"
  "leases_of (t, snd (cleanExpiredLocked t lm)) = (leases_of (t, lm))\<lparr>lapsed := {}\<rparr>"
proof -
  have "dom (entries (locks lm)) - dom (alive t (entries (locks lm))) =
      fset (ffilter (\<lambda>k. case fmlookup (locks lm) k of None \<Rightarrow> False | Some e \<Rightarrow> isExpired e t) (fmdom (locks lm)))"
    by (auto simp: lapsed_keys intro: fmdomI split: option.splits)
  then show "fst (cleanExpiredLocked t lm) = card (dom (entries (locks lm)) - dom (alive t (entries (locks lm))))"
    by (simp add: cleanExpiredLocked_def Let_def fcard.rep_eq)
  show "leases_of (t, snd (cleanExpiredLocked t lm)) = (leases_of (t, lm))\<lparr>lapsed := {}\<rparr>"
    by (auto simp: cleanExpiredLocked_def Let_def lapsed_keys alive_entries fun_eq_iff split: option.splits)
qed

lemma lockInternal_lease:
  "lease_lock k tok ttl (leases_of (t, lm)) =
     (fst (lockInternal k tok ttl b t lm), leases_of (t, snd (lockInternal k tok ttl b t lm)))"
  by (auto simp: lease_lock_def lockInternal_def Let_def alive_upd held_live isExpired_def lease_of_def
      alive_entries lapsed_keys split: option.split)

lemma lm_step_lease:
  assumes "lm_inv lm"
  shows "lease_op x (leases_of (t, lm)) = (fst (lm_step x t lm), leases_of (t, snd (lm_step x t lm)))"
proof (cases x)
  case (OpLock k tok ttl)
  then show ?thesis by (simp add: Lock_def lockInternal_lease [where b = False] del: leases_of.simps)
next
  case (OpTryLock k tok ttl)
  then show ?thesis 
    by (simp add: TryLock_def lockInternal_lease [where b = True] Let_def split_beta del: leases_of.simps)
next
  case (OpUnlock k tok)
  have "reentrancy e \<le> 1 \<longleftrightarrow> reentrancy e = 1" if "fmlookup (locks lm) k = Some e" for e
    using assms that by (fastforce simp: lm_inv_def entry_ok_def)
  with OpUnlock show ?thesis
    by (auto simp: Unlock_def lease_own_def lease_missing_def Let_def lapsed_keys alive_upd alive_drop alive_dead
        held_live alive_entries lease_of_def isExpired_def split: option.split)
next
  case (OpHeartbeat k tok ttl)
  then show ?thesis
    by (auto simp: Heartbeat_def lease_own_def lease_missing_def Let_def lapsed_keys alive_upd alive_drop alive_dead
        held_live alive_entries lease_of_def isExpired_def split: option.split)
next
  case (OpIsLocked k)
  then show ?thesis
    by (auto simp: IsLocked_def lapsed_keys alive_drop alive_dead alive_entries lease_of_def split: option.split)
next
  case (OpGetHolder k)
  then show ?thesis
    by (auto simp: GetHolder_def lease_missing_def lapsed_keys alive_drop alive_dead alive_entries lease_of_def
        remainingTTL_def isExpired_def Let_def split: option.split)
next
  case OpCount
  have "dom (alive t (entries (locks lm))) =
      fset (ffilter (\<lambda>k. case fmlookup (locks lm) k of None \<Rightarrow> False | Some e \<Rightarrow> \<not> isExpired e t) (fmdom (locks lm)))"
    by (auto simp: alive_entries intro: fmdomI split: option.splits if_splits)
  with OpCount show ?thesis by (simp add: Count_def fcard.rep_eq)
next
  case OpCleanExpired
  then show ?thesis by (simp add: CleanExpired_def clean_lease del: leases_of.simps) (simp add: clean_lease)
next
  case OpTick
  with assms show ?thesis
    using clean_lease(2) [of t lm] by (cases "running lm") (auto simp: cleanLoop_tick_def CleanExpired_def lm_inv_def)
qed (use assms in \<open>auto simp: lm_inv_def ForceUnlock_def Clear_def Start_def Stop_def Let_def lapsed_keys alive_drop alive_entries fun_eq_iff\<close>)

lemma leases_later:
  "leases_of (t + int d, lm) = (let l = leases_of (t, lm); h = alive (t + int d) (held l) in
     l\<lparr>lnow := t + int d, held := h, lapsed := lapsed l \<union> (dom (held l) - dom h)\<rparr>)"
proof -
  have "dom (alive (t + int d) h) \<subseteq> dom (alive t h)" "dom (alive t h) \<subseteq> dom h" for h
    by (auto simp: alive_def split: option.splits if_splits)
  note sub = this
  have "dom h - dom (alive (t + int d) h) = dom h - dom (alive t h) \<union> (dom (alive t h) - dom (alive (t + int d) h))" for h
    using sub [of h] by blast
  then show ?thesis by (simp add: Let_def)
qed

interpretation lm_lease: refinement lm_timed "\<lambda>(t, lm). lm_inv lm" lease_step leases_of
proof
  fix s :: "int \<times> LockManager" and x assume "case s of (t, lm) \<Rightarrow> lm_inv lm"
  then show "case snd (lm_timed x s) of (t, lm) \<Rightarrow> lm_inv lm"
    by (cases s; cases x) (simp add: Let_def split_beta lm_step_inv)
next
  fix s :: "int \<times> LockManager" and x assume "case s of (t, lm) \<Rightarrow> lm_inv lm"
  then show "lease_step x (leases_of s) = (fst (lm_timed x s), leases_of (snd (lm_timed x s)))"
    using lm_step_lease [of "snd s" "snd x" "fst s + int (fst x)"] leases_later [of "fst s" "fst x" "snd s"]
    by (cases s; cases x) (simp add: Let_def split_beta)
qed

lemma NewLockManager_leases:
  assumes "NewLockManagerWithConfig c = Inr lm"
  shows "lm_inv lm"
    and "leases_of (t, lm) =
      \<lparr>lnow = t, lmax = (if MaxReentrancy c < 1 then 32 else MaxReentrancy c), lrunning = False,
       lstopped = False, held = Map.empty, lapsed = {}\<rparr>"
  using assms
  by (auto simp: NewLockManagerWithConfig_def DefaultMaxReentrancy_def DefaultCleanInterval_def lm_inv_def
      lapsed_keys alive_entries fun_eq_iff Let_def split: if_splits)

subsection \<open>A lease excludes every other token\<close>

text \<open>Calls that are not made by the holder of the lease and do not override it.\<close>

fun foreign :: "string \<Rightarrow> string \<Rightarrow> lm_op \<Rightarrow> bool" where
  "foreign k a (OpLock k' b _) \<longleftrightarrow> \<not> (k' = k \<and> b = a)"
| "foreign k a (OpTryLock k' b _) \<longleftrightarrow> \<not> (k' = k \<and> b = a)"
| "foreign k a (OpUnlock k' b) \<longleftrightarrow> \<not> (k' = k \<and> b = a)"
| "foreign k a (OpHeartbeat k' b _) \<longleftrightarrow> \<not> (k' = k \<and> b = a)"
| "foreign k a (OpForceUnlock k') \<longleftrightarrow> k' \<noteq> k"
| "foreign k a OpClear \<longleftrightarrow> False"
| "foreign k a _ \<longleftrightarrow> True"

definition holds :: "string \<Rightarrow> string \<Rightarrow> int \<Rightarrow> LockManager \<Rightarrow> bool" where
  "holds k a x lm \<longleftrightarrow> (\<exists>e. fmlookup (locks lm) k = Some e \<and> token e = a \<and> x \<le> expiresAt e)"

lemma holds_lock:
  "Lock k a ttl now lm = (None, lm1) \<Longrightarrow> holds k a (now + ttl) lm1"
  by (auto simp: Lock_def lockInternal_def Let_def holds_def split: option.splits if_splits)

lemma holds_foreign:
  "holds k a x lm \<Longrightarrow> now \<le> x \<Longrightarrow> foreign k a op \<Longrightarrow> holds k a x (snd (lm_step op now lm))"
  by (cases op)
     (auto simp: holds_def isExpired_def Lock_def TryLock_def lockInternal_def Unlock_def Heartbeat_def
        IsLocked_def GetHolder_def ForceUnlock_def CleanExpired_def cleanExpiredLocked_def
        cleanLoop_tick_def Start_def Stop_def Let_def split_beta split: option.split if_splits)

lemma holds_excludes:
  assumes "holds k a x lm" "now \<le> x" "b \<noteq> a"
  shows "fst (Lock k b ttl now lm) \<noteq> None" "snd (Lock k b ttl now lm) = lm"
    "fst (Unlock k b now lm) \<noteq> None" "fst (Heartbeat k b ttl now lm) \<noteq> None"
  using assms
  by (auto simp: holds_def isExpired_def Lock_def lockInternal_def Unlock_def Heartbeat_def Let_def)

lemma holds_run:
  "holds k a x (snd s) \<Longrightarrow> \<forall>(d, op) \<in> set ops. foreign k a op \<Longrightarrow>
   fst s + int (sum_list (map fst ops)) \<le> x \<Longrightarrow>
   holds k a x (snd (snd (run lm_timed ops s))) \<and>
   fst (snd (run lm_timed ops s)) = fst s + int (sum_list (map fst ops))"
proof (induction ops arbitrary: s)
  case (Cons o1 ops)
  obtain d op t lm where [simp]: "o1 = (d, op)" "s = (t, lm)" by fastforce
  have "holds k a x (snd (lm_step op (t + int d) lm))"
    using Cons.prems by (intro holds_foreign) auto
  with Cons show ?case by (simp add: Let_def split_beta)
qed simp

subsection \<open>Properties of the lock manager\<close>

text \<open>
  C15. From a new manager, every timed sequence of calls, background ticks included, is answered as by the lease table: a
  lease is in force until its instant has passed and binds nobody afterwards, although the manager deletes it only later.
  The answers are the same to the last error: the first call that asks for a lapsed key is told \<open>ErrLockExpired\<close>, later
  ones \<open>ErrLockNotHeld\<close>, and \<open>CleanExpired\<close> returns the number of lapsed keys it forgets.
\<close>

theorem lock_manager_is_lease_table:
  assumes "NewLockManagerWithConfig c = Inr lm"
  shows "fst (run lm_timed ops (t, lm)) =
    fst (run lease_step ops
      \<lparr>lnow = t, lmax = (if MaxReentrancy c < 1 then 32 else MaxReentrancy c), lrunning = False,
       lstopped = False, held = Map.empty, lapsed = {}\<rparr>)"
  using lm_lease.run_refines [where s = "(t, lm)" and xs = ops] NewLockManager_leases [OF assms]
  by (simp del: leases_of.simps)

theorem lock_manager_is_lease_table_witness:
  "fst (run lm_timed [(0, OpLock ''k'' ''a'' 10), (11, OpUnlock ''k'' ''a''), (0, OpUnlock ''k'' ''a'')]
          (5, \<lparr>cfg = \<lparr>MaxReentrancy = 32, CleanInterval = 100000000\<rparr>, locks = fmempty, running = False,
              stopped = False, stopClosed = False\<rparr>)) =
   fst (run lease_step [(0, OpLock ''k'' ''a'' 10), (11, OpUnlock ''k'' ''a''), (0, OpUnlock ''k'' ''a'')]
          \<lparr>lnow = 5, lmax = 32, lrunning = False, lstopped = False, held = Map.empty, lapsed = {}\<rparr>) \<and>
   fst (run lm_timed [(0, OpLock ''k'' ''a'' 10), (11, OpUnlock ''k'' ''a''), (0, OpUnlock ''k'' ''a'')]
          (5, \<lparr>cfg = \<lparr>MaxReentrancy = 32, CleanInterval = 100000000\<rparr>, locks = fmempty, running = False,
              stopped = False, stopClosed = False\<rparr>)) =
     [OutErr None, OutErr (Some ErrLockExpired), OutErr (Some ErrLockNotHeld)]" (is "?eq \<and> ?answers")
proof
  show ?eq
    using lock_manager_is_lease_table
      [of "\<lparr>MaxReentrancy = 0, CleanInterval = 0\<rparr>"
          "\<lparr>cfg = \<lparr>MaxReentrancy = 32, CleanInterval = 100000000\<rparr>, locks = fmempty, running = False,
            stopped = False, stopClosed = False\<rparr>"]
    by (simp add: NewLockManagerWithConfig_def DefaultMaxReentrancy_def DefaultCleanInterval_def del: run.simps)
  show ?answers by (simp add: Lock_def lockInternal_def Unlock_def isExpired_def)
qed

text \<open>
  C16. Mutual exclusion: once \<open>Lock\<close> has returned nil, no other token can lock, unlock or renew the
  key until the time to live has passed, whatever calls other tokens and the background loop make in
  between, and a refused \<open>Lock\<close> changes nothing.
\<close>

theorem lock_excludes_other_tokens:
  assumes "Lock k a ttl t lm = (None, lm1)"
    and "\<forall>(d, op) \<in> set ops. foreign k a op"
    and "int (sum_list (map fst ops)) \<le> ttl"
    and "snd (run lm_timed ops (t, lm1)) = (now, lm2)"
    and "b \<noteq> a"
  shows "fst (Lock k b ttl' now lm2) \<noteq> None \<and> snd (Lock k b ttl' now lm2) = lm2 \<and>
    fst (Unlock k b now lm2) \<noteq> None \<and> fst (Heartbeat k b ttl' now lm2) \<noteq> None"
proof -
  have "holds k a (t + ttl) lm2 \<and> now \<le> t + ttl"
    using holds_run [where x = "t + ttl" and s = "(t, lm1)" and ops = ops and k = k and a = a]
      holds_lock [OF assms(1)] assms(2-4) by simp
  then show ?thesis using holds_excludes [of k a "t + ttl" lm2 now b] assms(5) by simp
qed

theorem lock_excludes_other_tokens_witness:
  "fst (Lock ''k'' ''b'' 3 13 (snd (Lock ''k'' ''a'' 10 5 NewLockManager))) \<noteq> None"
  using lock_excludes_other_tokens
    [where k = "''k''" and a = "''a''" and ttl = 10 and t = 5 and lm = NewLockManager
       and ops = "[(8, OpIsLocked ''k'')]" and b = "''b''" and ttl' = 3
       and ?lm1.0 = "snd (Lock ''k'' ''a'' 10 5 NewLockManager)"
       and ?lm2.0 = "snd (Lock ''k'' ''a'' 10 5 NewLockManager)" and now = 13]
  by (simp add: Lock_def lockInternal_def NewLockManager_def NewLockManagerWithConfig_def
      DefaultLockManagerConfig_def DefaultMaxReentrancy_def DefaultCleanInterval_def IsLocked_def isExpired_def)

end
