(* ===== verification/Redlock.thy ===== *)
theory Redlock
  imports Distlock "HOL-Library.AList"
begin

section \<open>Quorum locks over several nodes (\<open>src/internal/distlock/distlock.go\<close>, lines 419 to 773)\<close>

text \<open>
  \<open>Redlock\<close> calls its nodes only through the interface \<open>LockNode\<close>. The loops below take the
  methods they call as arguments, and the locale \<open>lock_node\<close> states what the client relies on:
  a granted lease excludes other tokens, and unlocking undoes a first lock. The one
  implementation of the interface, \<open>MemoryLockNode\<close>, a named lock manager, interprets the locale.

  Every call reads the clock of its node and \<open>time.Now\<close>; the readings are arguments. The Go map
  \<open>NodeExpiries\<close> is an association list, so that a loop over it has an order.
\<close>

subsection \<open>Nodes\<close>

record MemoryLockNode =
  node_id :: string
  manager :: LockManager

definition NewMemoryLockNode :: "string \<Rightarrow> MemoryLockNode" where
  "NewMemoryLockNode i = \<lparr>node_id = i, manager = NewLockManager\<rparr>"

definition NewMemoryLockNodeWithConfig ::
    "string \<Rightarrow> LockManagerConfig \<Rightarrow> (lock_error, MemoryLockNode) result" where
  "NewMemoryLockNodeWithConfig i c =
     (case NewLockManagerWithConfig c of
        Inl e \<Rightarrow> Inl e
      | Inr mgr \<Rightarrow> Inr \<lparr>node_id = i, manager = mgr\<rparr>)"

definition node_ID :: "MemoryLockNode \<Rightarrow> string" where
  "node_ID n = node_id n"

definition on_manager :: "(LockManager \<Rightarrow> 'r \<times> LockManager) \<Rightarrow> MemoryLockNode \<Rightarrow> 'r \<times> MemoryLockNode" where
  "on_manager f n = (let (r, m) = f (manager n) in (r, n\<lparr>manager := m\<rparr>))"

definition node_Lock ::
    "string \<Rightarrow> string \<Rightarrow> int \<Rightarrow> int \<Rightarrow> MemoryLockNode \<Rightarrow> lock_error option \<times> MemoryLockNode" where
  "node_Lock k tok ttl now = on_manager (Lock k tok ttl now)"

definition node_TryLock ::
    "string \<Rightarrow> string \<Rightarrow> int \<Rightarrow> int \<Rightarrow> MemoryLockNode \<Rightarrow> (lock_error, bool) result \<times> MemoryLockNode" where
  "node_TryLock k tok ttl now = on_manager (TryLock k tok ttl now)"

definition node_Unlock ::
    "string \<Rightarrow> string \<Rightarrow> int \<Rightarrow> MemoryLockNode \<Rightarrow> lock_error option \<times> MemoryLockNode" where
  "node_Unlock k tok now = on_manager (Unlock k tok now)"

definition node_Heartbeat ::
    "string \<Rightarrow> string \<Rightarrow> int \<Rightarrow> int \<Rightarrow> MemoryLockNode \<Rightarrow> lock_error option \<times> MemoryLockNode" where
  "node_Heartbeat k tok ttl now = on_manager (Heartbeat k tok ttl now)"

definition node_IsLocked ::
    "string \<Rightarrow> int \<Rightarrow> MemoryLockNode \<Rightarrow> (lock_error, bool) result \<times> MemoryLockNode" where
  "node_IsLocked k now = on_manager (IsLocked k now)"

definition GetRemainingTTL ::
    "string \<Rightarrow> int \<Rightarrow> MemoryLockNode \<Rightarrow> (lock_error, int) result \<times> MemoryLockNode" where
  "GetRemainingTTL k now n =
     apfst (map_sum id (\<lambda>(tok, cnt, ttl). ttl)) (on_manager (GetHolder k now) n)"

subsection \<open>Configuration and acquisitions\<close>

record RedlockConfig =
  AcquireTimeout :: int
  RetryDelay :: int
  ClockDrift :: int

definition DefaultRedlockConfig :: RedlockConfig where
  "DefaultRedlockConfig =
     \<lparr>AcquireTimeout = 5000000000, RetryDelay = 100000000, ClockDrift = 50000000\<rparr>"

text \<open>The zero \<open>time.Time\<close> in a failed acquisition is \<^const>\<open>None\<close>; it lies before every clock reading.\<close>

record LockAcquisition =
  acqKey :: string
  acqToken :: string
  Expiry :: "int option"
  NodeExpiries :: "(string \<times> int) list"
  NodeCount :: nat
  SuccessCount :: nat

definition IsValid :: "LockAcquisition option \<Rightarrow> int \<Rightarrow> bool" where
  "IsValid la now = (case la of
      None \<Rightarrow> False
    | Some a \<Rightarrow> (case Expiry a of None \<Rightarrow> False | Some x \<Rightarrow> x > now))"

definition RemainingTTL :: "LockAcquisition option \<Rightarrow> int \<Rightarrow> int" where
  "RemainingTTL la now = (case la of
      None \<Rightarrow> 0
    | Some a \<Rightarrow> (case Expiry a of
                   None \<Rightarrow> 0
                 | Some x \<Rightarrow> (let d = x - now in if d < 0 then 0 else d)))"

record Redlock =
  rcfg :: RedlockConfig
  nodes :: "MemoryLockNode list"

definition NewRedlockWithConfig ::
    "MemoryLockNode list \<Rightarrow> RedlockConfig \<Rightarrow> (lock_error, Redlock) result" where
  "NewRedlockWithConfig ns c =
     (if length ns = 0 then Inl ErrInvalidNodeCount
      else if length ns mod 2 = 0 then Inl ErrInvalidNodeCount
      else if AcquireTimeout c < 0 then Inl ErrInvalidTTL
      else if RetryDelay c < 0 then Inl ErrInvalidTTL
      else if ClockDrift c < 0 then Inl ErrInvalidTTL
      else let c1 = (if AcquireTimeout c = 0
                     then c\<lparr>AcquireTimeout := AcquireTimeout DefaultRedlockConfig\<rparr> else c);
               c2 = (if RetryDelay c1 = 0
                     then c1\<lparr>RetryDelay := RetryDelay DefaultRedlockConfig\<rparr> else c1)
           in Inr \<lparr>rcfg = c2, nodes = ns\<rparr>)"

definition NewRedlock :: "MemoryLockNode list \<Rightarrow> (lock_error, Redlock) result" where
  "NewRedlock ns = NewRedlockWithConfig ns DefaultRedlockConfig"

definition majority :: "Redlock \<Rightarrow> nat" where
  "majority r = length (nodes r) div 2 + 1"

definition Redlock_NodeCount :: "Redlock \<Rightarrow> nat" where
  "Redlock_NodeCount r = length (nodes r)"

subsection \<open>Acquisition\<close>

text \<open>
  The loop over the nodes: \<open>clk i\<close> holds the two readings at node \<open>i\<close>, of the node's own clock in
  \<open>Lock\<close> and of \<open>time.Now\<close> after it returned.
\<close>

fun lock_loop ::
    "(string \<Rightarrow> string \<Rightarrow> int \<Rightarrow> int \<Rightarrow> 'n \<Rightarrow> lock_error option \<times> 'n) \<Rightarrow> ('n \<Rightarrow> string) \<Rightarrow>
     string \<Rightarrow> string \<Rightarrow> int \<Rightarrow> (nat \<Rightarrow> int \<times> int) \<Rightarrow> nat \<Rightarrow> 'n list \<Rightarrow> (string \<times> int) list \<Rightarrow> nat \<Rightarrow>
     'n list \<times> (string \<times> int) list \<times> nat" where
  "lock_loop lock ident k tok ttl clk i [] expiries cnt = ([], expiries, cnt)"
| "lock_loop lock ident k tok ttl clk i (n # ns) expiries cnt =
     (let (err, n1) = lock k tok ttl (fst (clk i)) n;
          (expiries1, cnt1) =
            (if err = None then (AList.update (ident n) (snd (clk i) + ttl) expiries, cnt + 1)
             else (expiries, cnt));
          (ns1, res) = lock_loop lock ident k tok ttl clk (Suc i) ns expiries1 cnt1
      in (n1 # ns1, res))"

text \<open>The loop for the minimum, \<^const>\<open>None\<close> while \<open>first\<close> is true.\<close>

fun min_expiry :: "(string \<times> int) list \<Rightarrow> int option \<Rightarrow> int option" where
  "min_expiry [] m = m"
| "min_expiry ((i, x) # es) m =
     min_expiry es (case m of None \<Rightarrow> Some x | Some y \<Rightarrow> if x < y then Some x else Some y)"

definition attemptLock ::
    "string \<Rightarrow> string \<Rightarrow> int \<Rightarrow> (nat \<Rightarrow> int \<times> int) \<Rightarrow> int \<Rightarrow> Redlock \<Rightarrow>
     (LockAcquisition \<times> lock_error option) \<times> Redlock" where
  "attemptLock k tok ttl clk now r =
     (let (ns1, expiries, cnt) = lock_loop node_Lock node_ID k tok ttl clk 0 (nodes r) [] 0;
          r1 = r\<lparr>nodes := ns1\<rparr>;
          acq = \<lparr>acqKey = k, acqToken = tok, Expiry = None, NodeExpiries = expiries,
                 NodeCount = length (nodes r), SuccessCount = cnt\<rparr>
      in if cnt < majority r then ((acq, Some ErrQuorumNotReached), r1)
         else case map_option (\<lambda>x. x - ClockDrift (rcfg r)) (min_expiry expiries None) of
                None \<Rightarrow> ((acq, Some ErrQuorumNotReached), r1)
              | Some x \<Rightarrow>
                  if \<not> x > now then ((acq, Some ErrQuorumNotReached), r1)
                  else ((acq\<lparr>Expiry := Some x\<rparr>, None), r1))"

text \<open>\<open>Unlock\<close> or \<open>Heartbeat\<close> on the first node that has the id.\<close>

fun on_first :: "('n \<Rightarrow> string) \<Rightarrow> ('n \<Rightarrow> lock_error option \<times> 'n) \<Rightarrow> string \<Rightarrow> 'n list \<Rightarrow> lock_error option option \<times> 'n list" where
  "on_first ident f i [] = (None, [])"
| "on_first ident f i (n # ns) =
     (if ident n = i then let (err, n1) = f n in (Some err, n1 # ns)
      else apsnd (Cons n) (on_first ident f i ns))"

fun unlock_loop ::
    "(string \<Rightarrow> string \<Rightarrow> int \<Rightarrow> 'n \<Rightarrow> lock_error option \<times> 'n) \<Rightarrow> ('n \<Rightarrow> string) \<Rightarrow>
     string \<Rightarrow> string \<Rightarrow> (nat \<Rightarrow> int) \<Rightarrow> nat \<Rightarrow> string list \<Rightarrow> 'n list \<Rightarrow> 'n list" where
  "unlock_loop unlock ident k tok clk i [] ns = ns"
| "unlock_loop unlock ident k tok clk i (x # xs) ns =
     unlock_loop unlock ident k tok clk (Suc i) xs (snd (on_first ident (unlock k tok (clk i)) x ns))"

fun unlock_all :: "string \<Rightarrow> string \<Rightarrow> (nat \<Rightarrow> int) \<Rightarrow> nat \<Rightarrow> MemoryLockNode list \<Rightarrow> lock_error option list \<times> MemoryLockNode list" where
  "unlock_all k tok clk i [] = ([], [])"
| "unlock_all k tok clk i (n # ns) =
     (let (err, n1) = node_Unlock k tok (clk i) n; (errs, ns1) = unlock_all k tok clk (Suc i) ns
      in (err # errs, n1 # ns1))"

definition rollbackPartialLock ::
    "string \<Rightarrow> string \<Rightarrow> LockAcquisition option \<Rightarrow> (nat \<Rightarrow> int) \<Rightarrow> Redlock \<Rightarrow> Redlock" where
  "rollbackPartialLock k tok acq clk r =
     (case acq of
        None \<Rightarrow> r\<lparr>nodes := snd (unlock_all k tok clk 0 (nodes r))\<rparr>
      | Some a \<Rightarrow> r\<lparr>nodes := unlock_loop node_Unlock node_ID k tok clk 0 (map fst (NodeExpiries a)) (nodes r)\<rparr>)"

definition Redlock_TryLock ::
    "string \<Rightarrow> string \<Rightarrow> int \<Rightarrow> (nat \<Rightarrow> int \<times> int) \<Rightarrow> int \<Rightarrow> (nat \<Rightarrow> int) \<Rightarrow> Redlock \<Rightarrow>
     (lock_error, LockAcquisition) result \<times> Redlock" where
  "Redlock_TryLock k tok ttl clk now rclk r =
     (if k = '''' then (Inl ErrEmptyKey, r)
      else if tok = '''' then (Inl ErrEmptyToken, r)
      else if ttl \<le> 0 then (Inl ErrInvalidTTL, r)
      else let ((acq, err), r1) = attemptLock k tok ttl clk now r
           in case err of
                Some e \<Rightarrow> (Inl e, rollbackPartialLock k tok (Some acq) rclk r1)
              | None \<Rightarrow> (Inr acq, r1))"

text \<open>
  The retry loop. Round \<open>m\<close> reads the clock at the head, in the attempt, in the rollback and after
  it; what other clients do during \<open>time.Sleep\<close> is the function \<open>env m\<close>. Not returning is \<^const>\<open>None\<close>.
\<close>

record round_clock =
  headNow :: int
  attemptClk :: "nat \<Rightarrow> int \<times> int"
  attemptNow :: int
  rollbackClk :: "nat \<Rightarrow> int"
  tailNow :: int

partial_function (option) redlock_retry ::
    "string \<Rightarrow> string \<Rightarrow> int \<Rightarrow> int \<Rightarrow> (nat \<Rightarrow> round_clock) \<Rightarrow> (nat \<Rightarrow> Redlock \<Rightarrow> Redlock) \<Rightarrow> nat \<Rightarrow> Redlock \<Rightarrow>
     ((lock_error, LockAcquisition) result \<times> Redlock) option" where
  "redlock_retry k tok ttl deadline clk env m r =
     (if headNow (clk m) > deadline then Some (Inl ErrQuorumNotReached, r)
      else let ((acq, err), r1) = attemptLock k tok ttl (attemptClk (clk m)) (attemptNow (clk m)) r
           in if err = None then Some (Inr acq, r1)
              else let r2 = rollbackPartialLock k tok (Some acq) (rollbackClk (clk m)) r1
                   in if tailNow (clk m) > deadline then Some (Inl ErrQuorumNotReached, r2)
                      else redlock_retry k tok ttl deadline clk env (Suc m) (env m r2))"

definition Redlock_Lock ::
    "string \<Rightarrow> string \<Rightarrow> int \<Rightarrow> int \<Rightarrow> (nat \<Rightarrow> round_clock) \<Rightarrow> (nat \<Rightarrow> Redlock \<Rightarrow> Redlock) \<Rightarrow> Redlock \<Rightarrow>
     ((lock_error, LockAcquisition) result \<times> Redlock) option" where
  "Redlock_Lock k tok ttl start clk env r =
     (if k = '''' then Some (Inl ErrEmptyKey, r)
      else if tok = '''' then Some (Inl ErrEmptyToken, r)
      else if ttl \<le> 0 then Some (Inl ErrInvalidTTL, r)
      else redlock_retry k tok ttl (start + AcquireTimeout (rcfg r)) clk env 0 r)"

subsection \<open>Release, renewal and query\<close>

definition Redlock_Unlock ::
    "LockAcquisition option \<Rightarrow> (nat \<Rightarrow> int) \<Rightarrow> Redlock \<Rightarrow> lock_error option \<times> Redlock" where
  "Redlock_Unlock acq clk r =
     (case acq of
        None \<Rightarrow> (Some ErrLockNotHeld, r)
      | Some a \<Rightarrow>
          if acqKey a = '''' then (Some ErrEmptyKey, r)
          else if acqToken a = '''' then (Some ErrEmptyToken, r)
          else let (errs, ns1) = unlock_all (acqKey a) (acqToken a) clk 0 (nodes r);
                   lastErr = fold (\<lambda>e acc. if e = None then acc else e) errs None;
                   successCount = length (filter (\<lambda>e. e = None) errs)
               in (if successCount = 0 \<and> lastErr \<noteq> None then Some (ErrNodeFailure (the lastErr)) else None,
                   r\<lparr>nodes := ns1\<rparr>))"

fun heartbeat_loop ::
    "string \<Rightarrow> string \<Rightarrow> int \<Rightarrow> (nat \<Rightarrow> int \<times> int) \<Rightarrow> nat \<Rightarrow> string list \<Rightarrow> MemoryLockNode list \<Rightarrow>
     (string \<times> int) list \<Rightarrow> nat \<Rightarrow> MemoryLockNode list \<times> (string \<times> int) list \<times> nat" where
  "heartbeat_loop k tok ttl clk i [] ns expiries cnt = (ns, expiries, cnt)"
| "heartbeat_loop k tok ttl clk i (x # xs) ns expiries cnt =
     (let (res, ns1) = on_first node_ID (node_Heartbeat k tok ttl (fst (clk i))) x ns
      in if res = Some None
         then heartbeat_loop k tok ttl clk (Suc i) xs ns1
                (AList.update x (snd (clk i) + ttl) expiries) (cnt + 1)
         else heartbeat_loop k tok ttl clk (Suc i) xs ns1 expiries cnt)"

definition Redlock_Heartbeat ::
    "LockAcquisition option \<Rightarrow> int \<Rightarrow> (nat \<Rightarrow> int \<times> int) \<Rightarrow> int \<Rightarrow> Redlock \<Rightarrow>
     (lock_error, LockAcquisition) result \<times> Redlock" where
  "Redlock_Heartbeat acq ttl clk now r =
     (case acq of
        None \<Rightarrow> (Inl ErrLockNotHeld, r)
      | Some a \<Rightarrow>
          if acqKey a = '''' then (Inl ErrEmptyKey, r)
          else if acqToken a = '''' then (Inl ErrEmptyToken, r)
          else if ttl \<le> 0 then (Inl ErrInvalidTTL, r)
          else let (ns1, expiries, cnt) =
                     heartbeat_loop (acqKey a) (acqToken a) ttl clk 0 (map fst (NodeExpiries a)) (nodes r) [] 0;
                   r1 = r\<lparr>nodes := ns1\<rparr>
               in if cnt < majority r then (Inl ErrQuorumNotReached, r1)
                  else case map_option (\<lambda>x. x - ClockDrift (rcfg r)) (min_expiry expiries None) of
                         None \<Rightarrow> (Inl ErrQuorumNotReached, r1)
                       | Some x \<Rightarrow>
                           if \<not> x > now then (Inl ErrQuorumNotReached, r1)
                           else (Inr \<lparr>acqKey = acqKey a, acqToken = acqToken a, Expiry = Some x,
                                      NodeExpiries = expiries, NodeCount = length (nodes r),
                                      SuccessCount = cnt\<rparr>, r1))"

fun islocked_loop :: "string \<Rightarrow> (nat \<Rightarrow> int) \<Rightarrow> nat \<Rightarrow> MemoryLockNode list \<Rightarrow> nat \<times> MemoryLockNode list" where
  "islocked_loop k clk i [] = (0, [])"
| "islocked_loop k clk i (n # ns) =
     (let (res, n1) = node_IsLocked k (clk i) n; (cnt, ns1) = islocked_loop k clk (Suc i) ns
      in (if res = Inr True then cnt + 1 else cnt, n1 # ns1))"

definition Redlock_IsLocked ::
    "string \<Rightarrow> (nat \<Rightarrow> int) \<Rightarrow> Redlock \<Rightarrow> (lock_error, bool) result \<times> Redlock" where
  "Redlock_IsLocked k clk r =
     (if k = '''' then (Inl ErrEmptyKey, r)
      else let (cnt, ns1) = islocked_loop k clk 0 (nodes r)
           in (Inr (cnt \<ge> majority r), r\<lparr>nodes := ns1\<rparr>))"

subsection \<open>What the client relies on\<close>

text \<open>
  \<open>lease k a x n\<close>: node \<open>n\<close> has granted \<open>k\<close> to \<open>a\<close> until at least \<open>x\<close>; \<open>absent k a n\<close>: it has no
  record of \<open>a\<close> holding \<open>k\<close>. The step \<open>act\<close> stands for anything the node is asked to do by others.
\<close>

locale lock_node =
  fixes lock :: "string \<Rightarrow> string \<Rightarrow> int \<Rightarrow> int \<Rightarrow> 'n \<Rightarrow> lock_error option \<times> 'n"
    and unlock :: "string \<Rightarrow> string \<Rightarrow> int \<Rightarrow> 'n \<Rightarrow> lock_error option \<times> 'n"
    and ident :: "'n \<Rightarrow> string"
    and act :: "'x \<Rightarrow> int \<Rightarrow> 'n \<Rightarrow> 'n"
    and foreign_act :: "string \<Rightarrow> string \<Rightarrow> 'x \<Rightarrow> bool"
    and lease :: "string \<Rightarrow> string \<Rightarrow> int \<Rightarrow> 'n \<Rightarrow> bool"
    and absent :: "string \<Rightarrow> string \<Rightarrow> 'n \<Rightarrow> bool"
  assumes lock_ident [simp]: "ident (snd (lock k a ttl now n)) = ident n"
    and unlock_ident [simp]: "ident (snd (unlock k a now n)) = ident n"
    and lock_grants: "fst (lock k a ttl now n) = None \<Longrightarrow> x \<le> now + ttl \<Longrightarrow> lease k a x (snd (lock k a ttl now n))"
    and lock_refused: "lease k a x n \<Longrightarrow> now \<le> x \<Longrightarrow> b \<noteq> a \<Longrightarrow> fst (lock k b ttl now n) \<noteq> None"
    and act_keeps: "lease k a x n \<Longrightarrow> now \<le> x \<Longrightarrow> foreign_act k a op \<Longrightarrow> lease k a x (act op now n)"
    and refused_absent: "absent k a n \<Longrightarrow> fst (lock k a ttl now n) \<noteq> None \<Longrightarrow> absent k a (snd (lock k a ttl now n))"
    and undo_absent: "absent k a n \<Longrightarrow> fst (lock k a ttl now n) = None \<Longrightarrow>
      absent k a (snd (unlock k a now' (snd (lock k a ttl now n))))"
    and unlock_absent: "absent k a n \<Longrightarrow> absent k a (snd (unlock k a now n))"
begin

lemma lock_loop_length: "length (fst (lock_loop lock ident k a ttl clk i ns es c)) = length ns"
  by (induction ns arbitrary: i es c) (auto simp: Let_def split_beta)

lemma lock_loop_idents: "map ident (fst (lock_loop lock ident k a ttl clk i ns es c)) = map ident ns"
  by (induction ns arbitrary: i es c) (auto simp: Let_def split_beta)

lemma lock_loop_keeps:
  "p \<in> set es \<Longrightarrow> fst p \<notin> ident ` set ns \<Longrightarrow>
   p \<in> set (fst (snd (lock_loop lock ident k a ttl clk i ns es c)))"
proof (induction ns arbitrary: i es c)
  case (Cons n ns)
  have "p \<in> set (AList.update (ident n) v es)" for v
    using Cons.prems by (induction es) (auto split: if_splits)
  with Cons show ?case by (auto simp: Let_def split_beta)
qed simp

text \<open>Every node counted by the acquiring loop holds a lease at least as long as the recorded expiries say.\<close>

lemma lock_loop_leases:
  assumes "\<forall>p \<in> set (fst (snd (lock_loop lock ident k a ttl clk i ns es c))). x + drift \<le> snd p"
    and "\<forall>j. snd (clk j) \<le> fst (clk j) + drift"
    and "distinct (map ident ns)"
  shows "snd (snd (lock_loop lock ident k a ttl clk i ns es c)) \<le>
    c + length (filter (lease k a x) (fst (lock_loop lock ident k a ttl clk i ns es c)))"
  using assms
proof (induction ns arbitrary: i es c)
  case (Cons n ns)
  show ?case
  proof (cases "fst (lock k a ttl (fst (clk i)) n)")
    case None
    let ?es = "AList.update (ident n) (snd (clk i) + ttl) es"
    have "(ident n, snd (clk i) + ttl) \<in> set ?es" by (induction es) auto
    then have "(ident n, snd (clk i) + ttl) \<in>
        set (fst (snd (lock_loop lock ident k a ttl clk (Suc i) ns ?es (c + 1))))"
      using Cons.prems(3) by (intro lock_loop_keeps) auto
    with Cons.prems(1) None have "x + drift \<le> snd (clk i) + ttl"
      by (fastforce simp: Let_def split_beta)
    with Cons.prems(2) have "x \<le> fst (clk i) + ttl" by (smt (verit))
    with None lock_grants have "lease k a x (snd (lock k a ttl (fst (clk i)) n))" by blast
    with Cons.IH [where i = "Suc i" and es = ?es and c = "c + 1"] Cons.prems None show ?thesis
      by (simp add: Let_def split_beta)
  next
    case (Some e)
    with Cons.IH [where i = "Suc i" and es = es and c = c] Cons.prems show ?thesis by (simp add: Let_def split_beta)
  qed
qed simp

text \<open>A node with a lease of another token never counts.\<close>

lemma lock_loop_refused:
  "\<forall>j. fst (clk j) \<le> x \<Longrightarrow> b \<noteq> a \<Longrightarrow>
   snd (snd (lock_loop lock ident k b ttl clk i ns es c)) \<le> c + length (filter (\<lambda>n. \<not> lease k a x n) ns)"
proof (induction ns arbitrary: i es c)
  case (Cons n ns)
  show ?case
  proof (cases "lease k a x n")
    case True
    with Cons.prems lock_refused have "fst (lock k b ttl (fst (clk i)) n) \<noteq> None" by blast
    with True Cons.IH [where i = "Suc i" and es = es and c = c] Cons.prems show ?thesis by (auto simp: Let_def split_beta)
  next
    case False
    with Cons.IH [where i = "Suc i" and c = "c + 1"] Cons.IH [where i = "Suc i" and c = c] Cons.prems
    show ?thesis by (auto simp: Let_def split_beta le_SucI)
  qed
qed simp

text \<open>After the loop a node has no record of the token, or would have none after one more \<open>unlock\<close>.\<close>

definition undone :: "string \<Rightarrow> string \<Rightarrow> string set \<Rightarrow> 'n \<Rightarrow> bool" where
  "undone k a ids n \<longleftrightarrow> absent k a n \<or> ident n \<in> ids \<and> (\<forall>now. absent k a (snd (unlock k a now n)))"

lemma lock_loop_undone:
  "\<forall>n \<in> set ns. absent k a n \<Longrightarrow>
   fst ` set es \<subseteq> fst ` set (fst (snd (lock_loop lock ident k a ttl clk i ns es c))) \<and>
   (\<forall>n \<in> set (fst (lock_loop lock ident k a ttl clk i ns es c)).
      undone k a (fst ` set (fst (snd (lock_loop lock ident k a ttl clk i ns es c)))) n)"
proof (induction ns arbitrary: i es c)
  case (Cons n ns)
  let ?n = "snd (lock k a ttl (fst (clk i)) n)"
  let ?es = "AList.update (ident n) (snd (clk i) + ttl) es"
  show ?case
  proof (cases "fst (lock k a ttl (fst (clk i)) n)")
    case None
    have ids: "fst ` set ?es = insert (ident n) (fst ` set es)" by (simp add: dom_update)
    have "undone k a A ?n" if "ident n \<in> A" for A
      using that None undo_absent Cons.prems by (simp add: undone_def)
    with Cons.IH [where i = "Suc i" and es = ?es and c = "c + 1"] Cons.prems None ids show ?thesis
      by (auto simp: Let_def split_beta)
  next
    case (Some e)
    with refused_absent Cons.prems have "undone k a A ?n" for A by (simp add: undone_def)
    with Cons.IH [where i = "Suc i" and es = es and c = c] Cons.prems Some show ?thesis
      by (auto simp: Let_def split_beta)
  qed
qed simp

lemma on_first_undone:
  "distinct (map ident ns) \<Longrightarrow> \<forall>n \<in> set ns. undone k a (insert x ids) n \<Longrightarrow>
   map ident (snd (on_first ident (unlock k a now) x ns)) = map ident ns \<and>
   (\<forall>n \<in> set (snd (on_first ident (unlock k a now) x ns)). undone k a ids n)"
  by (induction ns) (auto simp: undone_def Let_def split_beta unlock_absent; metis image_eqI)+

lemma unlock_loop_absent:
  "distinct (map ident ns) \<Longrightarrow> \<forall>n \<in> set ns. undone k a (set xs) n \<Longrightarrow>
   \<forall>n \<in> set (unlock_loop unlock ident k a clk i xs ns). absent k a n"
proof (induction xs arbitrary: i ns)
  case Nil
  then show ?case by (simp add: undone_def)
next
  case (Cons x xs)
  then have "map ident (snd (on_first ident (unlock k a (clk i)) x ns)) = map ident ns"
    "\<forall>n \<in> set (snd (on_first ident (unlock k a (clk i)) x ns)). undone k a (set xs) n"
    using on_first_undone [of ns k a x "set xs" "clk i"] by simp_all
  with Cons.IH [of _ "Suc i"] Cons.prems(1) show ?case by (metis unlock_loop.simps(2))
qed

end

subsection \<open>The in-memory node implements the interface\<close>

definition node_act :: "lm_op \<Rightarrow> int \<Rightarrow> MemoryLockNode \<Rightarrow> MemoryLockNode" where
  "node_act op now n = n\<lparr>manager := snd (lm_step op now (manager n))\<rparr>"

definition node_lease :: "string \<Rightarrow> string \<Rightarrow> int \<Rightarrow> MemoryLockNode \<Rightarrow> bool" where
  "node_lease k a x n \<longleftrightarrow> holds k a x (manager n)"

definition node_absent :: "string \<Rightarrow> string \<Rightarrow> MemoryLockNode \<Rightarrow> bool" where
  "node_absent k a n \<longleftrightarrow>
     (case fmlookup (locks (manager n)) k of None \<Rightarrow> True | Some e \<Rightarrow> token e \<noteq> a)"

lemmas node_defs = node_Lock_def node_Unlock_def node_ID_def on_manager_def node_act_def
  node_lease_def node_absent_def Let_def split_beta

interpretation mem_node: lock_node node_Lock node_Unlock node_ID node_act foreign node_lease node_absent
proof
  fix k a ttl now x and n :: MemoryLockNode
  assume "fst (node_Lock k a ttl now n) = None" "x \<le> now + ttl"
  moreover from this have "holds k a (now + ttl) (snd (Lock k a ttl now (manager n)))"
    by (intro holds_lock [of k a ttl now "manager n"]) (simp add: node_defs prod_eq_iff)
  ultimately show "node_lease k a x (snd (node_Lock k a ttl now n))"
    by (auto simp: node_defs holds_def)
next
  fix k a ttl now now' and n :: MemoryLockNode
  assume "node_absent k a n" "fst (node_Lock k a ttl now n) = None"
  then show "node_absent k a (snd (node_Unlock k a now' (snd (node_Lock k a ttl now n))))"
    by (auto simp: node_defs Lock_def lockInternal_def Unlock_def isExpired_def split: option.splits if_splits)
next
  fix k a now and n :: MemoryLockNode
  assume "node_absent k a n"
  then show "node_absent k a (snd (node_Unlock k a now n))"
    by (auto simp: node_defs Unlock_def split: option.splits)
next
  fix k a ttl now and n :: MemoryLockNode
  assume "node_absent k a n" "fst (node_Lock k a ttl now n) \<noteq> None"
  then show "node_absent k a (snd (node_Lock k a ttl now n))"
    by (auto simp: node_defs Lock_def lockInternal_def split: option.splits if_splits)
qed (auto simp: node_defs holds_excludes holds_foreign)

subsection \<open>Quorum arguments\<close>

text \<open>What other clients do between two attempts: calls on single nodes, in any order.\<close>

fun node_events :: "(nat \<times> int \<times> lm_op) list \<Rightarrow> MemoryLockNode list \<Rightarrow> MemoryLockNode list" where
  "node_events [] ns = ns"
| "node_events ((i, t, op) # evs) ns =
     node_events evs (if i < length ns then ns[i := node_act op t (ns ! i)] else ns)"

lemma filter_update_mono:
  "i < length xs \<Longrightarrow> (P (xs ! i) \<Longrightarrow> P y) \<Longrightarrow> length (filter P xs) \<le> length (filter P (xs[i := y]))"
proof (induction xs arbitrary: i)
  case (Cons x xs)
  then show ?case by (cases i) (auto simp: le_SucI)
qed simp

lemma node_events_leases:
  "\<forall>(i, t, op) \<in> set evs. t \<le> x \<and> foreign k a op \<Longrightarrow>
   length (node_events evs ns) = length ns \<and>
   length (filter (node_lease k a x) ns) \<le> length (filter (node_lease k a x) (node_events evs ns))"
proof (induction evs ns rule: node_events.induct)
  case (2 i t op evs ns)
  have "length (filter (node_lease k a x) ns) \<le>
      length (filter (node_lease k a x) (if i < length ns then ns[i := node_act op t (ns ! i)] else ns))"
    using "2.prems" mem_node.act_keeps by (auto intro: filter_update_mono)
  with 2 show ?case by (auto split: if_splits)
qed simp

lemma min_expiry_le:
  "min_expiry es m = Some y \<Longrightarrow> (\<forall>p \<in> set es. y \<le> snd p) \<and> (\<forall>z. m = Some z \<longrightarrow> y \<le> z)"
proof (induction es m rule: min_expiry.induct)
  case (2 i x es m)
  then show ?case by (fastforce split: option.splits if_splits)
qed simp

lemma attemptLock_success:
  assumes "attemptLock k a ttl clk now r = ((acq, None), r1)" "Expiry acq = Some x"
    and "distinct (map node_ID (nodes r))" "\<forall>j. snd (clk j) \<le> fst (clk j) + ClockDrift (rcfg r)"
  shows "majority r \<le> length (filter (node_lease k a x) (nodes r1)) \<and> length (nodes r1) = length (nodes r)"
proof -
  let ?L = "lock_loop node_Lock node_ID k a ttl clk 0 (nodes r) [] 0"
  have r1: "nodes r1 = fst ?L" "majority r \<le> snd (snd ?L)"
    "min_expiry (fst (snd ?L)) None = Some (x + ClockDrift (rcfg r))"
    using assms(1,2) by (auto simp: attemptLock_def Let_def split_beta split: option.splits if_splits)
  with mem_node.lock_loop_leases [OF _ assms(4,3), of k a ttl 0 "[]" 0 x] min_expiry_le
    mem_node.lock_loop_length [of k a ttl clk 0 "nodes r" "[]" 0]
  show ?thesis by fastforce
qed

lemma attemptLock_refused:
  assumes "majority r \<le> length (filter (node_lease k a x) (nodes r))" "\<forall>j. fst (clk j) \<le> x" "b \<noteq> a"
  shows "snd (fst (attemptLock k b ttl clk now r)) = Some ErrQuorumNotReached"
proof -
  let ?L = "lock_loop node_Lock node_ID k b ttl clk 0 (nodes r) [] 0"
  have "snd (snd ?L) \<le> length (filter (\<lambda>n. \<not> node_lease k a x n) (nodes r))"
    using mem_node.lock_loop_refused [OF assms(2,3), of k ttl 0 "nodes r" "[]" 0] by simp
  with assms(1) sum_length_filter_compl [of "node_lease k a x" "nodes r"]
  have "snd (snd ?L) < majority r" by (simp add: majority_def)
  then show ?thesis by (simp add: attemptLock_def Let_def split_beta)
qed

lemma redlock_retry_returns:
  "headNow (clk m) > deadline \<Longrightarrow> j \<le> m \<Longrightarrow>
   \<exists>res r'. redlock_retry k tok ttl deadline clk env j r = Some (res, r') \<and>
     (res = Inl ErrQuorumNotReached \<or> (\<exists>acq. res = Inr acq))"
proof (induction "m - j" arbitrary: j r)
  case 0
  then show ?case by (simp add: redlock_retry.simps)
next
  case (Suc d)
  then have step: "\<exists>res r'. redlock_retry k tok ttl deadline clk env (Suc j) s = Some (res, r') \<and>
      (res = Inl ErrQuorumNotReached \<or> (\<exists>acq. res = Inr acq))" for s
    by (intro Suc.hyps) auto
  show ?case
    by (subst redlock_retry.simps) (use step in \<open>auto simp: Let_def split_beta\<close>)
qed

subsection \<open>Properties\<close>

text \<open>
  C17. Quorum mutual exclusion: when one token has acquired the lock and each node call took
  at most the configured clock drift, no other token's attempt can succeed before the expiry the
  acquisition reports, whatever single-node calls other clients make in between.
\<close>

theorem redlock_mutual_exclusion:
  assumes "attemptLock k a ttl clk now r = ((acq, None), r1)" "Expiry acq = Some x"
    and "distinct (map node_ID (nodes r))"
    and "\<forall>j. snd (clk j) \<le> fst (clk j) + ClockDrift (rcfg r)"
    and "\<forall>(i, t, op) \<in> set evs. t \<le> x \<and> foreign k a op"
    and "\<forall>j. fst (clk' j) \<le> x" "b \<noteq> a"
  shows "snd (fst (attemptLock k b ttl' clk' now' (r1\<lparr>nodes := node_events evs (nodes r1)\<rparr>))) =
    Some ErrQuorumNotReached"
proof (rule attemptLock_refused [OF _ assms(6,7)])
  have "majority r \<le> length (filter (node_lease k a x) (nodes r1)) \<and> length (nodes r1) = length (nodes r)"
    by (rule attemptLock_success [OF assms(1-4)])
  with node_events_leases [OF assms(5), of "nodes r1"]
  show "majority (r1\<lparr>nodes := node_events evs (nodes r1)\<rparr>) \<le>
      length (filter (node_lease k a x) (nodes (r1\<lparr>nodes := node_events evs (nodes r1)\<rparr>)))"
    by (simp add: majority_def)
qed

definition example_redlock :: Redlock where
  "example_redlock =
     \<lparr>rcfg = \<lparr>AcquireTimeout = 100, RetryDelay = 1, ClockDrift = 2\<rparr>,
      nodes = [NewMemoryLockNode ''n1'', NewMemoryLockNode ''n2'', NewMemoryLockNode ''n3'']\<rparr>"

lemmas example_simps = example_redlock_def NewMemoryLockNode_def NewLockManager_def
  NewLockManagerWithConfig_def DefaultLockManagerConfig_def DefaultMaxReentrancy_def
  DefaultCleanInterval_def attemptLock_def node_Lock_def node_ID_def on_manager_def Lock_def
  lockInternal_def majority_def isExpired_def

theorem redlock_mutual_exclusion_witness:
  "snd (fst (attemptLock ''k'' ''b'' 50 (\<lambda>_. (20, 20)) 20
      ((snd (attemptLock ''k'' ''a'' 50 (\<lambda>_. (10, 11)) 12 example_redlock))
        \<lparr>nodes := node_events [(0, 15, OpLock ''k'' ''b'' 9)]
           (nodes (snd (attemptLock ''k'' ''a'' 50 (\<lambda>_. (10, 11)) 12 example_redlock)))\<rparr>))) =
    Some ErrQuorumNotReached"
  by (rule redlock_mutual_exclusion
      [where a = "''a''" and x = 59 and clk = "\<lambda>_. (10, 11)" and ttl = 50 and now = 12 and r = example_redlock
         and acq = "fst (fst (attemptLock ''k'' ''a'' 50 (\<lambda>_. (10, 11)) 12 example_redlock))"])
     (simp_all add: example_simps)



text \<open>
  C19. The retrying \<open>Lock\<close> returns as soon as the clock passes the deadline at the head of some
  round, whatever other clients do while it sleeps, and then with an acquisition or with
  \<open>ErrQuorumNotReached\<close>.
\<close>

theorem redlock_lock_returns:
  assumes "headNow (clk m) > start + AcquireTimeout (rcfg r)" "k \<noteq> []" "tok \<noteq> []" "0 < ttl"
  shows "\<exists>res r'. Redlock_Lock k tok ttl start clk env r = Some (res, r') \<and>
    (res = Inl ErrQuorumNotReached \<or> (\<exists>acq. res = Inr acq))"
  using redlock_retry_returns [where clk = clk and m = m and j = 0] assms by (simp add: Redlock_Lock_def)

theorem redlock_lock_returns_witness:
  "\<exists>res r'. Redlock_Lock ''k'' ''a'' 50 0
     (\<lambda>m. \<lparr>headNow = int m * 60, attemptClk = (\<lambda>_. (0, 0)), attemptNow = 99, rollbackClk = (\<lambda>_. 0), tailNow = 0\<rparr>)
     (\<lambda>_ r. r) example_redlock = Some (res, r') \<and> (res = Inl ErrQuorumNotReached \<or> (\<exists>acq. res = Inr acq))"
  by (rule redlock_lock_returns [where m = 2]) (simp_all add: example_redlock_def)

text \<open>
  The bound on the duration of a node call in the exclusion property cannot be dropped: the expiry is
  computed from a clock reading made after the call returned, so one slow call makes the reported
  expiry later than the leases it stands for.
\<close>

lemma redlock_expiry_outlives_leases:
  "Expiry (fst (fst (attemptLock ''k'' ''a'' 10 (\<lambda>_. (0, 9)) 9 example_redlock))) = Some 17 \<and>
   fst (Redlock_IsLocked ''k'' (\<lambda>_. 11) (snd (attemptLock ''k'' ''a'' 10 (\<lambda>_. (0, 9)) 9 example_redlock))) = Inr False"
  by (simp add: example_simps Redlock_IsLocked_def node_IsLocked_def IsLocked_def)

end
