(* ===== verification/Gobytes.thy ===== *)
theory Gobytes
  imports Prelude "HOL-Library.Word"
begin

unbundle bit_operations_syntax

section \<open>Bytes: big-endian numbers and the CRC-32 checksum\<close>

text \<open>
  What the components use of \<open>encoding/binary\<close> (\<open>BigEndian\<close>) and \<open>hash/crc32\<close> (\<open>ChecksumIEEE\<close>). A number is written to
  \<open>k\<close> bytes, most significant first, and read back; the checksum is the reflected CRC with the IEEE polynomial,
  one bit at a time. Each step of the checksum is a bijection, which gives the two facts the clients use:
  reading inverts writing, and two byte sequences that differ in one byte have different checksums.
\<close>

type_synonym byte = "8 word"

subsection \<open>Big-endian numbers\<close>

definition put_be :: "nat \<Rightarrow> 'a::len word \<Rightarrow> byte list" where
  "put_be k w = map (\<lambda>i. ucast (drop_bit (8 * i) w)) (rev [0..<k])"

definition get_be :: "byte list \<Rightarrow> 'a::len word" where
  "get_be bs = foldl (\<lambda>acc b. push_bit 8 acc OR ucast b) 0 bs"

lemma length_put_be [simp]: "length (put_be k w) = k"
  by (simp add: put_be_def)

lemma put_be_Suc: "put_be (Suc k) w = put_be k (drop_bit 8 w) @ [ucast w]"
proof -
  have "rev [0..<Suc k] = map Suc (rev [0..<k]) @ [0]"
    by (simp add: upt_conv_Cons map_Suc_upt [symmetric] rev_map del: upt_Suc)
  then show ?thesis by (simp add: put_be_def add.commute)
qed

lemma get_be_snoc: "get_be (bs @ [b]) = push_bit 8 (get_be bs) OR ucast b"
  by (simp add: get_be_def)

lemma get_put_be: "get_be (put_be k w) = take_bit (8 * k) (w :: 'a::len word)"
proof (induction k arbitrary: w)
  case 0
  then show ?case by (simp add: get_be_def put_be_def)
next
  case (Suc k)
  have "push_bit 8 (take_bit (8 * k) (drop_bit 8 w)) OR ucast (ucast w :: byte) = take_bit (8 * Suc k) w"
    by (rule bit_word_eqI) (auto simp: bit_simps)
  with Suc show ?case by (simp add: put_be_Suc get_be_snoc)
qed

lemma get_put_be_full [simp]: "LENGTH('a) \<le> 8 * k \<Longrightarrow> get_be (put_be k w) = (w :: 'a::len word)"
  by (simp add: get_put_be take_bit_word_eq_self)

lemma bit_get_be_snoc:
  "bit (get_be (bs @ [b]) :: 'a::len word) n \<longleftrightarrow> n < LENGTH('a) \<and> (if n < 8 then bit b n else bit (get_be bs :: 'a word) (n - 8))"
  using bit_imp_le_length [of b n] by (auto simp: get_be_snoc bit_simps)

lemma get_be_bound: "8 * length bs \<le> n \<Longrightarrow> \<not> bit (get_be bs :: 'a::len word) n"
proof (induction bs arbitrary: n rule: rev_induct)
  case (snoc b bs)
  then show ?case using snoc.IH [of "n - 8"] by (simp add: bit_get_be_snoc)
qed (simp add: get_be_def)

lemma get_be_inj:
  assumes "length bs = length cs" "8 * length bs \<le> LENGTH('a)" "(get_be bs :: 'a::len word) = get_be cs"
  shows "bs = cs"
  using assms
proof (induction bs arbitrary: cs rule: rev_induct)
  case (snoc b bs)
  then obtain cs' c where cs: "cs = cs' @ [c]" by (metis length_0_conv rev_exhaust snoc_eq_iff_butlast)
  then have eq: "bit (get_be (bs @ [b]) :: 'a word) n = bit (get_be (cs' @ [c]) :: 'a word) n" for n using snoc.prems by simp
  have len: "length bs = length cs'" "8 * length bs + 8 \<le> LENGTH('a)" using snoc.prems cs by simp_all
  have "b = c"
  proof (rule bit_word_eqI)
    fix n assume "n < LENGTH(8)"
    then show "bit b n = bit c n" using eq [of n] len(2) by (simp add: bit_get_be_snoc)
  qed
  moreover have "(get_be bs :: 'a word) = get_be cs'"
  proof (rule bit_word_eqI)
    fix n assume "n < LENGTH('a)"
    show "bit (get_be bs :: 'a word) n = bit (get_be cs' :: 'a word) n"
    proof (cases "n + 8 < LENGTH('a)")
      case True
      then show ?thesis using eq [of "n + 8"] by (simp add: bit_get_be_snoc)
    next
      case False
      then show ?thesis using len get_be_bound [of bs n, where 'a = 'a] get_be_bound [of cs' n, where 'a = 'a] by simp
    qed
  qed
  ultimately show ?case using snoc.IH [OF len(1)] len(2) cs by simp
qed simp

subsection \<open>CRC-32\<close>

definition crc_bit :: "32 word \<Rightarrow> 32 word" where
  "crc_bit c = (if bit c 0 then drop_bit 1 c XOR 0xEDB88320 else drop_bit 1 c)"

definition crc_byte :: "byte \<Rightarrow> 32 word \<Rightarrow> 32 word" where
  "crc_byte b c = (crc_bit ^^ 8) (c XOR ucast b)"

definition ChecksumIEEE :: "byte list \<Rightarrow> 32 word" where
  "ChecksumIEEE bs = NOT (fold crc_byte bs (NOT 0))"

lemma crc_bit_top: "bit (crc_bit c) 31 = bit c 0"
  using bit_imp_le_length [of c 32] by (auto simp: crc_bit_def bit_simps)

lemma xor_left_inj: "(a :: 'a::len word) XOR b = a XOR c \<Longrightarrow> b = c" "b XOR a = c XOR a \<Longrightarrow> b = c"
  by (metis xor.assoc xor_self_eq xor.left_neutral, metis xor.assoc xor_self_eq xor.right_neutral)

lemma crc_bit_inj: "crc_bit c = crc_bit d \<Longrightarrow> c = d"
proof -
  assume eq: "crc_bit c = crc_bit d"
  then have low: "bit c 0 = bit d 0" by (metis crc_bit_top)
  with eq have "drop_bit 1 c = drop_bit 1 d" by (auto simp: crc_bit_def split: if_splits dest: xor_left_inj)
  then have "bit c (Suc n) = bit d (Suc n)" for n
    by (metis bit_drop_bit_eq comp_apply plus_1_eq_Suc)
  with low have "bit c n = bit d n" for n by (cases n) auto
  then show "c = d" by (simp add: bit_eq_iff)
qed

lemma crc_bits_inj: "(crc_bit ^^ k) c = (crc_bit ^^ k) d \<Longrightarrow> c = d"
  by (induction k) (auto dest: crc_bit_inj)

lemma crc_byte_inj: "crc_byte b c = crc_byte b d \<Longrightarrow> c = d" "crc_byte b c = crc_byte b' c \<Longrightarrow> b = b'"
proof -
  show "crc_byte b c = crc_byte b d \<Longrightarrow> c = d"
    unfolding crc_byte_def by (drule crc_bits_inj) (rule xor_left_inj)
  assume "crc_byte b c = crc_byte b' c"
  then have "(ucast b :: 32 word) = ucast b'"
    unfolding crc_byte_def by (drule_tac crc_bits_inj) (rule xor_left_inj)
  moreover have "bit (ucast x :: 32 word) n = bit x n" for x :: byte and n
    using bit_imp_le_length [of x n] by (auto simp: bit_ucast_iff)
  ultimately have "bit b n = bit b' n" for n by metis
  then show "b = b'" by (simp add: bit_eq_iff)
qed

lemma crc_fold_inj: "fold crc_byte bs c = fold crc_byte bs d \<Longrightarrow> c = d"
  by (induction bs arbitrary: c d) (auto dest: crc_byte_inj)

lemma checksum_detects_byte:
  assumes "b \<noteq> b'"
  shows "ChecksumIEEE (xs @ b # ys) \<noteq> ChecksumIEEE (xs @ b' # ys)"
proof
  assume "ChecksumIEEE (xs @ b # ys) = ChecksumIEEE (xs @ b' # ys)"
  then have "NOT (ChecksumIEEE (xs @ b # ys)) = NOT (ChecksumIEEE (xs @ b' # ys))" by simp
  then have "crc_byte b (fold crc_byte xs (NOT 0)) = crc_byte b' (fold crc_byte xs (NOT 0))"
    by (auto simp: ChecksumIEEE_def dest: crc_fold_inj)
  with assms show False by (auto dest: crc_byte_inj)
qed

end
