(* ===== verification/Gofloat.thy ===== *)
theory Gofloat
  imports Gobytes
begin

unbundle bit_operations_syntax

section \<open>Floating-point numbers of the language\<close>

text \<open>
  \<open>float32\<close> and \<open>float64\<close> as their bits, with what the packages use of them: conversion between the two and from and to
  integers, rounded to the nearest number, ties to even, and equality.

  Shown: a \<open>float32\<close> that is widened and narrowed again is unchanged unless it is a signalling NaN.
\<close>

subsection \<open>Definitions\<close>

text \<open>The number of bits of a number, and a number divided by a power of two and rounded to the nearest, ties to even.\<close>

function bitlen :: "int \<Rightarrow> int" where
  "bitlen m = (if m \<le> 0 then 0 else 1 + bitlen (m div 2))"
  by auto
termination by (relation "measure nat") auto

declare bitlen.simps [simp del]

definition round_even :: "int \<Rightarrow> nat \<Rightarrow> int" where
  "round_even m k =
     (let q = m div 2 ^ k; r = m mod 2 ^ k
      in if 2 * r > 2 ^ k \<or> (2 * r = 2 ^ k \<and> odd q) then q + 1 else q)"

text \<open>
  The magnitude \<open>m * 2 ^ e\<close> in the format with \<open>p\<close> fraction bits, least exponent \<open>emin\<close> and the exponent field
  \<open>emax\<close> for infinities.
\<close>

definition encode_float :: "nat \<Rightarrow> int \<Rightarrow> int \<Rightarrow> int \<Rightarrow> int \<Rightarrow> int" where
  "encode_float p emin emax m e =
     (if m = 0 then 0
      else
      let t = max (e + bitlen m - int p - 1) emin;
          q = (if t \<le> e then m * 2 ^ nat (e - t) else round_even m (nat (t - e)))
      in min ((t - emin) * 2 ^ p + q) (emax * 2 ^ p))"

definition encode64 :: "bool \<Rightarrow> int \<Rightarrow> int \<Rightarrow> 64 word" where
  "encode64 s m e = word_of_int (of_bool s * 2 ^ 63 + encode_float 52 (- 1074) 2047 m e)"

definition encode32 :: "bool \<Rightarrow> int \<Rightarrow> int \<Rightarrow> 32 word" where
  "encode32 s m e = word_of_int (of_bool s * 2 ^ 31 + encode_float 23 (- 149) 255 m e)"

definition widen :: "32 word \<Rightarrow> 64 word" where
  "widen b =
     (let s = bit b 31; x = uint b div 2 ^ 23 mod 2 ^ 8; f = uint b mod 2 ^ 23
      in if x = 255 then
           if f = 0 then encode64 s 1 1024
           else push_bit 63 (of_bool s) OR push_bit 51 (mask 12) OR push_bit 29 (take_bit 23 (ucast b))
         else encode64 s (if x = 0 then f else 2 ^ 23 + f) (max x 1 - 150))"

definition narrow :: "64 word \<Rightarrow> 32 word" where
  "narrow b =
     (let s = bit b 63; x = uint b div 2 ^ 52 mod 2 ^ 11; f = uint b mod 2 ^ 52
      in if x = 2047 then
           if f = 0 then encode32 s 1 128
           else push_bit 31 (of_bool s) OR push_bit 22 (mask 9) OR take_bit 23 (ucast (drop_bit 29 b))
         else encode32 s (if x = 0 then f else 2 ^ 52 + f) (max x 1 - 1075))"

definition float_of_int :: "64 word \<Rightarrow> 64 word" where
  "float_of_int n = encode64 (sint n < 0) \<bar>sint n\<bar> 0"

text \<open>
  Truncation towards zero; the language leaves the result to the implementation when it does not fit, which is the
  argument \<open>unfit\<close>.
\<close>

definition int_of_float :: "(64 word \<Rightarrow> 64 word) \<Rightarrow> bool \<Rightarrow> 64 word \<Rightarrow> 64 word" where
  "int_of_float unfit sg b =
     (let x = uint b div 2 ^ 52 mod 2 ^ 11; f = uint b mod 2 ^ 52;
          m = (if x = 0 then f else 2 ^ 52 + f); e = max x 1 - 1075;
          mag = (if e \<ge> 0 then m * 2 ^ nat e else m div 2 ^ nat (- e));
          v = (if bit b 63 then - mag else mag)
      in if x = 2047 \<or> v < (if sg then - (2 ^ 63) else 0) \<or> v \<ge> (if sg then 2 ^ 63 else 2 ^ 64) then unfit b
         else word_of_int v)"

definition float64_eq :: "64 word \<Rightarrow> 64 word \<Rightarrow> bool" where
  "float64_eq a b \<longleftrightarrow> uint a mod 2 ^ 63 \<le> 2047 * 2 ^ 52 \<and> (a = b \<or> uint a mod 2 ^ 63 = 0 \<and> uint b mod 2 ^ 63 = 0)"

definition float32_eq :: "32 word \<Rightarrow> 32 word \<Rightarrow> bool" where
  "float32_eq a b \<longleftrightarrow> uint a mod 2 ^ 31 \<le> 255 * 2 ^ 23 \<and> (a = b \<or> uint a mod 2 ^ 31 = 0 \<and> uint b mod 2 ^ 31 = 0)"

definition signalling :: "32 word \<Rightarrow> bool" where
  "signalling b \<longleftrightarrow> uint b mod 2 ^ 31 > 255 * 2 ^ 23 \<and> \<not> bit b 22"

subsection \<open>Widening and narrowing\<close>

lemma bitlen_bounds: "0 < m \<Longrightarrow> 0 < bitlen m \<and> 2 ^ nat (bitlen m - 1) \<le> m \<and> m < 2 ^ nat (bitlen m)"
proof (induction m rule: bitlen.induct)
  case (1 m)
  show ?case
  proof (cases "m = 1")
    case True
    then show ?thesis by (simp add: bitlen.simps)
  next
    case False
    then have "0 < m div 2" using 1(2) by simp
    with 1 have IH: "0 < bitlen (m div 2)" "2 ^ nat (bitlen (m div 2) - 1) \<le> m div 2" "m div 2 < 2 ^ nat (bitlen (m div 2))" by auto
    obtain k where k: "bitlen (m div 2) = int k + 1" using IH(1) by (metis zero_less_imp_eq_int of_nat_0_less_iff zless_iff_Suc_zadd add.commute of_nat_Suc gr0_conv_Suc)
    have "bitlen m = int k + 2" using 1(2) k by (simp add: bitlen.simps [of m])
    moreover have "2 * 2 ^ k \<le> m" "m < 2 * (2 * 2 ^ k)" using IH(2,3) k by (simp_all add: nat_add_distrib)
    ultimately show ?thesis by (simp add: nat_add_distrib)
  qed
qed

lemma bitlen_unique:
  assumes "2 ^ k \<le> m" "m < 2 ^ Suc k"
  shows "bitlen m = int k + 1"
proof -
  have "0 < m" using assms(1) zero_less_power by (metis less_le_trans zero_less_numeral)
  then have b: "0 < bitlen m" "2 ^ nat (bitlen m - 1) \<le> m" "m < 2 ^ nat (bitlen m)" using bitlen_bounds by auto
  have "(2::int) ^ nat (bitlen m - 1) < 2 ^ Suc k" "(2::int) ^ k < 2 ^ nat (bitlen m)" using b assms by linarith+
  then have "nat (bitlen m - 1) < Suc k" "k < nat (bitlen m)" by (simp_all only: power_strict_increasing_iff one_less_numeral_iff semiring_norm)
  then show ?thesis by linarith
qed

lemma round_even_exact: "round_even (m * 2 ^ k) k = m"
  by (simp add: round_even_def)

lemma bit_odd_uint: "bit (w :: 'a::len word) n = odd (uint w div 2 ^ n)"
  unfolding bit_iff_odd [of "uint w", symmetric] by (simp add: bit_simps)

lemma float_parts:
  fixes V :: int and s :: bool
  assumes "0 \<le> V" "V < 2 ^ 63"
  defines "w \<equiv> word_of_int (of_bool s * 2 ^ 63 + V) :: 64 word"
  shows "bit w 63 = s" "uint w div 2 ^ 52 mod 2 ^ 11 = V div 2 ^ 52" "uint w mod 2 ^ 52 = V mod 2 ^ 52"
proof -
  have u: "uint w = of_bool s * 2 ^ 63 + V" unfolding w_def uint_word_of_int using assms(1,2) by (cases s) simp_all
  have "bit w 63 = odd (uint w div 2 ^ 63)" by (rule bit_odd_uint)
  then show "bit w 63 = s" unfolding u using assms(1,2) by (cases s) simp_all
  have "(of_bool s * 2 ^ 63 + V) div 2 ^ 52 = of_bool s * 2 ^ 11 + V div 2 ^ 52" by (cases s) simp_all
  then show "uint w div 2 ^ 52 mod 2 ^ 11 = V div 2 ^ 52" unfolding u using assms(1,2) by simp
  show "uint w mod 2 ^ 52 = V mod 2 ^ 52" unfolding u using mod_mult_self1 [of V "of_bool s * 2 ^ 11" "2 ^ 52"] by (cases s) (simp_all add: add.commute)
qed

lemma word_parts32:
  fixes b :: "32 word"
  shows "word_of_int (of_bool (bit b 31) * 2 ^ 31 + (uint b div 2 ^ 23 mod 2 ^ 8) * 2 ^ 23 + uint b mod 2 ^ 23) = b"
proof -
  have lt: "uint b < 2 ^ 32" using uint_lt2p [of b] by simp
  have "bit b 31 = odd (uint b div 2 ^ 31)" by (rule bit_odd_uint)
  moreover have "uint b div 2 ^ 31 = 0 \<or> uint b div 2 ^ 31 = 1" using lt uint_ge_0 [of b] by (simp add: zdiv_eq_0_iff) linarith
  ultimately have "of_bool (bit b 31) = uint b div 2 ^ 31" by auto
  moreover have "uint b div 2 ^ 31 * 2 ^ 31 + uint b div 2 ^ 23 mod 2 ^ 8 * 2 ^ 23 + uint b mod 2 ^ 23 = uint b"
  proof -
    have "uint b div 2 ^ 31 = uint b div 2 ^ 23 div 2 ^ 8" by (simp add: zdiv_zmult2_eq [symmetric])
    moreover have "c * 2 ^ 31 + d * 2 ^ 23 + r = u" if "q * 2 ^ 23 + r = u" "c * 2 ^ 8 + d = q" for c d r q u :: int
      using that by simp
    ultimately show ?thesis by (metis div_mult_mod_eq)
  qed
  ultimately show ?thesis by simp
qed

lemma encode64_exact:
  assumes m: "0 < m" "m < 2 ^ 24" and e: "- 149 \<le> e" "e \<le> 104"
  defines "k \<equiv> nat (53 - bitlen m)"
  shows "encode_float 52 (- 1074) 2047 m e = (e - int k + 1074) * 2 ^ 52 + m * 2 ^ k"
    "2 ^ 52 \<le> m * 2 ^ k" "m * 2 ^ k < 2 ^ 53" "bitlen m \<le> 24" "int k = 53 - bitlen m"
proof -
  have b: "0 < bitlen m" "2 ^ nat (bitlen m - 1) \<le> m" "m < 2 ^ nat (bitlen m)" using bitlen_bounds [OF m(1)] by auto
  have "(2::int) ^ nat (bitlen m - 1) < 2 ^ 24" using b(2) m(2) by linarith
  then have "nat (bitlen m - 1) < 24" by (simp only: power_strict_increasing_iff one_less_numeral_iff semiring_norm)
  then show n: "bitlen m \<le> 24" by linarith
  then show k: "int k = 53 - bitlen m" by (simp add: k_def)
  have "nat (bitlen m - 1) + k = 52" "nat (bitlen m) + k = 53" using b(1) k by linarith+
  then have p: "(2::int) ^ nat (bitlen m - 1) * 2 ^ k = 2 ^ 52" "(2::int) ^ nat (bitlen m) * 2 ^ k = 2 ^ 53"
    by (simp_all only: power_add [symmetric])
  show lo: "2 ^ 52 \<le> m * 2 ^ k" unfolding p(1) [symmetric] using b(2) by simp
  show hi: "m * 2 ^ k < 2 ^ 53" unfolding p(2) [symmetric] using b(3) by simp
  have t: "max (e + bitlen m - int 52 - 1) (- 1074) = e - int k" using k e(1) b(1) by simp
  have "(e - int k + 1074) * 2 ^ 52 + m * 2 ^ k \<le> 2047 * 2 ^ 52" using hi e(2) k n by (simp add: algebra_simps)
  then show "encode_float 52 (- 1074) 2047 m e = (e - int k + 1074) * 2 ^ 52 + m * 2 ^ k"
    unfolding encode_float_def t Let_def using m(1) by simp
qed

lemma encode32_exact:
  assumes q: "2 ^ 52 \<le> m * 2 ^ k" "m * 2 ^ k < 2 ^ 53" and k: "29 \<le> k"
    and e: "max (e - int k + 29) (- 149) = e" "(e + 149) * 2 ^ 23 + m \<le> 255 * 2 ^ 23"
  shows "encode_float 23 (- 149) 255 (m * 2 ^ k) (e - int k) = (e + 149) * 2 ^ 23 + m"
proof -
  have "bitlen (m * 2 ^ k) = 53" using bitlen_unique [of 52 "m * 2 ^ k"] q by simp
  then have t: "max (e - int k + bitlen (m * 2 ^ k) - int 23 - 1) (- 149) = e" using e(1) by simp
  have "m * 2 ^ k \<noteq> 0" using q(1) by (metis not_le zero_less_numeral zero_less_power)
  moreover have "\<not> e \<le> e - int k" "nat (e - (e - int k)) = k" using k by simp_all
  ultimately show ?thesis unfolding encode_float_def t Let_def using e(2) by (simp add: round_even_exact)
qed

lemma narrow_number:
  assumes "0 \<le> V" "V < 2 ^ 63" "V div 2 ^ 52 \<noteq> 2047"
  shows "narrow (word_of_int (of_bool s * 2 ^ 63 + V)) =
    encode32 s (if V div 2 ^ 52 = 0 then V mod 2 ^ 52 else 2 ^ 52 + V mod 2 ^ 52) (max (V div 2 ^ 52) 1 - 1075)"
  unfolding narrow_def Let_def float_parts [OF assms(1,2)] by (simp only: assms(3) if_False)

lemma narrow_widen_number:
  assumes "uint b div 2 ^ 23 mod 2 ^ 8 \<noteq> 255"
  shows "narrow (widen b) = b"
proof -
  define x where "x = uint b div 2 ^ 23 mod 2 ^ 8"
  define f where "f = uint b mod 2 ^ 23"
  define m where "m = (if x = 0 then f else 2 ^ 23 + f)"
  define e where "e = max x 1 - 150"
  have xf: "0 \<le> x" "x < 255" "0 \<le> f" "f < 2 ^ 23" using assms pos_mod_bound [of "2 ^ 8" "uint b div 2 ^ 23"] by (simp_all add: x_def f_def)
  have w: "widen b = encode64 (bit b 31) m e" using xf by (simp add: widen_def x_def f_def m_def e_def Let_def)
  have V': "(e + 149) * 2 ^ 23 + m = x * 2 ^ 23 + f" using xf by (simp add: m_def e_def max_def)
  have b: "word_of_int (of_bool (bit b 31) * 2 ^ 31 + ((e + 149) * 2 ^ 23 + m)) = b"
    unfolding V' using word_parts32 [of b, folded x_def f_def] by (simp only: add.assoc)
  show ?thesis
  proof (cases "m = 0")
    case True
    then have "x = 0" "f = 0" "e = - 149" using xf by (auto simp: m_def e_def split: if_splits)
    moreover have "narrow (widen b) = encode32 (bit b 31) 0 (- 1074)"
      unfolding w encode64_def encode_float_def using narrow_number [of 0 "bit b 31"] True by simp
    ultimately show ?thesis using b True by (simp add: encode32_def encode_float_def)
  next
    case False
    then have m: "0 < m" "m < 2 ^ 24" and e: "- 149 \<le> e" "e \<le> 104" using xf by (auto simp: m_def e_def)
    define k where "k = nat (53 - bitlen m)"
    note ex = encode64_exact [OF m e, folded k_def]
    define V where "V = (e - int k + 1074) * 2 ^ 52 + m * 2 ^ k"
    have V: "0 \<le> V" "V < 2 ^ 63" "V div 2 ^ 52 = e - int k + 1075" "V mod 2 ^ 52 = m * 2 ^ k - 2 ^ 52"
    proof -
      have sp: "V = 2 ^ 52 * (e - int k + 1075) + (m * 2 ^ k - 2 ^ 52)" by (simp add: V_def algebra_simps)
      have r: "0 \<le> m * 2 ^ k - 2 ^ 52" "m * 2 ^ k - 2 ^ 52 < 2 ^ 52" using ex(2,3) by simp_all
      show "V div 2 ^ 52 = e - int k + 1075" "V mod 2 ^ 52 = m * 2 ^ k - 2 ^ 52"
        by (rule int_div_pos_eq [OF sp r], rule int_mod_pos_eq [OF sp r])
      show "0 \<le> V" "V < 2 ^ 63" using ex(2-5) e bitlen_bounds [OF m(1)] by (simp_all add: V_def)
    qed
    have kr: "29 \<le> int k" "int k \<le> 52" using ex(4,5) bitlen_bounds [OF m(1)] by simp_all
    have "narrow (widen b) = encode32 (bit b 31) (m * 2 ^ k) (e - int k)"
      unfolding w encode64_def ex(1) V_def [symmetric]
      using narrow_number [OF V(1,2), of "bit b 31"] kr e unfolding V(3,4) by simp
    moreover have "max (e - int k + 29) (- 149) = e"
    proof (cases "x = 0")
      case True
      then have "e = - 149" "m < 2 ^ 23" using xf by (simp_all add: e_def m_def)
      then show ?thesis using ex(4,5) by simp
    next
      case False
      then have "2 ^ 23 \<le> m" "m < 2 ^ Suc 23" using xf by (simp_all add: m_def)
      then have "bitlen m = 24" using bitlen_unique [of 23 m] by simp
      then show ?thesis using ex(5) e(1) by simp
    qed
    moreover have "(e + 149) * 2 ^ 23 + m \<le> 255 * 2 ^ 23" using xf by (simp add: m_def e_def max_def split: if_splits)
    ultimately show ?thesis using encode32_exact [OF ex(2,3), of e] ex(4,5) b by (simp add: encode32_def)
  qed
qed

lemma uint_field: "uint (w :: 'a::len word) div 2 ^ i mod 2 ^ j = uint (take_bit j (drop_bit i w))"
proof -
  have "take_bit LENGTH('a) (uint w) = uint w" by (simp add: take_bit_int_eq_self_iff uint_lt2p)
  then have "uint (take_bit j (drop_bit i w)) = take_bit j (drop_bit i (uint w))" by (simp add: unsigned_take_bit_eq unsigned_drop_bit_eq)
  then show ?thesis by (metis take_bit_eq_mod drop_bit_eq_div)
qed

text \<open>A NaN keeps its payload and becomes quiet.\<close>

lemma narrow_widen_special:
  assumes x: "uint b div 2 ^ 23 mod 2 ^ 8 = 255" and q: "uint b mod 2 ^ 23 = 0 \<or> bit b 22"
  shows "narrow (widen b) = b"
proof (cases "uint b mod 2 ^ 23 = 0")
  case True
  have "encode_float 52 (- 1074) 2047 1 1024 = 2047 * 2 ^ 52" by (simp add: encode_float_def bitlen.simps Let_def)
  then have "widen b = word_of_int (of_bool (bit b 31) * 2 ^ 63 + 2047 * 2 ^ 52)"
    unfolding widen_def Let_def encode64_def using x True by simp
  then have "narrow (widen b) = encode32 (bit b 31) 1 128"
    unfolding narrow_def Let_def using float_parts [of "2047 * 2 ^ 52" "bit b 31"] by simp
  also have "\<dots> = b" using word_parts32 [of b] x True by (simp add: encode32_def encode_float_def bitlen.simps Let_def)
  finally show ?thesis .
next
  case False
  define w :: "64 word" where "w = push_bit 63 (of_bool (bit b 31)) OR push_bit 51 (mask 12) OR push_bit 29 (take_bit 23 (ucast b))"
  have w: "widen b = w" using x False by (simp add: widen_def Let_def w_def)
  have bw: "bit w n \<longleftrightarrow> n = 63 \<and> bit b 31 \<or> 51 \<le> n \<and> n < 63 \<or> 29 \<le> n \<and> n < 52 \<and> bit b (n - 29)" for n
    by (auto simp: w_def bit_simps)
  have "take_bit 11 (drop_bit 52 w) = mask 11" by (rule bit_word_eqI) (auto simp: bit_simps bw)
  then have wx: "uint w div 2 ^ 52 mod 2 ^ 11 = 2047" by (simp only: uint_field) (simp add: mask_eq_exp_minus_1)
  have "bit (take_bit 52 w) 51" by (simp add: bit_simps bw)
  then have "take_bit 52 w \<noteq> 0" by auto
  then have "uint (take_bit 52 w) \<noteq> 0" by (simp only: unsigned_eq_0_iff not_False_eq_True)
  then have wf: "uint w mod 2 ^ 52 \<noteq> 0" using uint_field [of w 0 52] by simp
  have nb: "narrow w = push_bit 31 (of_bool (bit w 63)) OR push_bit 22 (mask 9) OR take_bit 23 (ucast (drop_bit 29 w))"
    unfolding narrow_def Let_def by (simp only: wx wf simp_thms if_True if_False)
  have "uint (take_bit 8 (drop_bit 23 b)) = uint (mask 8 :: 32 word)" using x by (simp add: uint_field [symmetric] mask_eq_exp_minus_1)
  then have "take_bit 8 (drop_bit 23 b) = mask 8" by (rule word_uint_eqI)
  then have bx: "bit b n" if "23 \<le> n" "n < 31" for n
    using that bit_take_bit_iff [of 8 "drop_bit 23 b" "n - 23"] by (simp add: bit_simps) linarith
  show ?thesis
  proof (rule bit_word_eqI)
    fix n assume "n < LENGTH(32)"
    then consider "n < 22" | "n = 22" | "23 \<le> n" "n < 31" | "n = 31" by fastforce
    then show "bit (narrow (widen b)) n = bit b n"
      unfolding w nb using q False bx [of n] by cases (auto simp: bit_simps bw)
  qed
qed

lemma narrow_widen: "\<not> signalling b \<Longrightarrow> narrow (widen b) = b"
proof (cases "uint b div 2 ^ 23 mod 2 ^ 8 = 255")
  case True
  assume "\<not> signalling b"
  moreover have "uint b mod 2 ^ 31 = 255 * 2 ^ 23 + uint b mod 2 ^ 23" using True zmod_zmult2_eq [of "2 ^ 8" "uint b" "2 ^ 23"] by simp
  ultimately have "uint b mod 2 ^ 23 = 0 \<or> bit b 22" by (auto simp: signalling_def)
  with True show ?thesis by (rule narrow_widen_special)
qed (rule narrow_widen_number)

end
