(* ===== verification/Gorounding.thy ===== *)
theory Gorounding
  imports Complex_Main Gofloat
begin

unbundle bit_operations_syntax

section \<open>Order and products of floating-point numbers\<close>

text \<open>
  What configurations use of \<open>float64\<close>: its order and its products, rounded to the nearest number, ties to even.

  Shown: no number is nearer to the exact product than the rounded one, so rounding is monotone; an integer times a
  number between zero and one, truncated to an integer, is less than the integer.
\<close>

subsection \<open>Definitions\<close>

definition mantissa :: "int \<Rightarrow> int" where
  "mantissa V = (if V div 2 ^ 52 = 0 then V mod 2 ^ 52 else 2 ^ 52 + V mod 2 ^ 52)"

definition exponent :: "int \<Rightarrow> int" where
  "exponent V = max (V div 2 ^ 52) 1 - 1075"

definition float64_nan :: "64 word \<Rightarrow> bool" where
  "float64_nan b \<longleftrightarrow> uint b mod 2 ^ 63 > 2047 * 2 ^ 52"

text \<open>Numbers are ordered as their bits are, as numbers with a sign; nothing is ordered with a NaN.\<close>

definition float64_order :: "64 word \<Rightarrow> int" where
  "float64_order b = (if bit b 63 then - (uint b mod 2 ^ 63) else uint b mod 2 ^ 63)"

definition float64_le :: "64 word \<Rightarrow> 64 word \<Rightarrow> bool" where
  "float64_le a b \<longleftrightarrow> \<not> float64_nan a \<and> \<not> float64_nan b \<and> float64_order a \<le> float64_order b"

text \<open>The product; one NaN stands for all NaN results.\<close>

definition float64_mul :: "64 word \<Rightarrow> 64 word \<Rightarrow> 64 word" where
  "float64_mul a b =
     (let s = (bit a 63 \<noteq> bit b 63); A = uint a mod 2 ^ 63; B = uint b mod 2 ^ 63; inf = 2047 * 2 ^ 52
      in if float64_nan a \<or> float64_nan b \<or> (A = inf \<and> B = 0) \<or> (A = 0 \<and> B = inf)
         then word_of_int (inf + 2 ^ 51 + 1)
         else if A = inf \<or> B = inf then encode64 s 1 1024
         else encode64 s (mantissa A * mantissa B) (exponent A + exponent B))"

text \<open>The value of a number without its sign.\<close>

definition fval :: "int \<Rightarrow> rat" where
  "fval V = of_int (mantissa V) * 2 powi exponent V"

subsection \<open>Values\<close>

lemma div_below:
  assumes "(m::int) < c * d" "0 < d"
  shows "m div d < c"
proof (rule ccontr)
  assume "\<not> m div d < c"
  then have "c * d \<le> m div d * d" using assms(2) by (intro mult_right_mono) auto
  with assms div_mult_mod_eq [of m d] pos_mod_sign [of d m] show False by linarith
qed

lemma div_above: "c * d \<le> (m::int) \<Longrightarrow> 0 < d \<Longrightarrow> c \<le> m div d"
  using zdiv_mono1 [of "c * d" m d] by simp

lemma powi_le: "a \<le> b \<Longrightarrow> (2::rat) powi a \<le> 2 powi b"
  by (rule power_int_increasing) simp_all

lemma powi_pos: "0 < (2::rat) powi a"
  by simp

lemma powi_nat: "a \<le> b \<Longrightarrow> (2::rat) powi b = of_int (2 ^ nat (b - a)) * 2 powi a"
  using power_int_add [of "2::rat" "b - a" a] power_int_of_nat [of "2::rat" "nat (b - a)"] by simp

lemma mantissa_bounds:
  assumes "0 \<le> V"
  shows "0 \<le> mantissa V" "mantissa V < 2 ^ 53" "2 ^ 52 \<le> mantissa V \<or> exponent V = - 1074" "- 1074 \<le> exponent V"
proof -
  have "0 \<le> V mod 2 ^ 52" "V mod 2 ^ 52 < 2 ^ 52" "0 \<le> V div 2 ^ 52" using assms by (simp_all add: pos_imp_zdiv_nonneg_iff)
  then show "0 \<le> mantissa V" "mantissa V < 2 ^ 53" "2 ^ 52 \<le> mantissa V \<or> exponent V = - 1074" "- 1074 \<le> exponent V"
    by (auto simp: mantissa_def exponent_def)
qed

lemma fval_next:
  assumes "0 \<le> V"
  shows "fval (V + 1) = fval V + 2 powi exponent V"
proof (cases "V mod 2 ^ 52 = 2 ^ 52 - 1")
  case True
  define x where "x = V div 2 ^ 52"
  have x: "0 \<le> x" using assms by (simp add: x_def pos_imp_zdiv_nonneg_iff)
  have V: "V = x * 2 ^ 52 + (2 ^ 52 - 1)" unfolding x_def using True div_mult_mod_eq [of V "2 ^ 52"] by linarith
  then have "V + 1 = (x + 1) * 2 ^ 52" by simp
  then have "(V + 1) div 2 ^ 52 = x + 1" "(V + 1) mod 2 ^ 52 = 0" by simp_all
  then have next': "mantissa (V + 1) = 2 ^ 52" "exponent (V + 1) = x - 1074"
    using x by (simp_all add: mantissa_def exponent_def)
  show ?thesis
  proof (cases "x = 0")
    case True
    with \<open>V mod 2 ^ 52 = 2 ^ 52 - 1\<close> have "mantissa V = 2 ^ 52 - 1" "exponent V = - 1074"
      by (simp_all add: mantissa_def exponent_def x_def)
    with next' True show ?thesis by (simp add: fval_def algebra_simps)
  next
    case False
    with \<open>V mod 2 ^ 52 = 2 ^ 52 - 1\<close> x have "mantissa V = 2 ^ 53 - 1" "exponent V = x - 1075"
      by (simp_all add: mantissa_def exponent_def x_def)
    with next' powi_nat [of "x - 1075" "x - 1074"] show ?thesis by (simp add: fval_def)
  qed
next
  case False
  define x r where "x = V div 2 ^ 52" and "r = V mod 2 ^ 52"
  have V: "V = x * 2 ^ 52 + r" unfolding x_def r_def by simp
  have r: "0 \<le> r" "r + 1 < 2 ^ 52" using False pos_mod_bound [of "2 ^ 52" V] by (auto simp: r_def)
  have "V + 1 = x * 2 ^ 52 + (r + 1)" using V by simp
  then have "(V + 1) div 2 ^ 52 = x" "(V + 1) mod 2 ^ 52 = r + 1"
    using r by (auto intro: int_div_pos_eq [where r = "r + 1"] int_mod_pos_eq [where q = x])
  then have "mantissa (V + 1) = mantissa V + 1" "exponent (V + 1) = exponent V"
    by (simp_all add: mantissa_def exponent_def x_def r_def)
  then show ?thesis by (simp add: fval_def algebra_simps)
qed

lemma fval_less: "V < W \<Longrightarrow> 0 \<le> V \<Longrightarrow> fval V < fval W"
proof (induction W rule: int_gr_induct)
  case base
  then show ?case using fval_next [of V] powi_pos [of "exponent V"] by simp
next
  case (step W)
  then show ?case using fval_next [of W] powi_pos [of "exponent W"] by (simp del: zero_less_power_int)
qed

lemma fval_le_iff: "0 \<le> V \<Longrightarrow> 0 \<le> W \<Longrightarrow> fval V \<le> fval W \<longleftrightarrow> V \<le> W"
  using fval_less [of V W] fval_less [of W V] by (cases V W rule: linorder_cases) auto

subsection \<open>Rounding\<close>

text \<open>The result of rounding \<open>m * 2 ^ e\<close>: a multiple of \<open>2 ^ grid\<close>.\<close>

definition grid :: "int \<Rightarrow> int \<Rightarrow> int" where
  "grid m e = max (e + bitlen m - 53) (- 1074)"

definition scaled :: "int \<Rightarrow> int \<Rightarrow> int" where
  "scaled m e = (if grid m e \<le> e then m * 2 ^ nat (e - grid m e) else round_even m (nat (grid m e - e)))"

definition rounded :: "int \<Rightarrow> int \<Rightarrow> int" where
  "rounded m e = (grid m e + 1074) * 2 ^ 52 + scaled m e"

lemma encode_rounded: "m \<noteq> 0 \<Longrightarrow> encode_float 52 (- 1074) 2047 m e = min (rounded m e) (2047 * 2 ^ 52)"
  by (simp add: encode_float_def rounded_def scaled_def grid_def Let_def)

lemma round_even_nearest:
  "\<bar>round_even m k * 2 ^ k - m\<bar> \<le> \<bar>n * 2 ^ k - m\<bar>"
proof -
  define q r where "q = m div 2 ^ k" and "r = m mod 2 ^ k"
  have m: "m = q * 2 ^ k + r" unfolding q_def r_def by (rule div_mult_mod_eq [symmetric])
  have r: "0 \<le> r" "r < 2 ^ k" by (simp_all add: r_def)
  have below: "r \<le> \<bar>n * 2 ^ k - m\<bar>" if "n \<le> q"
  proof -
    have "n * 2 ^ k \<le> q * 2 ^ k" using that by simp
    with m show ?thesis by linarith
  qed
  have above: "2 ^ k - r \<le> \<bar>n * 2 ^ k - m\<bar>" if "q < n"
  proof -
    have "(q + 1) * 2 ^ k \<le> n * 2 ^ k" using that by (intro mult_right_mono) auto
    with m show ?thesis by (simp add: algebra_simps)
  qed
  have down: "\<bar>q * 2 ^ k - m\<bar> = r" and up: "\<bar>(q + 1) * 2 ^ k - m\<bar> = 2 ^ k - r"
    using m r by (simp_all add: algebra_simps)
  show ?thesis
  proof (cases "2 * r > 2 ^ k \<or> (2 * r = 2 ^ k \<and> odd q)")
    case True
    then have "round_even m k = q + 1" by (simp add: round_even_def q_def r_def Let_def)
    with up True below above show ?thesis by (cases "n \<le> q") auto
  next
    case False
    then have "round_even m k = q" by (auto simp: round_even_def q_def r_def Let_def)
    with down False below above show ?thesis by (cases "n \<le> q") auto
  qed
qed

lemma scaled_nearest:
  "\<bar>of_int (scaled m e) * 2 powi grid m e - of_int m * 2 powi e\<bar> \<le> \<bar>of_int n * 2 powi grid m e - of_int m * (2::rat) powi e\<bar>"
proof (cases "grid m e \<le> e")
  case True
  then show ?thesis using powi_nat [OF True] by (simp add: scaled_def)
next
  case False
  let ?k = "nat (grid m e - e)"
  have g: "(2::rat) powi grid m e = of_int (2 ^ ?k) * 2 powi e" using False by (intro powi_nat) simp
  have scale: "of_int i * 2 powi grid m e - of_int m * 2 powi e = of_int (i * 2 ^ ?k - m) * (2::rat) powi e" for i
    unfolding g by (simp add: algebra_simps)
  have "\<bar>round_even m ?k * 2 ^ ?k - m\<bar> \<le> \<bar>n * 2 ^ ?k - m\<bar>" by (rule round_even_nearest)
  then have "\<bar>of_int (round_even m ?k * 2 ^ ?k - m) :: rat\<bar> \<le> \<bar>of_int (n * 2 ^ ?k - m)\<bar>"
    unfolding of_int_abs [symmetric] of_int_le_iff .
  then have "\<bar>of_int (round_even m ?k * 2 ^ ?k - m) * (2::rat) powi e\<bar> \<le> \<bar>of_int (n * 2 ^ ?k - m) * 2 powi e\<bar>"
    unfolding abs_mult by (intro mult_right_mono) simp_all
  with False show ?thesis unfolding scale by (simp add: scaled_def)
qed

lemma scaled_bounds:
  assumes "0 < m"
  shows "0 \<le> scaled m e \<and> scaled m e \<le> 2 ^ 53 \<and> (grid m e = - 1074 \<or> 2 ^ 52 \<le> scaled m e)"
proof -
  define t b where "t = grid m e" and "b = bitlen m"
  have b: "0 < b" "2 ^ nat (b - 1) \<le> m" "m < 2 ^ nat b" using bitlen_bounds [OF assms] by (auto simp: b_def)
  have t: "e + b - 53 \<le> t" "t = - 1074 \<or> t = e + b - 53" by (auto simp: t_def b_def grid_def)
  show ?thesis
  proof (cases "t \<le> e")
    case True
    then have q: "scaled m e = m * 2 ^ nat (e - t)" by (simp add: scaled_def t_def)
    have "m * 2 ^ nat (e - t) \<le> 2 ^ nat b * 2 ^ nat (e - t)" using b(3) by (intro mult_right_mono) auto
    also have "\<dots> = 2 ^ nat (b + (e - t))" using b(1) True by (simp add: nat_add_distrib power_add)
    also have "\<dots> \<le> 2 ^ 53" using t(1) by (intro power_increasing) auto
    finally have "scaled m e \<le> 2 ^ 53" by (simp add: q)
    moreover have "2 ^ 52 \<le> scaled m e" if "t = e + b - 53"
    proof -
      have "(2::int) ^ 52 = 2 ^ nat (b - 1) * 2 ^ nat (e - t)"
        using that b(1) True by (simp add: power_add [symmetric] nat_add_distrib [symmetric])
      also have "\<dots> \<le> m * 2 ^ nat (e - t)" using b(2) by (intro mult_right_mono) auto
      finally show ?thesis by (simp add: q)
    qed
    ultimately show ?thesis using t(2) assms q by (auto simp: t_def)
  next
    case False
    let ?k = "nat (t - e)"
    have q: "scaled m e = round_even m ?k" using False by (simp add: scaled_def t_def)
    have two: "m div 2 ^ ?k \<le> round_even m ?k" "round_even m ?k \<le> m div 2 ^ ?k + 1"
      by (simp_all add: round_even_def Let_def)
    have "m < 2 ^ nat b" by (rule b(3))
    also have "\<dots> \<le> 2 ^ (53 + ?k)" using t(1) False by (intro power_increasing) auto
    finally have "m < 2 ^ 53 * 2 ^ ?k" by (simp add: power_add)
    then have "m div 2 ^ ?k < 2 ^ 53" by (rule div_below) simp
    with two have "scaled m e \<le> 2 ^ 53" by (simp add: q)
    moreover have "0 \<le> m div 2 ^ ?k" using assms by (simp add: pos_imp_zdiv_nonneg_iff)
    moreover have "2 ^ 52 \<le> scaled m e" if "t = e + b - 53"
    proof -
      have "52 + ?k = nat (b - 1)" using that b(1) False by linarith
      then have "(2::int) ^ 52 * 2 ^ ?k = 2 ^ nat (b - 1)" by (simp only: power_add [symmetric])
      with b(2) have "2 ^ 52 * 2 ^ ?k \<le> m" by simp
      then have "2 ^ 52 \<le> m div 2 ^ ?k" by (rule div_above) simp
      with two(1) show ?thesis by (simp add: q)
    qed
    ultimately show ?thesis using t(2) two(1) by (auto simp: t_def q)
  qed
qed

lemma fval_at:
  assumes "- 1074 \<le> t" "0 \<le> q" "q \<le> 2 ^ 53" "t = - 1074 \<or> 2 ^ 52 \<le> q"
  shows "fval ((t + 1074) * 2 ^ 52 + q) = of_int q * 2 powi t"
proof -
  define V where "V = (t + 1074) * 2 ^ 52 + q"
  consider "q < 2 ^ 52" "t = - 1074" | "2 ^ 52 \<le> q" "q < 2 ^ 53" | "q = 2 ^ 53" using assms by force
  then show ?thesis
  proof cases
    case 1
    then have "V div 2 ^ 52 = 0" "V mod 2 ^ 52 = q" using assms(2) by (simp_all add: V_def)
    with 1 have "mantissa V = q" "exponent V = t" by (simp_all add: mantissa_def exponent_def)
    then show ?thesis by (simp add: fval_def V_def)
  next
    case 2
    then have "V = (t + 1075) * 2 ^ 52 + (q - 2 ^ 52)" "0 \<le> q - 2 ^ 52" "q - 2 ^ 52 < 2 ^ 52" by (simp_all add: V_def)
    then have "V div 2 ^ 52 = t + 1075" "V mod 2 ^ 52 = q - 2 ^ 52"
      by (auto intro: int_div_pos_eq [where r = "q - 2 ^ 52"] int_mod_pos_eq [where q = "t + 1075"])
    with assms(1) have "mantissa V = q" "exponent V = t" by (simp_all add: mantissa_def exponent_def)
    then show ?thesis by (simp add: fval_def V_def)
  next
    case 3
    then have "V = (t + 1076) * 2 ^ 52" by (simp add: V_def)
    then have "V div 2 ^ 52 = t + 1076" "V mod 2 ^ 52 = 0" by simp_all
    with assms(1) have "mantissa V = 2 ^ 52" "exponent V = t + 1" by (simp_all add: mantissa_def exponent_def)
    with 3 powi_nat [of t "t + 1"] show ?thesis by (simp add: fval_def V_def)
  qed
qed

lemma rounded_value:
  assumes "0 < m"
  shows "0 \<le> rounded m e" "fval (rounded m e) = of_int (scaled m e) * 2 powi grid m e"
proof -
  have g: "- 1074 \<le> grid m e" by (simp add: grid_def)
  with scaled_bounds [OF assms, of e] show "0 \<le> rounded m e" by (simp add: rounded_def)
  from scaled_bounds [OF assms, of e] g show "fval (rounded m e) = of_int (scaled m e) * 2 powi grid m e"
    unfolding rounded_def by (intro fval_at) auto
qed

text \<open>No number is nearer to the exact value than the rounded one.\<close>

lemma rounded_nearest:
  assumes "0 < m" "0 \<le> W"
  shows "\<bar>fval (rounded m e) - of_int m * 2 powi e\<bar> \<le> \<bar>fval W - of_int m * 2 powi e\<bar>"
proof (cases "grid m e \<le> exponent W")
  case True
  then have "fval W = of_int (mantissa W * 2 ^ nat (exponent W - grid m e)) * 2 powi grid m e"
    using powi_nat [OF True] by (simp add: fval_def)
  then show ?thesis unfolding rounded_value [OF assms(1)] using scaled_nearest by metis
next
  case False
  let ?x = "of_int m * (2::rat) powi e" and ?t = "grid m e"
  have t: "?t = e + bitlen m - 53" using False mantissa_bounds(4) [OF assms(2)] by (auto simp: grid_def max_def split: if_splits)
  have b: "0 < bitlen m" "2 ^ nat (bitlen m - 1) \<le> m" using bitlen_bounds [OF assms(1)] by auto
  have "(2::rat) powi (52 + ?t) = of_int (2 ^ nat (bitlen m - 1)) * 2 powi e"
    using powi_nat [of e "52 + ?t"] b(1) t by simp
  also have "\<dots> \<le> ?x" using b(2) by (intro mult_right_mono) (simp_all del: of_int_power)
  finally have x: "2 powi (52 + ?t) \<le> ?x" .
  have "fval W \<le> 2 ^ 53 * 2 powi exponent W"
    unfolding fval_def using mantissa_bounds(2) [OF assms(2)] by (intro mult_right_mono) simp_all
  also have "\<dots> = 2 powi (53 + exponent W)" by (simp add: power_int_add)
  also have "\<dots> \<le> 2 powi (52 + ?t)" using False by (intro powi_le) simp
  finally have W: "fval W \<le> 2 powi (52 + ?t)" .
  have "\<bar>fval (rounded m e) - ?x\<bar> \<le> \<bar>of_int (2 ^ 52) * 2 powi ?t - ?x\<bar>"
    unfolding rounded_value [OF assms(1)] by (rule scaled_nearest)
  also have "of_int (2 ^ 52) * (2::rat) powi ?t = 2 powi (52 + ?t)" by (simp add: power_int_add)
  finally show ?thesis using x W by linarith
qed

lemma rounded_le:
  assumes "0 < m" "0 \<le> W" "of_int m * 2 powi e \<le> fval W"
  shows "rounded m e \<le> W"
  using rounded_nearest [OF assms(1,2), of e] fval_less [OF _ assms(2), of "rounded m e"] assms(3) by linarith

lemma rounded_ge:
  assumes "0 < m" "0 \<le> W" "fval W \<le> of_int m * 2 powi e"
  shows "W \<le> rounded m e"
  using rounded_nearest [OF assms(1,2), of e] fval_less [of "rounded m e" W] rounded_value(1) [OF assms(1), of e] assms(3)
  by linarith

lemma rounded_mono:
  assumes "0 < m" "0 < n" "of_int m * 2 powi e < of_int n * (2::rat) powi f"
  shows "rounded m e \<le> rounded n f"
proof (rule ccontr)
  assume "\<not> rounded m e \<le> rounded n f"
  then have "fval (rounded n f) < fval (rounded m e)"
    using rounded_value(1) [OF assms(2), of f] by (intro fval_less) simp_all
  with rounded_nearest [OF assms(1) rounded_value(1) [OF assms(2)], of e f]
    rounded_nearest [OF assms(2) rounded_value(1) [OF assms(1)], of f e] assms(3)
  show False by linarith
qed

text \<open>A product with a factor of at most \<open>1 - 2 ^ -53\<close>, the number before one, is below the other factor.\<close>

lemma rounded_below:
  assumes "0 < m" "2 ^ 52 < W" "of_int m * 2 powi e \<le> fval W - fval W / 2 ^ 53"
  shows "rounded m e < W"
proof (rule ccontr)
  assume "\<not> rounded m e < W"
  then have "fval W \<le> fval (rounded m e)" using assms(2) fval_le_iff [of W "rounded m e"] by simp
  moreover have "\<bar>fval (rounded m e) - of_int m * 2 powi e\<bar> \<le> \<bar>fval (W - 1) - of_int m * 2 powi e\<bar>"
    using assms(2) by (intro rounded_nearest [OF assms(1)]) simp
  moreover have W: "fval W = fval (W - 1) + 2 powi exponent (W - 1)" using fval_next [of "W - 1"] assms(2) by simp
  moreover have pos: "0 < (2::rat) powi exponent (W - 1)" by (rule powi_pos)
  ultimately have "fval W / 2 ^ 53 \<le> 2 powi exponent (W - 1) / 2" using assms(3) by linarith
  moreover have "2 ^ 52 \<le> mantissa (W - 1)"
  proof -
    have "1 \<le> (W - 1) div 2 ^ 52" using assms(2) zdiv_mono1 [of "2 ^ 52" "W - 1" "2 ^ 52"] by simp
    then show ?thesis by (simp add: mantissa_def)
  qed
  then have "2 ^ 52 * 2 powi exponent (W - 1) \<le> fval (W - 1)"
    unfolding fval_def by (intro mult_right_mono) simp_all
  ultimately show False using W pos by simp
qed

lemma fval_powi:
  assumes "- 1022 \<le> k"
  shows "fval ((k + 1023) * 2 ^ 52) = 2 powi k"
  using fval_at [of "k - 52" "2 ^ 52"] assms power_int_add [of "2::rat" "k - 52" 52] by (simp add: algebra_simps)

lemma trunc_fval:
  assumes "0 \<le> V" "V < 2047 * 2 ^ 52" "fval V < 2 ^ 63"
  shows "sint (int_of_float unfit True (word_of_int V)) = \<lfloor>fval V\<rfloor>"
proof -
  have V: "V < 2 ^ 63" using assms(2) by simp
  note parts = float_parts [of V False, OF assms(1) V, unfolded of_bool_eq mult_zero_left add_0]
  define mag where "mag = (if exponent V \<ge> 0 then mantissa V * 2 ^ nat (exponent V) else mantissa V div 2 ^ nat (- exponent V))"
  have "\<lfloor>fval V\<rfloor> = mag"
  proof (cases "0 \<le> exponent V")
    case True
    then have "fval V = of_int mag" using powi_nat [OF True] by (simp add: fval_def mag_def)
    then show ?thesis by simp
  next
    case False
    then have "(1::rat) = of_int (2 ^ nat (- exponent V)) * 2 powi exponent V" using powi_nat [of "exponent V" 0] by simp
    then have "fval V = of_int (mantissa V) / of_int (2 ^ nat (- exponent V))" by (simp add: fval_def field_simps)
    then show ?thesis using False by (simp only: floor_divide_of_int_eq mag_def if_False)
  qed
  moreover have "0 \<le> fval V" unfolding fval_def using mantissa_bounds(1) [OF assms(1)] by simp
  then have "0 \<le> \<lfloor>fval V\<rfloor>" "\<lfloor>fval V\<rfloor> < 2 ^ 63" using assms(3) by (simp_all add: floor_less_iff)
  moreover have "V div 2 ^ 52 < 2047" by (rule div_below) (use assms(2) in simp_all)
  moreover have "int_of_float unfit True (word_of_int V) =
      (if V div 2 ^ 52 = 2047 \<or> mag < - (2 ^ 63) \<or> mag \<ge> 2 ^ 63 then unfit (word_of_int V) else word_of_int mag)"
    unfolding int_of_float_def Let_def parts mantissa_def [symmetric] exponent_def [symmetric] mag_def [symmetric]
    by (simp only: if_True if_False)
  ultimately have "int_of_float unfit True (word_of_int V) = word_of_int \<lfloor>fval V\<rfloor>" by simp
  with \<open>0 \<le> \<lfloor>fval V\<rfloor>\<close> \<open>\<lfloor>fval V\<rfloor> < 2 ^ 63\<close> show ?thesis by (simp add: signed_of_int signed_take_bit_int_eq_self)
qed

subsection \<open>Fractions of integers\<close>

lemma positive_bits:
  assumes "0 < float64_order b"
  shows "\<not> bit b 63" "uint b mod 2 ^ 63 = float64_order b"
  using assms by (auto simp: float64_order_def split: if_splits)

lemma uint_bits:
  assumes "0 \<le> V" "V < 2 ^ 63"
  shows "\<not> bit (word_of_int V :: 64 word) 63" "uint (word_of_int V :: 64 word) mod 2 ^ 63 = V"
proof -
  show "\<not> bit (word_of_int V :: 64 word) 63"
    using float_parts(1) [of V False, OF assms, unfolded of_bool_eq mult_zero_left add_0] by simp
  show "uint (word_of_int V :: 64 word) mod 2 ^ 63 = V" using assms by (simp add: uint_word_of_int)
qed

text \<open>An integer as a number: between one and \<open>2 ^ 63\<close>, and the number before it is less than the integer.\<close>

lemma float_of_positive:
  assumes "0 < n" "n < 2 ^ 63"
  shows "float_of_int (word_of_int n) = word_of_int (rounded n 0)" "1023 * 2 ^ 52 \<le> rounded n 0" "rounded n 0 \<le> 1086 * 2 ^ 52"
    "fval (rounded n 0 - 1) < of_int n"
proof -
  have one: "fval (1023 * 2 ^ 52) = 1" using fval_powi [of 0] by simp
  have big: "fval (1086 * 2 ^ 52) = 2 ^ 63" using fval_powi [of 63] by simp
  show lo: "1023 * 2 ^ 52 \<le> rounded n 0" by (rule rounded_ge) (use assms one in simp_all)
  have "(of_int n :: rat) \<le> 2 ^ 63" using assms(2) by (simp add: of_int_le_iff [of n "2 ^ 63", where 'a = rat, symmetric] del: of_int_le_iff)
  with big show hi: "rounded n 0 \<le> 1086 * 2 ^ 52" by (intro rounded_le) (use assms(1) in simp_all)
  have "sint (word_of_int n :: 64 word) = n" using assms by (simp add: signed_of_int signed_take_bit_int_eq_self)
  moreover have "min (rounded n 0) (2047 * 2 ^ 52) = rounded n 0" using hi by simp
  ultimately show "float_of_int (word_of_int n) = word_of_int (rounded n 0)"
    using assms(1) by (simp only: float_of_int_def encode64_def encode_rounded) (simp add: encode_rounded)
  show "fval (rounded n 0 - 1) < of_int n"
  proof (rule ccontr)
    assume "\<not> fval (rounded n 0 - 1) < of_int n"
    moreover have "fval (rounded n 0 - 1) < fval (rounded n 0)" using lo by (intro fval_less) simp_all
    moreover have "\<bar>fval (rounded n 0) - of_int n\<bar> \<le> \<bar>fval (rounded n 0 - 1) - of_int n\<bar>"
      using rounded_nearest [of n "rounded n 0 - 1" 0] assms(1) lo by simp
    ultimately show False by linarith
  qed
qed

text \<open>An integer times a number between zero and one, truncated: what is left is less than the integer.\<close>

definition fraction_bits :: "int \<Rightarrow> 64 word \<Rightarrow> int" where
  "fraction_bits n f = rounded (mantissa (rounded n 0) * mantissa (float64_order f))
     (exponent (rounded n 0) + exponent (float64_order f))"

lemma fraction_exact:
  "of_int (mantissa V * mantissa W) * 2 powi (exponent V + exponent W) = fval V * fval W"
  by (simp add: fval_def power_int_add)

lemma fval_fraction:
  assumes "0 < F" "F < 1023 * 2 ^ 52"
  shows "0 < mantissa F" "0 < fval F" "fval F \<le> 1 - 1 / 2 ^ 53"
proof -
  have "fval 0 < fval F" by (rule fval_less) (use assms(1) in simp_all)
  then show "0 < fval F" by (simp add: fval_def mantissa_def)
  then show "0 < mantissa F" using mantissa_bounds(1) [of F] assms(1) by (cases "mantissa F = 0") (simp_all add: fval_def)
  have "(1023 * 2 ^ 52 - 1) div 2 ^ 52 = (1022::int)" by simp
  then have "exponent (1023 * 2 ^ 52 - 1) = - 53" by (simp add: exponent_def)
  then have "fval (1023 * 2 ^ 52 - 1) = 1 - 1 / 2 ^ 53"
    using fval_next [of "1023 * 2 ^ 52 - 1"] fval_powi [of 0] by (simp add: power_int_def field_simps)
  moreover have "fval F \<le> fval (1023 * 2 ^ 52 - 1)" using fval_le_iff [of F "1023 * 2 ^ 52 - 1"] assms by simp
  ultimately show "fval F \<le> 1 - 1 / 2 ^ 53" by simp
qed

lemma fraction_of:
  assumes n: "0 < n" "n < 2 ^ 63" and f: "0 < float64_order f" "float64_order f < 1023 * 2 ^ 52"
  shows "0 < mantissa (rounded n 0) * mantissa (float64_order f)"
    "0 \<le> fraction_bits n f" "fval (fraction_bits n f) < of_int n"
    "sint (int_of_float unfit True (float64_mul (float_of_int (word_of_int n)) f)) = \<lfloor>fval (fraction_bits n f)\<rfloor>"
proof -
  define V F where "V = rounded n 0" and "F = float64_order f"
  note V = float_of_positive [OF n, folded V_def]
  have F: "0 < F" "F < 1023 * 2 ^ 52" using f by (simp_all add: F_def)
  have "2 ^ 52 \<le> mantissa V" using V(2) div_above [of 1 "2 ^ 52" V] by (simp add: mantissa_def)
  then have "0 < mantissa V" by simp
  then show m: "0 < mantissa V * mantissa F" using fval_fraction(1) [OF F] by simp
  have "fval V * fval F \<le> fval V * (1 - 1 / 2 ^ 53)"
    using fval_fraction(3) [OF F] fval_less [of 0 V] V(2) by (intro mult_left_mono) (simp_all add: fval_def mantissa_def)
  then have "of_int (mantissa V * mantissa F) * 2 powi (exponent V + exponent F) \<le> fval V - fval V / 2 ^ 53"
    unfolding fraction_exact by (simp add: algebra_simps)
  then have "fraction_bits n f < V"
    unfolding fraction_bits_def V_def [symmetric] F_def [symmetric]
    by (intro rounded_below [OF m]) (use V(2) in simp_all)
  moreover show R: "0 \<le> fraction_bits n f" using rounded_value(1) [OF m] by (simp add: fraction_bits_def V_def F_def)
  ultimately show less: "fval (fraction_bits n f) < of_int n"
    using fval_le_iff [of "fraction_bits n f" "V - 1"] V(2,4) by simp
  have "fraction_bits n f < 2047 * 2 ^ 52" "fraction_bits n f < 2 ^ 63" using \<open>fraction_bits n f < V\<close> V(3) by simp_all
  then have "encode_float 52 (- 1074) 2047 (mantissa V * mantissa F) (exponent V + exponent F) = fraction_bits n f"
    using encode_rounded [OF less_imp_neq [OF m, symmetric]] by (simp add: fraction_bits_def V_def F_def)
  moreover have "\<not> bit (word_of_int V :: 64 word) 63" "uint (word_of_int V :: 64 word) mod 2 ^ 63 = V"
    using uint_bits [of V] V(2,3) by simp_all
  moreover note positive_bits [OF f(1), folded F_def]
  ultimately have "float64_mul (word_of_int V) f = word_of_int (fraction_bits n f)"
    unfolding float64_mul_def Let_def float64_nan_def encode64_def using V(2,3) F by simp
  moreover have "fval (fraction_bits n f) < 2 ^ 63"
  proof -
    have "(of_int n :: rat) \<le> of_int (2 ^ 63)" using n(2) by (intro of_int_le_iff [THEN iffD2]) simp
    with less show ?thesis by simp
  qed
  ultimately show "sint (int_of_float unfit True (float64_mul (float_of_int (word_of_int n)) f)) = \<lfloor>fval (fraction_bits n f)\<rfloor>"
    using trunc_fval [OF R \<open>fraction_bits n f < 2047 * 2 ^ 52\<close>] V(1) by simp
qed

lemma fraction_mono:
  assumes "0 < n" "n < 2 ^ 63" "0 < float64_order f" "float64_order f < float64_order g" "float64_order g < 1023 * 2 ^ 52"
  shows "fval (fraction_bits n f) \<le> fval (fraction_bits n g)"
proof -
  have f: "0 < float64_order f" "float64_order f < 1023 * 2 ^ 52" and g: "0 < float64_order g" "float64_order g < 1023 * 2 ^ 52"
    using assms by simp_all
  note m = fraction_of [OF assms(1,2) f] fraction_of [OF assms(1,2) g]
  have "fval 0 < fval (rounded n 0)" using float_of_positive(2) [OF assms(1,2)] by (intro fval_less) simp_all
  then have "0 < fval (rounded n 0)" by (simp add: fval_def mantissa_def)
  moreover have "fval (float64_order f) < fval (float64_order g)" using assms(3,4) by (intro fval_less) simp_all
  ultimately have "fraction_bits n f \<le> fraction_bits n g"
    unfolding fraction_bits_def by (intro rounded_mono m) (simp_all only: fraction_exact mult_strict_left_mono)
  then show ?thesis using fval_le_iff m(2,6) by simp
qed

text \<open>An integer of at most 53 bits is a number, and its product with a factor is at least one when the exact one is.\<close>

lemma fraction_at_least_one:
  assumes "0 < n" "n < 2 ^ 53" "0 < float64_order f" "float64_order f < 1023 * 2 ^ 52" "1 \<le> of_int n * fval (float64_order f)"
  shows "1 \<le> fval (fraction_bits n f)"
proof -
  have n: "n < 2 ^ 63" using assms(2) by simp
  note m = fraction_of [OF assms(1) n assms(3,4)]
  have "bitlen n \<le> 53"
  proof (rule ccontr)
    assume "\<not> bitlen n \<le> 53"
    then have "(2::int) ^ 53 \<le> 2 ^ nat (bitlen n - 1)" by (intro power_increasing) simp_all
    with bitlen_bounds [OF assms(1)] assms(2) show False by simp
  qed
  then have "grid n 0 \<le> 0" by (simp add: grid_def)
  then have "fval (rounded n 0) = of_int n"
    using rounded_value(2) [OF assms(1), of 0] powi_nat [of "grid n 0" 0] by (simp add: scaled_def)
  then have "fval (1023 * 2 ^ 52) \<le> fval (rounded n 0) * fval (float64_order f)" using assms(5) fval_powi [of 0] by simp
  then have "1023 * 2 ^ 52 \<le> fraction_bits n f"
    unfolding fraction_bits_def by (intro rounded_ge m) (simp_all only: fraction_exact zero_le_numeral zero_le_power mult_nonneg_nonneg)
  then show ?thesis using fval_le_iff [of "1023 * 2 ^ 52" "fraction_bits n f"] fval_powi [of 0] by simp
qed

end
