(* ===== verification/Leaderelect.thy ===== *)
theory Leaderelect
  imports Distlock Gorounding
begin

section \<open>Leader election (\<open>src/internal/leaderelect/leaderelect.go\<close>)\<close>

text \<open>
  Several electors compete for one lock of a shared lock manager. An elector touches the shared
  state only through the calls of \<open>LockBackend\<close>; between two of them it works on its own fields.
  A handler is therefore cut at its backend calls: the definitions below are the local pieces,
  each applied to the answer of the call before it, and the system at the end of the theory
  interleaves the calls and the pieces of all electors, \<open>Resign\<close> and \<open>Stop\<close> running beside the
  loop of the same elector, with time passing in between.

  \<open>lock_backend\<close> is the contract of the interface \<open>LockBackend\<close>, interpreted on the lock manager.
\<close>

subsection \<open>Data\<close>

datatype elect_error =
    ErrElectorStopped | ErrElectorRunning | ErrInvalidConfig string | ErrEmptyNodeID
  | ErrEmptyElectionKey | ErrBackend lock_error

datatype NodeRole = RoleFollower | RoleCandidate | RoleLeader

fun role_String :: "NodeRole \<Rightarrow> string" where
  "role_String RoleFollower = ''follower''"
| "role_String RoleCandidate = ''candidate''"
| "role_String RoleLeader = ''leader''"

datatype ElectionEventType =
    EventBecomeLeader | EventBecomeFollower | EventElectionStart | EventElectionEnd
  | EventHeartbeat | EventLeaderLost

fun event_String :: "ElectionEventType \<Rightarrow> string" where
  "event_String EventBecomeLeader = ''become_leader''"
| "event_String EventBecomeFollower = ''become_follower''"
| "event_String EventElectionStart = ''election_start''"
| "event_String EventElectionEnd = ''election_end''"
| "event_String EventHeartbeat = ''heartbeat''"
| "event_String EventLeaderLost = ''leader_lost''"

record ElectionEvent =
  evType :: ElectionEventType
  evNodeID :: string
  evRole :: NodeRole
  evLeaderID :: string
  evTerm :: int

text \<open>
  A duration is an integer number of nanoseconds, a factor the bits of a \<open>float64\<close>. A product that does not fit into an
  \<open>int64\<close>, as that with a NaN, is converted as the implementation likes, which is the argument \<open>unfit\<close>.
\<close>

record Config =
  LeaseDuration :: int
  HeartbeatFactor :: "64 word"
  CheckFactor :: "64 word"

abbreviation (input) one64 :: "64 word" where
  "one64 \<equiv> 0x3FF0000000000000"

definition DefaultConfig :: Config where
  "DefaultConfig =
     \<lparr>LeaseDuration = 5000000000, HeartbeatFactor = 0x3FD3333333333333, CheckFactor = 0x3FE0000000000000\<rparr>"

definition Validate :: "Config \<Rightarrow> elect_error option" where
  "Validate c =
     (if LeaseDuration c \<le> 0
      then Some (ErrInvalidConfig ''lease duration must be positive'')
      else if float64_le (HeartbeatFactor c) 0 \<or> float64_le one64 (HeartbeatFactor c)
      then Some (ErrInvalidConfig ''heartbeat factor must be between 0 and 1'')
      else if float64_le (CheckFactor c) 0 \<or> float64_le one64 (CheckFactor c)
      then Some (ErrInvalidConfig ''check factor must be between 0 and 1'')
      else if float64_le (CheckFactor c) (HeartbeatFactor c)
      then Some (ErrInvalidConfig ''heartbeat factor must be less than check factor'')
      else None)"

definition HeartbeatInterval :: "(64 word \<Rightarrow> 64 word) \<Rightarrow> Config \<Rightarrow> int" where
  "HeartbeatInterval unfit c =
     sint (int_of_float unfit True (float64_mul (float_of_int (word_of_int (LeaseDuration c))) (HeartbeatFactor c)))"

definition CheckInterval :: "(64 word \<Rightarrow> 64 word) \<Rightarrow> Config \<Rightarrow> int" where
  "CheckInterval unfit c =
     sint (int_of_float unfit True (float64_mul (float_of_int (word_of_int (LeaseDuration c))) (CheckFactor c)))"

text \<open>\<open>callbacks\<close> is the number of registered callbacks, \<open>emitted\<close> the events handed to them.\<close>

record LeaderElector =
  nodeID :: string
  electionKey :: string
  ecfg :: Config
  callbacks :: nat
  role :: NodeRole
  eterm :: int
  leaderID :: string
  erunning :: bool
  estopped :: bool
  estopClosed :: bool
  emitted :: "ElectionEvent list"

definition NewLeaderElector ::
    "string \<Rightarrow> string \<Rightarrow> Config \<Rightarrow> bool \<Rightarrow> (elect_error, LeaderElector) result" where
  "NewLeaderElector i k c backendNil =
     (if i = '''' then Inl ErrEmptyNodeID
      else if k = '''' then Inl ErrEmptyElectionKey
      else case Validate c of
             Some err \<Rightarrow> Inl err
           | None \<Rightarrow>
               if backendNil then Inl (ErrInvalidConfig ''backend is nil'')
               else Inr \<lparr>nodeID = i, electionKey = k, ecfg = c, callbacks = 0, role = RoleFollower,
                         eterm = 0, leaderID = '''', erunning = False, estopped = False,
                         estopClosed = False, emitted = []\<rparr>)"

definition RegisterCallback :: "LeaderElector \<Rightarrow> LeaderElector" where
  "RegisterCallback e = e\<lparr>callbacks := callbacks e + 1\<rparr>"

definition notify :: "ElectionEventType \<Rightarrow> LeaderElector \<Rightarrow> LeaderElector" where
  "notify ty e =
     (if callbacks e = 0 then e
      else e\<lparr>emitted := emitted e @ [\<lparr>evType = ty, evNodeID = nodeID e, evRole = role e,
                                      evLeaderID = leaderID e, evTerm = eterm e\<rparr>]\<rparr>)"

subsection \<open>The pieces of the handlers\<close>

definition IsLeader :: "LeaderElector \<Rightarrow> bool" where
  "IsLeader e \<longleftrightarrow> role e = RoleLeader"

definition becomeLeader :: "LeaderElector \<Rightarrow> LeaderElector" where
  "becomeLeader e =
     (let wasLeader = (role e = RoleLeader);
          e1 = e\<lparr>role := RoleLeader, leaderID := nodeID e\<rparr>
      in if \<not> wasLeader then notify EventBecomeLeader (notify EventElectionEnd e1) else e1)"

definition doHeartbeat_ret :: "lock_error option \<Rightarrow> LeaderElector \<Rightarrow> LeaderElector" where
  "doHeartbeat_ret err e =
     (if err \<noteq> None then
        (let wasLeader = (role e = RoleLeader);
             e1 = e\<lparr>role := RoleFollower, leaderID := ''''\<rparr>
         in if wasLeader then notify EventBecomeFollower (notify EventLeaderLost e1) else e1)
      else notify EventHeartbeat e)"

text \<open>The beginning of \<open>startElection\<close>, up to its call of \<open>TryLock\<close>; the flag says whether it gets there.\<close>

definition startElection_begin :: "LeaderElector \<Rightarrow> bool \<times> LeaderElector" where
  "startElection_begin e =
     (if role e = RoleLeader then (False, e)
      else (True, notify EventElectionStart (e\<lparr>role := RoleCandidate, eterm := eterm e + 1\<rparr>)))"

text \<open>After \<open>TryLock\<close>; the flag says whether \<open>GetHolder\<close> is called next.\<close>

definition startElection_tried :: "(lock_error, bool) result \<Rightarrow> LeaderElector \<Rightarrow> bool \<times> LeaderElector" where
  "startElection_tried res e =
     (case res of
        Inl err \<Rightarrow> (False, notify EventBecomeFollower (e\<lparr>role := RoleFollower\<rparr>))
      | Inr success \<Rightarrow>
          if success then (False, becomeLeader e)
          else (True, e\<lparr>role := RoleFollower, leaderID := ''''\<rparr>))"

definition startElection_holder ::
    "(lock_error, string \<times> int \<times> int) result \<Rightarrow> LeaderElector \<Rightarrow> LeaderElector" where
  "startElection_holder res e =
     (let e1 = (case res of
                  Inr (holder, _, _) \<Rightarrow> if holder \<noteq> '''' then e\<lparr>leaderID := holder\<rparr> else e
                | Inl _ \<Rightarrow> e)
      in notify EventBecomeFollower (notify EventElectionEnd e1))"

text \<open>After the \<open>GetHolder\<close> of \<open>checkLeader\<close>; the flag says whether \<open>TryLock\<close> is called next.\<close>

definition checkLeader_ret ::
    "(lock_error, string \<times> int \<times> int) result \<Rightarrow> LeaderElector \<Rightarrow> bool \<times> LeaderElector" where
  "checkLeader_ret res e =
     (case res of
        Inl err \<Rightarrow> startElection_begin e
      | Inr (holder, _, _) \<Rightarrow>
          let prevLeader = leaderID e;
              e1 = e\<lparr>leaderID := holder\<rparr>;
              e2 = (if prevLeader \<noteq> holder \<and> holder \<noteq> '''' then notify EventElectionEnd e1 else e1)
          in if IsLeader e2 then (False, e2)
             else if holder = nodeID e2 then (False, becomeLeader e2)
             else (False, e2))"

definition Start_elector :: "LeaderElector \<Rightarrow> elect_error option \<times> LeaderElector" where
  "Start_elector e =
     (if estopped e then (Some ErrElectorStopped, e)
      else if erunning e then (Some ErrElectorRunning, e)
      else (None, e\<lparr>erunning := True, estopClosed := False\<rparr>))"

text \<open>\<open>Resign\<close> up to its call of \<open>Unlock\<close>: \<open>Inr True\<close> when the call is made.\<close>

definition Resign_begin :: "LeaderElector \<Rightarrow> (elect_error, bool) result" where
  "Resign_begin e =
     (if \<not> erunning e then Inl ErrElectorStopped else Inr (role e = RoleLeader))"

definition Resign_ret :: "lock_error option \<Rightarrow> LeaderElector \<Rightarrow> elect_error option \<times> LeaderElector" where
  "Resign_ret err e =
     (case err of
        Some x \<Rightarrow>
          if x \<noteq> ErrLockNotHeld then (Some (ErrBackend x), e)
          else (None, notify EventBecomeFollower (notify EventLeaderLost
                  (e\<lparr>role := RoleFollower, leaderID := ''''\<rparr>)))
      | None \<Rightarrow>
          (None, notify EventBecomeFollower (notify EventLeaderLost
             (e\<lparr>role := RoleFollower, leaderID := ''''\<rparr>))))"

text \<open>\<open>Stop\<close> before and after it waits for the loop; the flags say whether it goes on.\<close>

definition Stop_begin :: "LeaderElector \<Rightarrow> bool \<times> LeaderElector" where
  "Stop_begin e =
     (if estopped e then (False, e)
      else let e1 = e\<lparr>estopped := True\<rparr>
           in (True, if erunning e1 then e1\<lparr>erunning := False, estopClosed := True\<rparr> else e1))"

definition Stop_joined :: "LeaderElector \<Rightarrow> bool \<times> LeaderElector" where
  "Stop_joined e = (role e = RoleLeader, e\<lparr>role := RoleFollower\<rparr>)"

definition Stop_unlocked :: "LeaderElector \<Rightarrow> LeaderElector" where
  "Stop_unlocked e = notify EventBecomeFollower e"

definition Role :: "LeaderElector \<Rightarrow> NodeRole" where "Role e = role e"
definition LeaderID :: "LeaderElector \<Rightarrow> string" where "LeaderID e = leaderID e"
definition Term :: "LeaderElector \<Rightarrow> int" where "Term e = eterm e"
definition NodeID :: "LeaderElector \<Rightarrow> string" where "NodeID e = nodeID e"
definition Running :: "LeaderElector \<Rightarrow> bool" where "Running e = erunning e"

subsection \<open>Calls of the backend\<close>

datatype bcall =
    CallTryLock string int
  | CallHeartbeat string int
  | CallUnlock string
  | CallGetHolder string

datatype banswer =
    AnsTry "(lock_error, bool) result"
  | AnsErr "lock_error option"
  | AnsHolder "(lock_error, string \<times> int \<times> int) result"

text \<open>
  One call by an elector, on the backend and on a ledger of grants kept for the specification only:
  until which instant the backend last promised the lock to an elector that did not release it.
\<close>

fun backend_call ::
    "(string \<Rightarrow> string \<Rightarrow> int \<Rightarrow> int \<Rightarrow> 'b \<Rightarrow> (lock_error, bool) result \<times> 'b) \<Rightarrow>
     (string \<Rightarrow> string \<Rightarrow> int \<Rightarrow> int \<Rightarrow> 'b \<Rightarrow> lock_error option \<times> 'b) \<Rightarrow>
     (string \<Rightarrow> string \<Rightarrow> int \<Rightarrow> 'b \<Rightarrow> lock_error option \<times> 'b) \<Rightarrow>
     (string \<Rightarrow> int \<Rightarrow> 'b \<Rightarrow> (lock_error, string \<times> int \<times> int) result \<times> 'b) \<Rightarrow>
     string \<Rightarrow> bcall \<Rightarrow> int \<Rightarrow> 'b \<times> (string \<rightharpoonup> int) \<Rightarrow> banswer \<times> 'b \<times> (string \<rightharpoonup> int)" where
  "backend_call trl hb unl gh k (CallTryLock a ttl) now (b, g) =
     (let (res, b1) = trl k a ttl now b
      in (AnsTry res, b1, if res = Inr True then g(a \<mapsto> now + ttl) else g))"
| "backend_call trl hb unl gh k (CallHeartbeat a ttl) now (b, g) =
     (let (err, b1) = hb k a ttl now b
      in (AnsErr err, b1, if err = None then g(a \<mapsto> now + ttl) else g))"
| "backend_call trl hb unl gh k (CallUnlock a) now (b, g) =
     (let (err, b1) = unl k a now b
      in (AnsErr err, b1, if err = None then g(a := None) else g))"
| "backend_call trl hb unl gh k (CallGetHolder a) now (b, g) =
     (let (res, b1) = gh k now b
      in (AnsHolder res, b1,
          case res of Inr (holder, _, ttl) \<Rightarrow> if holder = a then g(a \<mapsto> now + ttl) else g | Inl _ \<Rightarrow> g))"

locale lock_backend =
  fixes trl :: "string \<Rightarrow> string \<Rightarrow> int \<Rightarrow> int \<Rightarrow> 'b \<Rightarrow> (lock_error, bool) result \<times> 'b"
    and hb :: "string \<Rightarrow> string \<Rightarrow> int \<Rightarrow> int \<Rightarrow> 'b \<Rightarrow> lock_error option \<times> 'b"
    and unl :: "string \<Rightarrow> string \<Rightarrow> int \<Rightarrow> 'b \<Rightarrow> lock_error option \<times> 'b"
    and gh :: "string \<Rightarrow> int \<Rightarrow> 'b \<Rightarrow> (lock_error, string \<times> int \<times> int) result \<times> 'b"
    and owns :: "string \<Rightarrow> string \<Rightarrow> int \<Rightarrow> 'b \<Rightarrow> bool"
  assumes owns_unique: "owns k a x b \<Longrightarrow> owns k c y b \<Longrightarrow> a = c"
    and trl_grants: "fst (trl k a ttl now b) = Inr True \<Longrightarrow> owns k a (now + ttl) (snd (trl k a ttl now b))"
    and hb_grants: "fst (hb k a ttl now b) = None \<Longrightarrow> owns k a (now + ttl) (snd (hb k a ttl now b))"
    and gh_grants: "fst (gh k now b) = Inr (a, n, ttl) \<Longrightarrow> owns k a (now + ttl) (snd (gh k now b))"
    and trl_keeps: "owns k a x b \<Longrightarrow> now \<le> x \<Longrightarrow> c \<noteq> a \<or> fst (trl k c ttl now b) \<noteq> Inr True \<Longrightarrow>
      owns k a x (snd (trl k c ttl now b))"
    and hb_keeps: "owns k a x b \<Longrightarrow> now \<le> x \<Longrightarrow> c \<noteq> a \<or> fst (hb k c ttl now b) \<noteq> None \<Longrightarrow>
      owns k a x (snd (hb k c ttl now b))"
    and unl_keeps: "owns k a x b \<Longrightarrow> now \<le> x \<Longrightarrow> c \<noteq> a \<or> fst (unl k c now b) \<noteq> None \<Longrightarrow>
      owns k a x (snd (unl k c now b))"
    and gh_keeps: "owns k a x b \<Longrightarrow> now \<le> x \<Longrightarrow> owns k a x (snd (gh k now b))"
begin

definition ledger_ok :: "string \<Rightarrow> int \<Rightarrow> 'b \<Rightarrow> (string \<rightharpoonup> int) \<Rightarrow> bool" where
  "ledger_ok k now b g \<longleftrightarrow> (\<forall>a x. g a = Some x \<longrightarrow> now \<le> x \<longrightarrow> owns k a x b)"

lemma ledger_call:
  assumes "ledger_ok k now b g" "backend_call trl hb unl gh k c now (b, g) = (ans, b1, g1)"
  shows "ledger_ok k now b1 g1"
proof (cases c)
  case (CallTryLock a ttl)
  have "owns k a' x (snd (trl k a ttl now b))"
    if "owns k a' x b" "now \<le> x" "a' \<noteq> a \<or> fst (trl k a ttl now b) \<noteq> Inr True" for a' x
    using trl_keeps [OF that(1,2), of a ttl] that(3) by auto
  with CallTryLock assms trl_grants [of k a ttl now b] show ?thesis
    by (auto simp: ledger_ok_def Let_def split_beta split: if_splits)
next
  case (CallHeartbeat a ttl)
  have "owns k a' x (snd (hb k a ttl now b))"
    if "owns k a' x b" "now \<le> x" "a' \<noteq> a \<or> fst (hb k a ttl now b) \<noteq> None" for a' x
    using hb_keeps [OF that(1,2), of a ttl] that(3) by auto
  with CallHeartbeat assms hb_grants [of k a ttl now b] show ?thesis
    by (auto simp: ledger_ok_def Let_def split_beta split: if_splits)
next
  case (CallUnlock a)
  have "owns k a' x (snd (unl k a now b))"
    if "owns k a' x b" "now \<le> x" "a' \<noteq> a \<or> fst (unl k a now b) \<noteq> None" for a' x
    using unl_keeps [OF that(1,2), of a] that(3) by auto
  with CallUnlock assms show ?thesis
    by (auto simp: ledger_ok_def Let_def split_beta split: if_splits)
next
  case (CallGetHolder a)
  with assms gh_grants [of k now b] gh_keeps [of k _ _ b now] show ?thesis
    by (auto simp: ledger_ok_def Let_def split_beta split: sum.splits if_splits)
qed

lemma ledger_later: "ledger_ok k now b g \<Longrightarrow> now \<le> later \<Longrightarrow> ledger_ok k later b g"
  by (auto simp: ledger_ok_def)

lemma ledger_exclusive:
  "ledger_ok k now b g \<Longrightarrow> g a = Some x \<Longrightarrow> g c = Some y \<Longrightarrow> a \<noteq> c \<Longrightarrow> x < now \<or> y < now"
  unfolding ledger_ok_def using owns_unique by (meson not_le)

end

lemmas backend_defs = holds_def isExpired_def TryLock_def lockInternal_def Unlock_def Heartbeat_def
  GetHolder_def remainingTTL_def Let_def split_beta

interpretation lm_backend: lock_backend TryLock Heartbeat Unlock GetHolder holds
proof
  fix k a x c ttl now and b :: LockManager
  assume "holds k a x b" "now \<le> x" "c \<noteq> a \<or> fst (TryLock k c ttl now b) \<noteq> Inr True"
  then show "holds k a x (snd (TryLock k c ttl now b))"
    by (auto simp: backend_defs split: option.splits if_splits)
next
  fix k a x c ttl now and b :: LockManager
  assume "holds k a x b" "now \<le> x" "c \<noteq> a \<or> fst (Heartbeat k c ttl now b) \<noteq> None"
  then show "holds k a x (snd (Heartbeat k c ttl now b))"
    by (auto simp: backend_defs split: option.splits if_splits)
next
  fix k a x c now and b :: LockManager
  assume "holds k a x b" "now \<le> x" "c \<noteq> a \<or> fst (Unlock k c now b) \<noteq> None"
  then show "holds k a x (snd (Unlock k c now b))"
    by (auto simp: backend_defs split: option.splits if_splits)
qed (auto simp: backend_defs split: option.splits if_splits)

subsection \<open>The interleaved system\<close>

text \<open>Where the loop goroutine, a \<open>Resign\<close> and a \<open>Stop\<close> of one elector stand.\<close>

datatype loop_pc =
    NotStarted | Idle | Exited
  | HeartbeatCall | HeartbeatRet "lock_error option"
  | CheckCall | CheckRet "(lock_error, string \<times> int \<times> int) result"
  | TryLockCall | TryLockRet "(lock_error, bool) result"
  | HolderCall | HolderRet "(lock_error, string \<times> int \<times> int) result"

datatype resign_pc = ResignIdle | ResignCall | ResignRet "lock_error option"

datatype stop_pc = StopIdle | StopWait | StopCall | StopRet | StopEnd

record proc =
  el :: LeaderElector
  pc :: loop_pc
  rpc :: resign_pc
  spc :: stop_pc

record system =
  clock :: int
  lockKey :: string
  backend :: LockManager
  grants :: "string \<rightharpoonup> int"
  procs :: "string \<rightharpoonup> proc"

datatype act =
    Pass nat
  | Env lm_op
  | DoStart string
  | HeartbeatTick string
  | CheckTick string
  | LoopCall string
  | LoopRet string
  | LoopExit string
  | ResignBegin string
  | ResignUnlock string
  | ResignFinish string
  | StopBegin string
  | StopJoin string
  | StopUnlock string
  | StopFinish string

text \<open>Uses of the lock manager by others, which do not touch the election key.\<close>

fun bystander :: "string \<Rightarrow> lm_op \<Rightarrow> bool" where
  "bystander k (OpLock k' _ _) \<longleftrightarrow> k' \<noteq> k"
| "bystander k (OpTryLock k' _ _) \<longleftrightarrow> k' \<noteq> k"
| "bystander k (OpUnlock k' _) \<longleftrightarrow> k' \<noteq> k"
| "bystander k (OpHeartbeat k' _ _) \<longleftrightarrow> k' \<noteq> k"
| "bystander k (OpForceUnlock k') \<longleftrightarrow> k' \<noteq> k"
| "bystander k OpClear \<longleftrightarrow> False"
| "bystander k _ \<longleftrightarrow> True"

definition set_proc :: "string \<Rightarrow> proc \<Rightarrow> system \<Rightarrow> system" where
  "set_proc i p s = s\<lparr>procs := (procs s)(i \<mapsto> p)\<rparr>"

definition call :: "bcall \<Rightarrow> proc \<Rightarrow> system \<Rightarrow> banswer \<times> system" where
  "call c p s =
     (let (ans, b, g) = backend_call TryLock Heartbeat Unlock GetHolder (electionKey (el p)) c (clock s)
                          (backend s, grants s)
      in (ans, s\<lparr>backend := b, grants := g\<rparr>))"

text \<open>The backend call the loop stands before, and the point after it.\<close>

fun loop_call :: "string \<Rightarrow> proc \<Rightarrow> system \<Rightarrow> system option" where
  "loop_call i p s =
     (let ttl = LeaseDuration (ecfg (el p)) in
      case pc p of
        HeartbeatCall \<Rightarrow>
          (case call (CallHeartbeat (nodeID (el p)) ttl) p s of
             (AnsErr err, s1) \<Rightarrow> Some (set_proc i (p\<lparr>pc := HeartbeatRet err\<rparr>) s1) | _ \<Rightarrow> None)
      | CheckCall \<Rightarrow>
          (case call (CallGetHolder (nodeID (el p))) p s of
             (AnsHolder res, s1) \<Rightarrow> Some (set_proc i (p\<lparr>pc := CheckRet res\<rparr>) s1) | _ \<Rightarrow> None)
      | TryLockCall \<Rightarrow>
          (case call (CallTryLock (nodeID (el p)) ttl) p s of
             (AnsTry res, s1) \<Rightarrow> Some (set_proc i (p\<lparr>pc := TryLockRet res\<rparr>) s1) | _ \<Rightarrow> None)
      | HolderCall \<Rightarrow>
          (case call (CallGetHolder (nodeID (el p))) p s of
             (AnsHolder res, s1) \<Rightarrow> Some (set_proc i (p\<lparr>pc := HolderRet res\<rparr>) s1) | _ \<Rightarrow> None)
      | _ \<Rightarrow> None)"

text \<open>The local piece after an answer.\<close>

definition loop_ret :: "proc \<Rightarrow> proc option" where
  "loop_ret p =
     (case pc p of
        HeartbeatRet err \<Rightarrow> Some (p\<lparr>el := doHeartbeat_ret err (el p), pc := Idle\<rparr>)
      | CheckRet res \<Rightarrow>
          (let (cont, e) = checkLeader_ret res (el p)
           in Some (p\<lparr>el := e, pc := (if cont then TryLockCall else Idle)\<rparr>))
      | TryLockRet res \<Rightarrow>
          (let (cont, e) = startElection_tried res (el p)
           in Some (p\<lparr>el := e, pc := (if cont then HolderCall else Idle)\<rparr>))
      | HolderRet res \<Rightarrow> Some (p\<lparr>el := startElection_holder res (el p), pc := Idle\<rparr>)
      | _ \<Rightarrow> None)"

text \<open>One action of an elector; \<^const>\<open>None\<close> when it is not enabled.\<close>

definition proc_act :: "act \<Rightarrow> string \<Rightarrow> proc \<Rightarrow> system \<Rightarrow> system option" where
  "proc_act a i p s =
     (case a of
        DoStart _ \<Rightarrow>
          (case Start_elector (el p) of
             (None, e) \<Rightarrow> Some (set_proc i (p\<lparr>el := e, pc := CheckCall\<rparr>) s)
           | (Some _, e) \<Rightarrow> Some s)
      | HeartbeatTick _ \<Rightarrow>
          if pc p \<noteq> Idle then None
          else Some (set_proc i (p\<lparr>pc := (if IsLeader (el p) then HeartbeatCall else Idle)\<rparr>) s)
      | CheckTick _ \<Rightarrow> if pc p \<noteq> Idle then None else Some (set_proc i (p\<lparr>pc := CheckCall\<rparr>) s)
      | LoopCall _ \<Rightarrow> loop_call i p s
      | LoopRet _ \<Rightarrow> map_option (\<lambda>p1. set_proc i p1 s) (loop_ret p)
      | LoopExit _ \<Rightarrow>
          if pc p = Idle \<and> estopClosed (el p) then Some (set_proc i (p\<lparr>pc := Exited\<rparr>) s) else None
      | ResignBegin _ \<Rightarrow>
          if rpc p \<noteq> ResignIdle then None
          else Some (set_proc i (p\<lparr>rpc := (if Resign_begin (el p) = Inr True then ResignCall else ResignIdle)\<rparr>) s)
      | ResignUnlock _ \<Rightarrow>
          if rpc p \<noteq> ResignCall then None
          else (case call (CallUnlock (nodeID (el p))) p s of
                  (AnsErr err, s1) \<Rightarrow> Some (set_proc i (p\<lparr>rpc := ResignRet err\<rparr>) s1) | _ \<Rightarrow> None)
      | ResignFinish _ \<Rightarrow>
          (case rpc p of
             ResignRet err \<Rightarrow> Some (set_proc i (p\<lparr>el := snd (Resign_ret err (el p)), rpc := ResignIdle\<rparr>) s)
           | _ \<Rightarrow> None)
      | StopBegin _ \<Rightarrow>
          if spc p \<noteq> StopIdle then None
          else (let (go, e) = Stop_begin (el p)
                in Some (set_proc i (p\<lparr>el := e, spc := (if go then StopWait else StopIdle)\<rparr>) s))
      | StopJoin _ \<Rightarrow>
          if spc p = StopWait \<and> pc p \<in> {NotStarted, Exited}
          then (let (wasLeader, e) = Stop_joined (el p)
                in Some (set_proc i (p\<lparr>el := e, spc := (if wasLeader then StopCall else StopEnd)\<rparr>) s))
          else None
      | StopUnlock _ \<Rightarrow>
          if spc p \<noteq> StopCall then None
          else (case call (CallUnlock (nodeID (el p))) p s of
                  (AnsErr err, s1) \<Rightarrow> Some (set_proc i (p\<lparr>spc := StopRet\<rparr>) s1) | _ \<Rightarrow> None)
      | StopFinish _ \<Rightarrow>
          if spc p = StopRet then Some (set_proc i (p\<lparr>el := Stop_unlocked (el p), spc := StopEnd\<rparr>) s) else None
      | _ \<Rightarrow> None)"

fun actor :: "act \<Rightarrow> string option" where
  "actor (Pass d) = None"
| "actor (Env x) = None"
| "actor (DoStart i) = Some i"
| "actor (HeartbeatTick i) = Some i"
| "actor (CheckTick i) = Some i"
| "actor (LoopCall i) = Some i"
| "actor (LoopRet i) = Some i"
| "actor (LoopExit i) = Some i"
| "actor (ResignBegin i) = Some i"
| "actor (ResignUnlock i) = Some i"
| "actor (ResignFinish i) = Some i"
| "actor (StopBegin i) = Some i"
| "actor (StopJoin i) = Some i"
| "actor (StopUnlock i) = Some i"
| "actor (StopFinish i) = Some i"

definition sys_act :: "act \<Rightarrow> system \<Rightarrow> system option" where
  "sys_act a s =
     (case actor a of
        Some i \<Rightarrow> (case procs s i of None \<Rightarrow> None | Some p \<Rightarrow> proc_act a i p s)
      | None \<Rightarrow>
          (case a of
             Pass d \<Rightarrow> Some (s\<lparr>clock := clock s + int d\<rparr>)
           | Env x \<Rightarrow>
               if bystander (lockKey s) x
               then Some (s\<lparr>backend := snd (lm_step x (clock s) (backend s))\<rparr>) else None
           | _ \<Rightarrow> None))"

inductive reachable :: "(act \<Rightarrow> bool) \<Rightarrow> system \<Rightarrow> system \<Rightarrow> bool" for ok s0 where
  reachable_init: "reachable ok s0 s0"
| reachable_step: "reachable ok s0 s \<Longrightarrow> ok a \<Longrightarrow> sys_act a s = Some s' \<Longrightarrow> reachable ok s0 s'"

text \<open>New electors with distinct ids, for one key, on a backend on which nobody was granted the key.\<close>

definition initial :: "system \<Rightarrow> bool" where
  "initial s \<longleftrightarrow>
     grants s = Map.empty \<and>
     (\<forall>i p. procs s i = Some p \<longrightarrow>
        (\<exists>c. NewLeaderElector i (lockKey s) c False = Inr (el p)) \<and>
        pc p = NotStarted \<and> rpc p = ResignIdle \<and> spc p = StopIdle)"

subsection \<open>The invariant\<close>

lemma notify_fields [simp]:
  "nodeID (notify ty e) = nodeID e" "electionKey (notify ty e) = electionKey e"
  "role (notify ty e) = role e" "leaderID (notify ty e) = leaderID e"
  "estopped (notify ty e) = estopped e" "erunning (notify ty e) = erunning e"
  "ecfg (notify ty e) = ecfg e"
  by (simp_all add: notify_def)

lemma becomeLeader_fields [simp]:
  "nodeID (becomeLeader e) = nodeID e" "electionKey (becomeLeader e) = electionKey e"
  "role (becomeLeader e) = RoleLeader" "estopped (becomeLeader e) = estopped e"
  by (simp_all add: becomeLeader_def Let_def)

text \<open>The elector is leader, or about to become it with the answer it has received.\<close>

definition claims :: "string \<Rightarrow> proc \<Rightarrow> bool" where
  "claims i p \<longleftrightarrow>
     role (el p) = RoleLeader \<or> pc p = TryLockRet (Inr True) \<or> (\<exists>n t. pc p = CheckRet (Inr (i, n, t)))"

definition proc_ok :: "string \<Rightarrow> int option \<Rightarrow> string \<Rightarrow> proc \<Rightarrow> bool" where
  "proc_ok k g i p \<longleftrightarrow>
     nodeID (el p) = i \<and> electionKey (el p) = k \<and> rpc p = ResignIdle \<and>
     (claims i p \<longrightarrow> g \<noteq> None) \<and>
     (spc p \<noteq> StopIdle \<longrightarrow> estopped (el p)) \<and>
     (spc p \<in> {StopCall, StopRet, StopEnd} \<longrightarrow> role (el p) \<noteq> RoleLeader \<and> pc p \<in> {NotStarted, Exited})"

definition sys_inv :: "system \<Rightarrow> bool" where
  "sys_inv s \<longleftrightarrow>
     lm_backend.ledger_ok (lockKey s) (clock s) (backend s) (grants s) \<and>
     (\<forall>i p. procs s i = Some p \<longrightarrow> proc_ok (lockKey s) (grants s i) i p)"

lemma NewLeaderElector_fields:
  "NewLeaderElector i k c b = Inr e \<Longrightarrow> nodeID e = i \<and> electionKey e = k \<and> role e = RoleFollower"
  by (auto simp: NewLeaderElector_def split: option.splits if_splits)

lemma initial_inv: "initial s \<Longrightarrow> sys_inv s"
  unfolding initial_def sys_inv_def proc_ok_def claims_def
  by (auto simp: lm_backend.ledger_ok_def dest: NewLeaderElector_fields)
     (metis NewLeaderElector_fields NodeRole.distinct(3))

lemma sys_inv_set: "sys_inv s \<Longrightarrow> proc_ok (lockKey s) (grants s i) i p \<Longrightarrow> sys_inv (set_proc i p s)"
  by (simp add: sys_inv_def set_proc_def)

fun caller :: "bcall \<Rightarrow> string" where
  "caller (CallTryLock a ttl) = a"
| "caller (CallHeartbeat a ttl) = a"
| "caller (CallUnlock a) = a"
| "caller (CallGetHolder a) = a"

lemma call_frame:
  "call c p s = (ans, s1) \<Longrightarrow>
   lockKey s1 = lockKey s \<and> clock s1 = clock s \<and> procs s1 = procs s \<and>
   (\<forall>j. j \<noteq> caller c \<longrightarrow> grants s1 j = grants s j)"
  by (cases c) (auto simp: call_def Let_def split_beta split: sum.splits)

lemma sys_inv_call:
  assumes "sys_inv s" "call c p s = (ans, s1)" "caller c = i" "electionKey (el p) = lockKey s"
    and "proc_ok (lockKey s) (grants s1 i) i p1"
  shows "sys_inv (set_proc i p1 s1)"
proof -
  obtain b g where "backend_call TryLock Heartbeat Unlock GetHolder (lockKey s) c (clock s)
      (backend s, grants s) = (ans, b, g)" "s1 = s\<lparr>backend := b, grants := g\<rparr>"
    using assms(2,4) by (auto simp: call_def Let_def split_beta prod_eq_iff)
  with assms(1) have "lm_backend.ledger_ok (lockKey s) (clock s) (backend s1) (grants s1)"
    by (auto simp: sys_inv_def intro: lm_backend.ledger_call)
  with call_frame [OF assms(2)] assms show ?thesis
    by (auto simp: sys_inv_def set_proc_def)
qed

lemma call_answers:
  "call (CallHeartbeat a ttl) p s = (AnsErr err, s1) \<Longrightarrow> grants s a \<noteq> None \<Longrightarrow> grants s1 a \<noteq> None"
  "call (CallTryLock a ttl) p s = (AnsTry res, s1) \<Longrightarrow> res = Inr True \<or> grants s a \<noteq> None \<Longrightarrow> grants s1 a \<noteq> None"
  "call (CallGetHolder a) p s = (AnsHolder r, s1) \<Longrightarrow> (\<exists>n t. r = Inr (a, n, t)) \<or> grants s a \<noteq> None \<Longrightarrow>
    grants s1 a \<noteq> None"
  by (auto simp: call_def Let_def split_beta split: sum.splits if_splits)

lemma loop_call_inv:
  assumes "sys_inv s" "procs s i = Some p" "loop_call i p s = Some s'"
  shows "sys_inv s'"
proof -
  have ok: "proc_ok (lockKey s) (grants s i) i p" using assms(1,2) by (simp add: sys_inv_def)
  then have key: "electionKey (el p) = lockKey s" "nodeID (el p) = i" by (auto simp: proc_ok_def)
  show ?thesis
  proof (cases "pc p")
    case HeartbeatCall
    with assms(3) key obtain err s1 where
      c: "call (CallHeartbeat i (LeaseDuration (ecfg (el p)))) p s = (AnsErr err, s1)"
        "s' = set_proc i (p\<lparr>pc := HeartbeatRet err\<rparr>) s1"
      by (auto simp: Let_def split: prod.splits banswer.splits)
    with call_answers(1) [OF c(1)] ok HeartbeatCall show ?thesis
      by (auto intro!: sys_inv_call [OF assms(1) c(1) _ key(1)] simp: proc_ok_def claims_def)
  next
    case CheckCall
    with assms(3) key obtain res s1 where
      c: "call (CallGetHolder i) p s = (AnsHolder res, s1)" "s' = set_proc i (p\<lparr>pc := CheckRet res\<rparr>) s1"
      by (auto simp: Let_def split: prod.splits banswer.splits)
    with call_answers(3) [OF c(1)] ok CheckCall show ?thesis
      by (auto intro!: sys_inv_call [OF assms(1) c(1) _ key(1)] simp: proc_ok_def claims_def)
  next
    case TryLockCall
    with assms(3) key obtain res s1 where
      c: "call (CallTryLock i (LeaseDuration (ecfg (el p)))) p s = (AnsTry res, s1)"
        "s' = set_proc i (p\<lparr>pc := TryLockRet res\<rparr>) s1"
      by (auto simp: Let_def split: prod.splits banswer.splits)
    with call_answers(2) [OF c(1)] ok TryLockCall show ?thesis
      by (auto intro!: sys_inv_call [OF assms(1) c(1) _ key(1)] simp: proc_ok_def claims_def)
  next
    case HolderCall
    with assms(3) key obtain res s1 where
      c: "call (CallGetHolder i) p s = (AnsHolder res, s1)" "s' = set_proc i (p\<lparr>pc := HolderRet res\<rparr>) s1"
      by (auto simp: Let_def split: prod.splits banswer.splits)
    with call_answers(3) [OF c(1)] ok HolderCall show ?thesis
      by (auto intro!: sys_inv_call [OF assms(1) c(1) _ key(1)] simp: proc_ok_def claims_def)
  qed (use assms(3) in \<open>simp_all add: Let_def\<close>)
qed

lemma checkLeader_ret_fields:
  "checkLeader_ret res e = (cont, e1) \<Longrightarrow> nodeID e1 = nodeID e \<and> electionKey e1 = electionKey e \<and>
   estopped e1 = estopped e \<and>
   (role e1 = RoleLeader \<longrightarrow> role e = RoleLeader \<or> (\<exists>n t. res = Inr (nodeID e, n, t)))"
  by (auto simp: checkLeader_ret_def startElection_begin_def IsLeader_def Let_def
      split: sum.splits prod.splits if_splits)

lemma startElection_tried_fields:
  "startElection_tried res e = (cont, e1) \<Longrightarrow> nodeID e1 = nodeID e \<and> electionKey e1 = electionKey e \<and>
   estopped e1 = estopped e \<and> (role e1 = RoleLeader \<longrightarrow> res = Inr True)"
  by (auto simp: startElection_tried_def split: sum.splits if_splits)

lemma startElection_holder_fields [simp]:
  "nodeID (startElection_holder res e) = nodeID e"
  "electionKey (startElection_holder res e) = electionKey e"
  "estopped (startElection_holder res e) = estopped e"
  "role (startElection_holder res e) = role e"
  by (auto simp: startElection_holder_def Let_def split: sum.splits prod.splits)

lemma doHeartbeat_ret_fields [simp]:
  "nodeID (doHeartbeat_ret err e) = nodeID e"
  "electionKey (doHeartbeat_ret err e) = electionKey e"
  "estopped (doHeartbeat_ret err e) = estopped e"
  "role (doHeartbeat_ret err e) = (if err = None then role e else RoleFollower)"
  by (auto simp: doHeartbeat_ret_def Let_def)

lemma proc_ok_local:
  assumes "proc_ok k g i p" "pc p \<notin> {NotStarted, Exited}"
    and "nodeID e = nodeID (el p)" "electionKey e = electionKey (el p)" "estopped e = estopped (el p)"
    and "role e = RoleLeader \<Longrightarrow> claims i p" "q \<in> {Idle, TryLockCall, HolderCall}"
  shows "proc_ok k g i (p\<lparr>el := e, pc := q\<rparr>)"
  using assms by (auto simp: proc_ok_def claims_def)

lemma loop_ret_ok:
  assumes "proc_ok k g i p" "loop_ret p = Some p1"
  shows "proc_ok k g i p1"
proof -
  note local_step = proc_ok_local [OF assms(1)]
  have i: "nodeID (el p) = i" using assms(1) by (simp add: proc_ok_def)
  show ?thesis
  proof (cases "pc p")
    case (CheckRet res)
    obtain cont e1 where e1: "checkLeader_ret res (el p) = (cont, e1)" by (rule prod.exhaust)
    with CheckRet assms(2) have p1: "p1 = p\<lparr>el := e1, pc := (if cont then TryLockCall else Idle)\<rparr>"
      by (simp add: loop_ret_def)
    show ?thesis unfolding p1
      by (rule local_step) (use checkLeader_ret_fields [OF e1] CheckRet i in \<open>auto simp: claims_def\<close>)
  next
    case (TryLockRet res)
    obtain cont e1 where e1: "startElection_tried res (el p) = (cont, e1)" by (rule prod.exhaust)
    with TryLockRet assms(2) have p1: "p1 = p\<lparr>el := e1, pc := (if cont then HolderCall else Idle)\<rparr>"
      by (simp add: loop_ret_def)
    show ?thesis unfolding p1
      by (rule local_step) (use startElection_tried_fields [OF e1] TryLockRet in \<open>auto simp: claims_def\<close>)
  next
    case (HeartbeatRet err)
    with assms(2) have "p1 = p\<lparr>el := doHeartbeat_ret err (el p), pc := Idle\<rparr>" by (simp add: loop_ret_def)
    with HeartbeatRet show ?thesis by (auto simp: claims_def intro!: local_step split: if_splits)
  next
    case (HolderRet res)
    with assms(2) have "p1 = p\<lparr>el := startElection_holder res (el p), pc := Idle\<rparr>" by (simp add: loop_ret_def)
    with HolderRet show ?thesis by (auto simp: claims_def intro!: local_step)
  qed (use assms(2) in \<open>simp_all add: loop_ret_def\<close>)
qed

lemma sys_act_inv:
  assumes "sys_inv s" "sys_act a s = Some s'" "\<forall>i. a \<noteq> ResignBegin i"
  shows "sys_inv s'"
proof (cases "actor a")
  case None
  then show ?thesis
  proof (cases a)
    case (Pass d)
    with assms show ?thesis by (auto simp: sys_act_def sys_inv_def intro: lm_backend.ledger_later)
  next
    case (Env x)
    have "foreign (lockKey s) c x" if "bystander (lockKey s) x" for c using that by (cases x) auto
    with Env assms show ?thesis
      by (auto simp: sys_act_def sys_inv_def lm_backend.ledger_ok_def intro!: holds_foreign split: if_splits)
  qed auto
next
  case (Some i)
  with assms(2) obtain p where p: "procs s i = Some p" "proc_act a i p s = Some s'"
    by (auto simp: sys_act_def split: option.splits)
  then have ok: "proc_ok (lockKey s) (grants s i) i p" using assms(1) by (simp add: sys_inv_def)
  note upd = sys_inv_set [OF assms(1)]
  show ?thesis
  proof (cases a)
    case (LoopCall j)
    with p loop_call_inv [OF assms(1)] show ?thesis by (simp add: proc_act_def)
  next
    case (LoopRet j)
    with p ok loop_ret_ok upd show ?thesis by (auto simp: proc_act_def)
  next
    case (StopUnlock j)
    have key: "electionKey (el p) = lockKey s" "nodeID (el p) = i" using ok by (auto simp: proc_ok_def)
    with p(2) StopUnlock obtain err s1 where "call (CallUnlock i) p s = (AnsErr err, s1)"
      "s' = set_proc i (p\<lparr>spc := StopRet\<rparr>) s1" "spc p = StopCall"
      by (auto simp: proc_act_def split: if_splits prod.splits banswer.splits)
    with ok key show ?thesis
      by (auto simp: proc_ok_def claims_def intro!: sys_inv_call [OF assms(1)])
  next
    case (DoStart j)
    with p(2) ok assms(1) show ?thesis
      by (auto simp: proc_act_def Start_elector_def proc_ok_def claims_def intro!: upd split: if_splits)
  next
    case (HeartbeatTick j)
    with p(2) ok show ?thesis
      by (auto simp: proc_act_def proc_ok_def claims_def intro!: upd split: if_splits)
  next
    case (CheckTick j)
    with p(2) ok show ?thesis
      by (auto simp: proc_act_def proc_ok_def claims_def intro!: upd split: if_splits)
  next
    case (LoopExit j)
    with p(2) ok show ?thesis
      by (auto simp: proc_act_def proc_ok_def claims_def intro!: upd split: if_splits)
  next
    case (StopBegin j)
    with p(2) ok show ?thesis
      by (auto simp: proc_act_def Stop_begin_def Let_def proc_ok_def claims_def intro!: upd split: if_splits)
  next
    case (StopJoin j)
    with p(2) ok show ?thesis
      by (auto simp: proc_act_def Stop_joined_def proc_ok_def claims_def intro!: upd split: if_splits)
  next
    case (StopFinish j)
    with p(2) ok show ?thesis
      by (auto simp: proc_act_def Stop_unlocked_def proc_ok_def claims_def intro!: upd split: if_splits)
  qed (use p ok assms(3) Some in \<open>auto simp: proc_act_def proc_ok_def\<close>)
qed

lemma reachable_inv:
  assumes "initial s0" "reachable (\<lambda>a. \<forall>i. a \<noteq> ResignBegin i) s0 s"
  shows "sys_inv s"
  using assms(2)
proof induction
  case reachable_init
  then show ?case by (rule initial_inv [OF assms(1)])
next
  case (reachable_step s a s')
  then show ?case by (blast intro: sys_act_inv)
qed

fun run_acts :: "act list \<Rightarrow> system \<Rightarrow> system option" where
  "run_acts [] s = Some s"
| "run_acts (a # as) s = (case sys_act a s of None \<Rightarrow> None | Some s1 \<Rightarrow> run_acts as s1)"

lemma run_acts_reachable:
  "reachable ok s0 s \<Longrightarrow> list_all ok as \<Longrightarrow> run_acts as s = Some s' \<Longrightarrow> reachable ok s0 s'"
  by (induction "as" arbitrary: s) (auto split: option.splits intro: reachable_step)

definition example_config :: Config where
  "example_config = DefaultConfig\<lparr>LeaseDuration := 10\<rparr>"

definition example_proc :: "string \<Rightarrow> proc" where
  "example_proc i =
     \<lparr>el = \<lparr>nodeID = i, electionKey = ''k'', ecfg = example_config, callbacks = 0, role = RoleFollower,
            eterm = 0, leaderID = [], erunning = False, estopped = False, estopClosed = False, emitted = []\<rparr>,
      pc = NotStarted, rpc = ResignIdle, spc = StopIdle\<rparr>"

definition example_system :: system where
  "example_system =
     \<lparr>clock = 0, lockKey = ''k'', backend = NewLockManager, grants = Map.empty,
      procs = [''a'' \<mapsto> example_proc ''a'', ''b'' \<mapsto> example_proc ''b'']\<rparr>"

text \<open>An elector starts, finds no holder, and wins the election.\<close>

definition wins :: "string \<Rightarrow> act list" where
  "wins i = [DoStart i, LoopCall i, LoopRet i, LoopCall i, LoopRet i]"

lemma default_factors:
  "float64_order 0x3FD3333333333333 = 0x3FD3333333333333" "float64_order 0x3FE0000000000000 = 0x3FE0000000000000"
  "float64_order one64 = 1023 * 2 ^ 52" "float64_order 0 = 0"
  "\<not> float64_nan 0x3FD3333333333333" "\<not> float64_nan 0x3FE0000000000000" "\<not> float64_nan one64" "\<not> float64_nan 0"
  by (simp_all add: float64_order_def float64_nan_def bit_odd_uint)

lemma example_config_valid: "Validate example_config = None" "Validate DefaultConfig = None"
  by (simp_all add: Validate_def example_config_def DefaultConfig_def float64_le_def default_factors)

lemma example_initial: "initial example_system"
proof -
  have "NewLeaderElector i ''k'' example_config False = Inr (el (example_proc i))" if "i \<noteq> []" for i
    using that by (simp add: NewLeaderElector_def example_config_valid example_proc_def)
  then have "\<exists>c. NewLeaderElector i ''k'' c False = Inr (el (example_proc i))" if "i \<noteq> []" for i
    using that by blast
  then show ?thesis
    by (auto simp: initial_def example_system_def split: if_splits) (simp_all add: example_proc_def)
qed

lemmas elect_simps = sys_act_def proc_act_def Start_elector_def call_def Let_def set_proc_def
  loop_ret_def checkLeader_ret_def startElection_begin_def startElection_tried_def becomeLeader_def notify_def
  GetHolder_def TryLock_def lockInternal_def Unlock_def isExpired_def IsLeader_def Resign_begin_def
  example_proc_def example_config_def DefaultConfig_def NewLockManager_def NewLockManagerWithConfig_def
  DefaultLockManagerConfig_def DefaultMaxReentrancy_def DefaultCleanInterval_def

subsection \<open>Properties\<close>

text \<open>
  C20. Election safety, in every interleaving of any number of electors without \<open>Resign\<close>: every
  leader was granted the lock; while the instant it was granted until has not passed, the backend still
  records it as the holder; and of two leaders one is past that instant.
\<close>

theorem two_leaders_one_expired:
  assumes "initial s0" "reachable (\<lambda>a. \<forall>i. a \<noteq> ResignBegin i) s0 s"
    and "procs s i = Some p" "role (el p) = RoleLeader"
    and "procs s j = Some q" "role (el q) = RoleLeader" "i \<noteq> j"
  shows "\<exists>x y. grants s i = Some x \<and> grants s j = Some y \<and>
    (clock s \<le> x \<longrightarrow> holds (lockKey s) i x (backend s)) \<and> (x < clock s \<or> y < clock s)"
proof -
  have inv: "sys_inv s" by (rule reachable_inv [OF assms(1,2)])
  then have "proc_ok (lockKey s) (grants s i) i p" "proc_ok (lockKey s) (grants s j) j q"
    and ledger: "lm_backend.ledger_ok (lockKey s) (clock s) (backend s) (grants s)"
    using assms by (auto simp: sys_inv_def)
  then obtain x y where "grants s i = Some x" "grants s j = Some y"
    using assms(4,6) by (auto simp: proc_ok_def claims_def)
  with lm_backend.ledger_exclusive [OF ledger _ _ assms(7)] ledger show ?thesis
    by (auto simp: lm_backend.ledger_ok_def)
qed

lemma example_takeover:
  "\<exists>s p q. run_acts (wins ''a'' @ Pass 11 # wins ''b'') example_system = Some s \<and>
     procs s ''a'' = Some p \<and> role (el p) = RoleLeader \<and> procs s ''b'' = Some q \<and> role (el q) = RoleLeader"
  by (simp add: wins_def example_system_def elect_simps)

theorem two_leaders_one_expired_witness:
  "\<exists>s x y. run_acts (wins ''a'' @ Pass 11 # wins ''b'') example_system = Some s \<and>
     grants s ''a'' = Some x \<and> grants s ''b'' = Some y \<and> (x < clock s \<or> y < clock s)"
proof -
  obtain s p q where s: "run_acts (wins ''a'' @ Pass 11 # wins ''b'') example_system = Some s"
    "procs s ''a'' = Some p" "role (el p) = RoleLeader" "procs s ''b'' = Some q" "role (el q) = RoleLeader"
    using example_takeover by blast
  have "reachable (\<lambda>a. \<forall>i. a \<noteq> ResignBegin i) example_system s"
    by (rule run_acts_reachable [OF reachable_init _ s(1)]) (simp add: wins_def)
  from two_leaders_one_expired [OF example_initial this s(2-5)] s(1) show ?thesis by fastforce
qed

text \<open>
  A leader that has lost the lock. Nothing the others do gives it back, and neither do the checks of its own loop, which
  leave it a leader.
\<close>

definition lost :: "string \<Rightarrow> system \<Rightarrow> bool" where
  "lost i s \<longleftrightarrow> \<not> holds (lockKey s) i (clock s) (backend s)"

definition beside :: "string \<Rightarrow> act \<Rightarrow> bool" where
  "beside i a \<longleftrightarrow> actor a \<noteq> Some i"

definition beside_or_check :: "string \<Rightarrow> act \<Rightarrow> bool" where
  "beside_or_check i a \<longleftrightarrow> beside i a \<or> a \<in> {CheckTick i, LoopCall i, LoopRet i}"

definition named :: "system \<Rightarrow> bool" where
  "named s \<longleftrightarrow> (\<forall>i p. procs s i = Some p \<longrightarrow> nodeID (el p) = i \<and> electionKey (el p) = lockKey s)"

lemma proc_call:
  assumes "call c p s = (ans, s1)" "s' = set_proc i p1 s1"
  shows "lockKey s' = lockKey s" "clock s' = clock s" "procs s' = (procs s)(i \<mapsto> p1)" "backend s' = backend s1"
  using call_frame [OF assms(1)] assms(2) by (simp_all add: set_proc_def)

lemma lost_call:
  assumes "lost i s" "call c p s = (ans, s1)" "electionKey (el p) = lockKey s" "caller c \<noteq> i \<or> c = CallGetHolder i"
  shows "lost i s1"
  using assms
  by (cases c) (auto simp: lost_def call_def backend_defs Let_def split: option.splits if_splits)

lemma lost_env: "\<not> holds k i now b \<Longrightarrow> bystander k x \<Longrightarrow> \<not> holds k i now (snd (lm_step x now b))"
  by (cases x)
     (auto simp: holds_def isExpired_def Lock_def TryLock_def lockInternal_def Unlock_def Heartbeat_def
        IsLocked_def GetHolder_def ForceUnlock_def CleanExpired_def cleanExpiredLocked_def
        cleanLoop_tick_def Start_def Stop_def Let_def split_beta split: option.splits if_splits)

text \<open>What an action of an elector does: a call of the backend, or a local piece.\<close>

lemma loop_ret_identity: "loop_ret p = Some p1 \<Longrightarrow> nodeID (el p1) = nodeID (el p) \<and> electionKey (el p1) = electionKey (el p)"
  by (auto simp: loop_ret_def split: loop_pc.splits prod.splits
      dest: checkLeader_ret_fields startElection_tried_fields)

definition by_call :: "string \<Rightarrow> proc \<Rightarrow> system \<Rightarrow> system \<Rightarrow> bool" where
  "by_call i p s s' \<longleftrightarrow>
     (\<exists>c ans s1 p1. call c p s = (ans, s1) \<and> s' = set_proc i p1 s1 \<and> el p1 = el p \<and> caller c = nodeID (el p))"

lemma by_callI:
  assumes "call c p s = (ans, s1)" "s' = set_proc i p1 s1" "el p1 = el p" "caller c = nodeID (el p)"
  shows "by_call i p s s'"
  using assms unfolding by_call_def by blast

lemma loop_call_by:
  assumes "loop_call i p s = Some s'"
  shows "by_call i p s s'"
proof (cases "pc p")
  case HeartbeatCall
  obtain ans s1 where c: "call (CallHeartbeat (nodeID (el p)) (LeaseDuration (ecfg (el p)))) p s = (ans, s1)" by fastforce
  with HeartbeatCall assms show ?thesis by (cases ans) (auto simp: Let_def intro: by_callI [OF c])
next
  case CheckCall
  obtain ans s1 where c: "call (CallGetHolder (nodeID (el p))) p s = (ans, s1)" by fastforce
  with CheckCall assms show ?thesis by (cases ans) (auto simp: Let_def intro: by_callI [OF c])
next
  case TryLockCall
  obtain ans s1 where c: "call (CallTryLock (nodeID (el p)) (LeaseDuration (ecfg (el p)))) p s = (ans, s1)" by fastforce
  with TryLockCall assms show ?thesis by (cases ans) (auto simp: Let_def intro: by_callI [OF c])
next
  case HolderCall
  obtain ans s1 where c: "call (CallGetHolder (nodeID (el p))) p s = (ans, s1)" by fastforce
  with HolderCall assms show ?thesis by (cases ans) (auto simp: Let_def intro: by_callI [OF c])
qed (use assms in \<open>simp_all add: Let_def\<close>)

lemma unlock_by:
  assumes "(case call (CallUnlock (nodeID (el p))) p s of (AnsErr err, s1) \<Rightarrow> Some (set_proc i (p1 err) s1) | _ \<Rightarrow> None) = Some s'"
    "\<And>err. el (p1 err) = el p"
  shows "by_call i p s s'"
proof -
  obtain ans s1 where c: "call (CallUnlock (nodeID (el p))) p s = (ans, s1)" by fastforce
  with assms show ?thesis by (cases ans) (auto intro: by_callI [OF c])
qed

lemma proc_act_cases:
  assumes "proc_act a i p s = Some s'"
  shows "s' = s \<or>
    (\<exists>p1. s' = set_proc i p1 s \<and> nodeID (el p1) = nodeID (el p) \<and> electionKey (el p1) = electionKey (el p)) \<or>
    by_call i p s s'"
proof (cases a)
  case (LoopCall j)
  with assms show ?thesis by (simp add: proc_act_def loop_call_by del: loop_call.simps)
next
  case (LoopRet j)
  with assms loop_ret_identity show ?thesis by (auto simp: proc_act_def)
next
  case (ResignUnlock j)
  with assms show ?thesis
    using unlock_by [where p = p and s = s and i = i and s' = s' and ?p1.0 = "\<lambda>err. p\<lparr>rpc := ResignRet err\<rparr>"] by (simp add: proc_act_def split: if_splits)
next
  case (StopUnlock j)
  with assms show ?thesis
    using unlock_by [where p = p and s = s and i = i and s' = s' and ?p1.0 = "\<lambda>_. p\<lparr>spc := StopRet\<rparr>"] by (simp add: proc_act_def split: if_splits)
qed (use assms in \<open>auto simp: proc_act_def Start_elector_def Resign_ret_def Stop_begin_def Stop_joined_def Stop_unlocked_def
       Let_def split: if_splits option.splits resign_pc.splits\<close>)

definition stays :: "string \<Rightarrow> system \<Rightarrow> system \<Rightarrow> bool" where
  "stays i s s' \<longleftrightarrow> procs s' i = procs s i \<and> (lost i s \<longrightarrow> lost i s')"

lemma env_frame:
  assumes "sys_act a s = Some s'" "actor a = None"
  shows "lockKey s' = lockKey s" "procs s' = procs s" "lost i s \<Longrightarrow> lost i s'"
proof -
  consider d where "s' = s\<lparr>clock := clock s + int d\<rparr>"
    | x where "bystander (lockKey s) x" "s' = s\<lparr>backend := snd (lm_step x (clock s) (backend s))\<rparr>"
  proof -
    have "(\<exists>d. s' = s\<lparr>clock := clock s + int d\<rparr>) \<or>
        (\<exists>x. bystander (lockKey s) x \<and> s' = s\<lparr>backend := snd (lm_step x (clock s) (backend s))\<rparr>)"
      using assms by (cases a) (auto simp: sys_act_def split: if_splits)
    then show thesis using that by blast
  qed
  note cs = this
  show "lockKey s' = lockKey s" "procs s' = procs s" by (cases rule: cs; simp)+
  show "lost i s'" if "lost i s"
    using that by (cases rule: cs) (auto simp: lost_def holds_def lost_env [unfolded holds_def])
qed

lemma proc_frame:
  assumes "named s" "procs s j = Some p" "proc_act a j p s = Some s'"
  shows "named s'" "lockKey s' = lockKey s" "i \<noteq> j \<Longrightarrow> stays i s s'"
proof -
  have p: "nodeID (el p) = j" "electionKey (el p) = lockKey s" using assms(1,2) by (auto simp: named_def)
  consider "s' = s"
    | p1 where "s' = set_proc j p1 s" "nodeID (el p1) = j" "electionKey (el p1) = lockKey s"
    | c ans s1 p1 where "call c p s = (ans, s1)" "s' = set_proc j p1 s1" "el p1 = el p" "caller c = j"
    using proc_act_cases [OF assms(3)] p unfolding by_call_def by metis
  then have "named s' \<and> lockKey s' = lockKey s \<and> (i \<noteq> j \<longrightarrow> stays i s s')"
  proof cases
    case 1
    with assms(1) show ?thesis by (simp add: stays_def)
  next
    case 2
    with assms(1) show ?thesis by (simp add: named_def set_proc_def stays_def lost_def)
  next
    case 3
    have "lost i s'" if "lost i s" "i \<noteq> j"
      using lost_call [OF that(1) 3(1) p(2)] 3(2,4) that(2) by (simp add: lost_def set_proc_def)
    with proc_call [OF 3(1,2)] 3(3) assms(1) p show ?thesis by (simp add: named_def stays_def)
  qed
  then show "named s'" "lockKey s' = lockKey s" "i \<noteq> j \<Longrightarrow> stays i s s'" by blast+
qed

lemma sys_act_frame:
  assumes "named s" "sys_act a s = Some s'"
  shows "named s'" "lockKey s' = lockKey s" "beside i a \<Longrightarrow> stays i s s'"
proof -
  have "named s' \<and> lockKey s' = lockKey s \<and> (beside i a \<longrightarrow> stays i s s')"
  proof (cases "actor a")
    case None
    with env_frame [OF assms(2)] assms(1) show ?thesis by (simp add: named_def stays_def)
  next
    case (Some j)
    then obtain p where "procs s j = Some p" "proc_act a j p s = Some s'"
      using assms(2) by (auto simp: sys_act_def split: option.splits)
    with proc_frame [OF assms(1) this] Some show ?thesis by (auto simp: beside_def)
  qed
  then show "named s'" "lockKey s' = lockKey s" "beside i a \<Longrightarrow> stays i s s'" by blast+
qed

lemma reachable_named: "initial s0 \<Longrightarrow> reachable ok s0 s \<Longrightarrow> named s"
proof -
  assume "initial s0" "reachable ok s0 s"
  from this(2,1) show "named s"
  proof (induction rule: reachable.induct)
    case reachable_init
    then show ?case by (auto simp: initial_def named_def dest: NewLeaderElector_fields)
  qed (auto intro: sys_act_frame)
qed

lemma beside_run:
  "named s \<Longrightarrow> lost i s \<Longrightarrow> list_all (beside i) as \<Longrightarrow> run_acts as s = Some s' \<Longrightarrow>
   named s' \<and> lost i s' \<and> procs s' i = procs s i"
proof (induction "as" arbitrary: s)
  case (Cons a "as")
  from Cons.prems obtain s1 where s1: "sys_act a s = Some s1" "run_acts as s1 = Some s'" by (auto split: option.splits)
  with Cons.prems sys_act_frame [OF Cons.prems(1) s1(1)] have "named s1" "lost i s1" "procs s1 i = procs s i"
    by (auto simp: stays_def)
  with Cons.IH [of s1] Cons.prems(3) s1(2) show ?case by simp
qed simp

text \<open>The loop of a leader that has lost the lock, between two heartbeats.\<close>

definition unaware :: "string \<Rightarrow> system \<Rightarrow> bool" where
  "unaware i s \<longleftrightarrow> named s \<and> lost i s \<and>
     (\<exists>p. procs s i = Some p \<and> role (el p) = RoleLeader \<and> (pc p \<in> {Idle, CheckCall} \<or> (\<exists>res. pc p = CheckRet res)))"

lemma checkLeader_ret_leader: "role e = RoleLeader \<Longrightarrow> \<exists>e1. checkLeader_ret res e = (False, e1) \<and> role e1 = RoleLeader"
  by (auto simp: checkLeader_ret_def startElection_begin_def IsLeader_def Let_def split: sum.splits prod.splits)

lemma unaware_step:
  assumes "unaware i s" "beside_or_check i a" "sys_act a s = Some s'"
  shows "unaware i s'"
proof -
  obtain p where s: "named s" "lost i s" "procs s i = Some p" "role (el p) = RoleLeader"
    "pc p \<in> {Idle, CheckCall} \<or> (\<exists>res. pc p = CheckRet res)" using assms(1) by (auto simp: unaware_def)
  note frame = sys_act_frame [OF s(1) assms(3)]
  consider "beside i a" | "a = CheckTick i" | "a = LoopCall i" | "a = LoopRet i"
    using assms(2) by (auto simp: beside_or_check_def)
  then show ?thesis
  proof cases
    case 1
    with frame s show ?thesis by (simp add: stays_def unaware_def)
  next
    case 2
    with assms(3) s(3) have "pc p = Idle" "s' = set_proc i (p\<lparr>pc := CheckCall\<rparr>) s"
      by (auto simp: sys_act_def proc_act_def split: if_splits)
    with frame(1) s show ?thesis by (simp add: unaware_def lost_def set_proc_def)
  next
    case 3
    obtain ans s1 where c: "call (CallGetHolder (nodeID (el p))) p s = (ans, s1)" by fastforce
    from 3 assms(3) s(3) have "loop_call i p s = Some s'" by (simp add: sys_act_def proc_act_def)
    with c s(5) obtain res where s': "s' = set_proc i (p\<lparr>pc := CheckRet res\<rparr>) s1"
      by (cases ans) (auto simp: Let_def)
    have "electionKey (el p) = lockKey s" "nodeID (el p) = i" using s(1,3) by (auto simp: named_def)
    with lost_call [OF s(2) c] s' have "lost i s'" by (simp add: lost_def set_proc_def)
    with frame(1) s s' show ?thesis by (simp add: unaware_def set_proc_def)
  next
    case 4
    then have "map_option (\<lambda>p1. set_proc i p1 s) (loop_ret p) = Some s'"
      using assms(3) s(3) by (simp add: sys_act_def proc_act_def)
    moreover from this s(5) obtain res where res: "pc p = CheckRet res" by (auto simp: loop_ret_def)
    moreover obtain e1 where "checkLeader_ret res (el p) = (False, e1)" "role e1 = RoleLeader"
      using checkLeader_ret_leader [OF s(4)] by blast
    ultimately have "s' = set_proc i (p\<lparr>el := e1, pc := Idle\<rparr>) s" "role e1 = RoleLeader" by (simp_all add: loop_ret_def)
    with frame(1) s(2) show ?thesis by (simp add: unaware_def lost_def set_proc_def)
  qed
qed

lemma unaware_run: "unaware i s \<Longrightarrow> list_all (beside_or_check i) as \<Longrightarrow> run_acts as s = Some s' \<Longrightarrow> unaware i s'"
  by (induction "as" arbitrary: s) (auto split: option.splits intro: unaware_step)

lemma run_acts_append: "run_acts (as @ bs) s = Option.bind (run_acts as s) (run_acts bs)"
  by (induction "as" arbitrary: s) (auto split: option.splits)

lemma lost_heartbeat:
  assumes "named s" "lost i s" "procs s i = Some p" "pc p = HeartbeatCall"
  obtains err s1 where "sys_act (LoopCall i) s = Some s1" "named s1" "lost i s1"
    "procs s1 i = Some (p\<lparr>pc := HeartbeatRet (Some err)\<rparr>)"
proof -
  have p: "nodeID (el p) = i" "electionKey (el p) = lockKey s" using assms(1,3) by (auto simp: named_def)
  let ?hb = "Heartbeat (lockKey s) i (LeaseDuration (ecfg (el p))) (clock s) (backend s)"
  have "fst ?hb \<noteq> None" using assms(2) by (auto simp: lost_def Heartbeat_def holds_def isExpired_def split: option.splits)
  then obtain err b where hb: "?hb = (Some err, b)" by (cases ?hb) auto
  then have b: "\<not> holds (lockKey s) i (clock s) b"
    using assms(2) by (auto simp: lost_def Heartbeat_def holds_def isExpired_def split: option.splits if_splits)
  let ?s1 = "set_proc i (p\<lparr>pc := HeartbeatRet (Some err)\<rparr>) (s\<lparr>backend := b\<rparr>)"
  have act: "sys_act (LoopCall i) s = Some ?s1"
    using assms(3,4) p hb by (simp add: sys_act_def proc_act_def call_def Let_def)
  moreover have "named ?s1" by (rule sys_act_frame(1) [OF assms(1) act])
  ultimately show ?thesis using that b by (simp add: lost_def set_proc_def)
qed

text \<open>
  C21. A leader that has lost the lock steps down at its next heartbeat, in every interleaving. The state is reachable
  from new electors by any actions, \<open>Resign\<close> and \<open>Stop\<close> included; the elector is leader, its loop waits for a tick, and
  the backend does not record it as the holder any more. Whatever the other electors, other users of the backend and the
  clock do, and however often its own loop checks the leader, it cannot get the lock back before the next heartbeat tick;
  from then on its call of the backend can be made, it fails, and when it has returned the elector becomes a follower that
  names no leader and tells its callbacks that the leadership is lost.
\<close>

theorem lost_leader_steps_down:
  assumes "initial s0" "reachable (\<lambda>_. True) s0 s"
    and "procs s i = Some p" "role (el p) = RoleLeader" "pc p = Idle"
    and "\<not> holds (lockKey s) i (clock s) (backend s)"
    and "list_all (beside_or_check i) before" "list_all (beside i) between"
    and "run_acts (before @ HeartbeatTick i # between) s = Some s2"
  shows "\<exists>p2 s3. procs s2 i = Some p2 \<and> role (el p2) = RoleLeader \<and> sys_act (LoopCall i) s2 = Some s3 \<and>
    (\<forall>after s4. list_all (beside i) after \<and> run_acts after s3 = Some s4 \<longrightarrow>
      (\<exists>s5 p5. sys_act (LoopRet i) s4 = Some s5 \<and> procs s5 i = Some p5 \<and>
        role (el p5) = RoleFollower \<and> leaderID (el p5) = [] \<and>
        (callbacks (el p2) \<noteq> 0 \<longrightarrow>
           map evType (emitted (el p5)) = map evType (emitted (el p2)) @ [EventLeaderLost, EventBecomeFollower])))"
proof -
  have "unaware i s" using reachable_named [OF assms(1,2)] assms(3-6) by (simp add: unaware_def lost_def)
  moreover obtain s1 s1' where s1: "run_acts before s = Some s1" "sys_act (HeartbeatTick i) s1 = Some s1'" "run_acts between s1' = Some s2"
    using assms(9) by (auto simp: run_acts_append bind_eq_Some_conv split: option.splits)
  ultimately have "unaware i s1" using unaware_run assms(7) by blast
  then obtain p1 where p1: "named s1" "lost i s1" "procs s1 i = Some p1" "role (el p1) = RoleLeader" by (auto simp: unaware_def)
  define p2 where "p2 = p1\<lparr>pc := HeartbeatCall\<rparr>"
  have "s1' = set_proc i p2 s1" using s1(2) p1 by (auto simp: sys_act_def proc_act_def IsLeader_def p2_def split: if_splits)
  then have "named s1'" "lost i s1'" "procs s1' i = Some p2"
    using sys_act_frame(1) [OF p1(1) s1(2)] p1(2) by (simp_all add: lost_def set_proc_def)
  with beside_run [OF _ _ assms(8) s1(3)] have s2: "named s2" "lost i s2" "procs s2 i = Some p2" by auto
  have "pc p2 = HeartbeatCall" by (simp add: p2_def)
  with s2 obtain err s3 where s3: "sys_act (LoopCall i) s2 = Some s3" "named s3" "lost i s3"
    "procs s3 i = Some (p2\<lparr>pc := HeartbeatRet (Some err)\<rparr>)" by (rule lost_heartbeat)
  have "\<exists>s5 p5. sys_act (LoopRet i) s4 = Some s5 \<and> procs s5 i = Some p5 \<and> role (el p5) = RoleFollower \<and> leaderID (el p5) = [] \<and>
      (callbacks (el p2) \<noteq> 0 \<longrightarrow>
         map evType (emitted (el p5)) = map evType (emitted (el p2)) @ [EventLeaderLost, EventBecomeFollower])"
    if "list_all (beside i) after" "run_acts after s3 = Some s4" for after s4
  proof -
    have "procs s4 i = Some (p2\<lparr>pc := HeartbeatRet (Some err)\<rparr>)" using beside_run [OF s3(2,3) that] s3(4) by simp
    then show ?thesis
      using p1(4) by (simp add: sys_act_def proc_act_def loop_ret_def set_proc_def doHeartbeat_ret_def notify_def p2_def Let_def)
  qed
  with s2(3) s3(1) p1(4) show ?thesis by (auto simp: p2_def)
qed

text \<open>The first elector of the takeover above, which has lost the lock to the second, checks the leader and then sends a heartbeat.\<close>

lemma example_lost:
  "\<exists>s p s2. run_acts (wins ''a'' @ Pass 11 # wins ''b'') example_system = Some s \<and>
     procs s ''a'' = Some p \<and> role (el p) = RoleLeader \<and> pc p = Idle \<and> \<not> holds (lockKey s) ''a'' (clock s) (backend s) \<and>
     run_acts ([CheckTick ''a'', LoopCall ''a'', LoopRet ''a''] @ HeartbeatTick ''a'' # [Pass 2]) s = Some s2"
  by (simp add: wins_def example_system_def elect_simps holds_def)

theorem lost_leader_steps_down_witness:
  "\<exists>s p. run_acts (wins ''a'' @ Pass 11 # wins ''b'' @
       [CheckTick ''a'', LoopCall ''a'', LoopRet ''a'', HeartbeatTick ''a'', Pass 2, LoopCall ''a'', LoopRet ''a'']) example_system = Some s \<and>
     procs s ''a'' = Some p \<and> role (el p) = RoleFollower \<and> leaderID (el p) = []"
proof -
  obtain s p s2 where s: "run_acts (wins ''a'' @ Pass 11 # wins ''b'') example_system = Some s"
    "procs s ''a'' = Some p" "role (el p) = RoleLeader" "pc p = Idle" "\<not> holds (lockKey s) ''a'' (clock s) (backend s)"
    and s2: "run_acts ([CheckTick ''a'', LoopCall ''a'', LoopRet ''a''] @ HeartbeatTick ''a'' # [Pass 2]) s = Some s2"
    using example_lost by blast
  have "reachable (\<lambda>_. True) example_system s"
    by (rule run_acts_reachable [OF reachable_init _ s(1)]) (simp add: wins_def)
  moreover have "list_all (beside_or_check ''a'') [CheckTick ''a'', LoopCall ''a'', LoopRet ''a'']" "list_all (beside ''a'') [Pass 2]"
    by (simp_all add: beside_or_check_def beside_def)
  ultimately obtain s3 where s3: "sys_act (LoopCall ''a'') s2 = Some s3"
    and ret: "\<And>after s4. list_all (beside ''a'') after \<Longrightarrow> run_acts after s3 = Some s4 \<Longrightarrow>
      \<exists>s5 p5. sys_act (LoopRet ''a'') s4 = Some s5 \<and> procs s5 ''a'' = Some p5 \<and> role (el p5) = RoleFollower \<and> leaderID (el p5) = []"
    using lost_leader_steps_down [OF example_initial _ s(2-5) _ _ s2] by blast
  obtain s5 p5 where s5: "sys_act (LoopRet ''a'') s3 = Some s5"
    and p5: "procs s5 ''a'' = Some p5" "role (el p5) = RoleFollower" "leaderID (el p5) = []"
    using ret [of "[]" s3] by auto
  have "run_acts ((wins ''a'' @ Pass 11 # wins ''b'') @
      ([CheckTick ''a'', LoopCall ''a'', LoopRet ''a''] @ HeartbeatTick ''a'' # [Pass 2]) @ [LoopCall ''a'', LoopRet ''a'']) example_system = Some s5"
    by (simp only: run_acts_append [of "wins ''a'' @ Pass 11 # wins ''b''"] s(1)
        run_acts_append [of "[CheckTick ''a'', LoopCall ''a'', LoopRet ''a''] @ HeartbeatTick ''a'' # [Pass 2]"] s2
        run_acts.simps s3 s5 Option.bind.simps option.case)
  with p5 show ?thesis by (intro exI [of _ s5] exI [of _ p5]) (simp only: append_assoc append_Cons append_Nil)
qed

lemma validated_factors:
  assumes "Validate c = None" "\<not> float64_nan (HeartbeatFactor c)" "\<not> float64_nan (CheckFactor c)"
  shows "0 < LeaseDuration c" "0 < float64_order (HeartbeatFactor c)"
    "float64_order (HeartbeatFactor c) < float64_order (CheckFactor c)" "float64_order (CheckFactor c) < 1023 * 2 ^ 52"
  using assms by (auto simp: Validate_def float64_le_def default_factors split: if_splits)



text \<open>
  Three facts about the code that the properties above step around. \<open>Resign\<close> releases the lock before
  it changes the role, so in between a second elector can be leader too, with no time having passed.
  \<open>Validate\<close> accepts leases so short that the heartbeat interval is zero. And it accepts a factor that is a NaN, for
  which every comparison is false; what the interval is then depends on the implementation.
\<close>

lemma resign_two_leaders:
  "\<exists>s p q. run_acts (wins ''a'' @ [ResignBegin ''a'', ResignUnlock ''a''] @ wins ''b'') example_system = Some s \<and>
     clock s = clock example_system \<and>
     procs s ''a'' = Some p \<and> role (el p) = RoleLeader \<and> procs s ''b'' = Some q \<and> role (el q) = RoleLeader"
  by (simp add: wins_def example_system_def elect_simps)

lemma validated_zero_heartbeat:
  "Validate (DefaultConfig\<lparr>LeaseDuration := 3\<rparr>) = None \<and> HeartbeatInterval unfit (DefaultConfig\<lparr>LeaseDuration := 3\<rparr>) = 0"
proof
  show "Validate (DefaultConfig\<lparr>LeaseDuration := 3\<rparr>) = None"
    by (simp add: Validate_def DefaultConfig_def float64_le_def default_factors)
  let ?h = "0x3FD3333333333333 :: 64 word"
  have h: "0 < float64_order ?h" "float64_order ?h < 1023 * 2 ^ 52" by (simp_all add: default_factors)
  note H = fraction_of [of 3 ?h, OF _ _ h, simplified]
  have "rounded (mantissa (rounded 3 0) * mantissa (float64_order ?h)) (exponent (rounded 3 0) + exponent (float64_order ?h))
      \<le> 1022 * 2 ^ 52 + (2 ^ 52 - 1)"
  proof (rule rounded_le)
    have "bitlen 3 = 2" using bitlen_unique [of 1 3] by simp
    then have "fval (rounded 3 0) = 3" using rounded_value(2) [of 3 0] powi_nat [of "- 51" 0] by (simp add: scaled_def grid_def)
    moreover have "fval 0x3FD3333333333333 = 5404319552844595 * 2 powi (- 54)"
      by (simp add: fval_def mantissa_def exponent_def)
    moreover have "fval (1022 * 2 ^ 52 + (2 ^ 52 - 1)) = 9007199254740991 * 2 powi (- 53)"
      by (simp add: fval_def mantissa_def exponent_def)
    ultimately show "of_int (mantissa (rounded 3 0) * mantissa (float64_order ?h)) *
        2 powi (exponent (rounded 3 0) + exponent (float64_order ?h)) \<le> fval (1022 * 2 ^ 52 + (2 ^ 52 - 1))"
      unfolding fraction_exact default_factors by (simp add: power_int_def power_one_over field_simps)
  qed (use H(1) in \<open>simp_all add: zero_less_mult_iff\<close>)
  then have "fraction_bits 3 ?h < 1023 * 2 ^ 52" by (simp add: fraction_bits_def)
  then have "fval (fraction_bits 3 ?h) < 1" using fval_less [of "fraction_bits 3 ?h" "1023 * 2 ^ 52"] H(2) fval_powi [of 0] by simp
  moreover have "0 \<le> fval (fraction_bits 3 ?h)" using fval_le_iff [of 0 "fraction_bits 3 ?h"] H(2) by (simp add: fval_def mantissa_def)
  ultimately have "\<lfloor>fval (fraction_bits 3 ?h)\<rfloor> = 0" by (simp add: floor_eq_iff)
  then show "HeartbeatInterval unfit (DefaultConfig\<lparr>LeaseDuration := 3\<rparr>) = 0"
    using H(4) [of unfit] by (simp add: HeartbeatInterval_def DefaultConfig_def)
qed

lemma validated_nan_factor:
  "Validate (DefaultConfig\<lparr>HeartbeatFactor := 0x7FF8000000000001\<rparr>) = None \<and>
   HeartbeatInterval unfit (DefaultConfig\<lparr>HeartbeatFactor := 0x7FF8000000000001\<rparr>) = sint (unfit 0x7FF8000000000001)"
proof -
  have "float64_nan 0x7FF8000000000001" by (simp add: float64_nan_def)
  then show ?thesis
    by (simp add: Validate_def HeartbeatInterval_def DefaultConfig_def float64_le_def float64_mul_def int_of_float_def
        default_factors)
qed

end
