(* ===== verification/Eventsrc.thy ===== *)
theory Eventsrc
  imports Prelude
begin

section \<open>Event sourcing (\<open>src/internal/eventsrc\<close>)\<close>

text \<open>
  The in-memory event store keeps the pointers it is given and numbers the events through them,
  so the events live in an explicit heap: a list of event records, an address being an index.
  \<open>EventStore\<close>, \<open>SnapshotStore\<close> and \<open>Aggregate\<close> are Go interfaces; the engine's functions take
  the methods they call as arguments. The locale \<open>event_log\<close> is the contract of the two stores,
  interpreted on the in-memory ones; an aggregate is application code, and what the engine needs of it
  is a hypothesis of the theorem about it. Versions are unbounded integers.
\<close>

subsection \<open>Data\<close>

datatype es_error =
    ErrAggregateNotFound | ErrVersionConflict | ErrInvalidEvent | ErrSnapshotNotFound
  | ErrAggregateNil | ErrEventNil | ErrSnapshotNil | ErrInvalidAggregateID | ErrAggregateIDMismatch
  | ErrApplication string

record Event =
  AggregateID :: string
  EventType :: string
  Data :: string
  Version :: int
  Timestamp :: int

type_synonym addr = nat
type_synonym heap = "Event list"

definition NewEvent :: "string \<Rightarrow> string \<Rightarrow> string \<Rightarrow> int \<Rightarrow> int \<Rightarrow> heap \<Rightarrow> addr \<times> heap" where
  "NewEvent aggregateID eventType dat version now h =
     (length h, h @ [\<lparr>AggregateID = aggregateID, EventType = eventType, Data = dat,
                      Version = version, Timestamp = now\<rparr>])"

record InMemoryEventStore =
  events :: "(string, addr list) fmap"
  versions :: "(string, int) fmap"

definition NewInMemoryEventStore :: InMemoryEventStore where
  "NewInMemoryEventStore = \<lparr>events = fmempty, versions = fmempty\<rparr>"

record Snapshot =
  snapAggregateID :: string
  snapVersion :: int
  State :: string
  snapTimestamp :: int

definition NewSnapshot :: "string \<Rightarrow> int \<Rightarrow> string \<Rightarrow> int \<Rightarrow> Snapshot" where
  "NewSnapshot aggregateID version state now =
     \<lparr>snapAggregateID = aggregateID, snapVersion = version, State = state, snapTimestamp = now\<rparr>"

type_synonym InMemorySnapshotStore = "(string, Snapshot) fmap"

definition NewInMemorySnapshotStore :: InMemorySnapshotStore where
  "NewInMemorySnapshotStore = fmempty"

subsection \<open>The event store\<close>

text \<open>A Go map read of an absent key gives the zero value.\<close>

definition getd :: "'v \<Rightarrow> ('k, 'v) fmap \<Rightarrow> 'k \<Rightarrow> 'v" where
  "getd d m k = (case fmlookup m k of None \<Rightarrow> d | Some v \<Rightarrow> v)"

text \<open>The first loop of \<open>AppendEvents\<close>: the first offending event decides the error.\<close>

fun validate_events :: "string \<Rightarrow> heap \<Rightarrow> addr option list \<Rightarrow> es_error option" where
  "validate_events aggregateID h [] = None"
| "validate_events aggregateID h (e # es) =
     (case e of
        None \<Rightarrow> Some ErrEventNil
      | Some p \<Rightarrow>
          if AggregateID (h ! p) \<noteq> '''' \<and> AggregateID (h ! p) \<noteq> aggregateID
          then Some ErrAggregateIDMismatch
          else validate_events aggregateID h es)"

text \<open>The second loop: stamp the event through its pointer and append the pointer.\<close>

fun append_loop ::
    "string \<Rightarrow> addr list \<Rightarrow> int \<Rightarrow> heap \<Rightarrow> (string, addr list) fmap \<Rightarrow> int \<times> heap \<times> (string, addr list) fmap" where
  "append_loop aggregateID [] v h m = (v, h, m)"
| "append_loop aggregateID (p # ps) v h m =
     append_loop aggregateID ps (v + 1)
       (h[p := (h ! p)\<lparr>AggregateID := aggregateID, Version := v + 1\<rparr>])
       (fmupd aggregateID (getd [] m aggregateID @ [p]) m)"

definition AppendEvents ::
    "string \<Rightarrow> int \<Rightarrow> addr option list \<Rightarrow> heap \<times> InMemoryEventStore \<Rightarrow>
     es_error option \<times> heap \<times> InMemoryEventStore" where
  "AppendEvents aggregateID expectedVersion es = (\<lambda>(h, s).
     if aggregateID = '''' then (Some ErrInvalidAggregateID, h, s)
     else if es = [] then (Some ErrInvalidEvent, h, s)
     else case validate_events aggregateID h es of
            Some err \<Rightarrow> (Some err, h, s)
          | None \<Rightarrow>
              let currentVersion = getd 0 (versions s) aggregateID
              in if currentVersion \<noteq> expectedVersion then (Some ErrVersionConflict, h, s)
                 else let (v, h1, m) = append_loop aggregateID (map the es) currentVersion h (events s)
                      in (None, h1, \<lparr>events = m, versions = fmupd aggregateID v (versions s)\<rparr>))"

text \<open>
  The result of \<open>LoadEvents\<close> is a slice of pointers. \<open>sort.Slice\<close> is not stable, which matters only
  for events of equal version; the model keeps those in place.
\<close>

definition LoadEvents ::
    "string \<Rightarrow> int \<Rightarrow> heap \<times> InMemoryEventStore \<Rightarrow> (es_error, addr list) result" where
  "LoadEvents aggregateID fromVersion = (\<lambda>(h, s).
     if aggregateID = '''' then Inl ErrInvalidAggregateID
     else case fmlookup (events s) aggregateID of
            None \<Rightarrow> Inl ErrAggregateNotFound
          | Some allEvents \<Rightarrow>
              Inr (sort_key (\<lambda>p. Version (h ! p))
                     (filter (\<lambda>p. Version (h ! p) > fromVersion) allEvents)))"

definition GetVersion :: "string \<Rightarrow> heap \<times> InMemoryEventStore \<Rightarrow> (es_error, int) result" where
  "GetVersion aggregateID = (\<lambda>(h, s).
     if aggregateID = '''' then Inl ErrInvalidAggregateID
     else case fmlookup (versions s) aggregateID of
            None \<Rightarrow> Inl ErrAggregateNotFound
          | Some v \<Rightarrow> Inr v)"

subsection \<open>The snapshot store\<close>

definition SaveSnapshot ::
    "Snapshot option \<Rightarrow> InMemorySnapshotStore \<Rightarrow> es_error option \<times> InMemorySnapshotStore" where
  "SaveSnapshot snapshot s =
     (case snapshot of
        None \<Rightarrow> (Some ErrSnapshotNil, s)
      | Some sn \<Rightarrow>
          if snapAggregateID sn = '''' then (Some ErrInvalidAggregateID, s)
          else (None, fmupd (snapAggregateID sn) sn s))"

definition LoadSnapshot :: "string \<Rightarrow> InMemorySnapshotStore \<Rightarrow> (es_error, Snapshot) result" where
  "LoadSnapshot aggregateID s =
     (if aggregateID = '''' then Inl ErrInvalidAggregateID
      else case fmlookup s aggregateID of
             None \<Rightarrow> Inl ErrSnapshotNotFound
           | Some sn \<Rightarrow> Inr sn)"

subsection \<open>The engine\<close>

text \<open>The methods of the interface \<open>Aggregate\<close>; a method that fails may already have changed the aggregate.\<close>

record 'a Aggregate =
  aggAggregateID :: "'a \<Rightarrow> string"
  aggVersion :: "'a \<Rightarrow> int"
  SetVersion :: "int \<Rightarrow> 'a \<Rightarrow> 'a"
  Apply :: "Event \<Rightarrow> 'a \<Rightarrow> es_error option \<times> 'a"
  MarshalState :: "'a \<Rightarrow> (es_error, string) result"
  UnmarshalState :: "string \<Rightarrow> 'a \<Rightarrow> es_error option \<times> 'a"

text \<open>The embeddable base of aggregates.\<close>

record BaseAggregate =
  base_id :: string
  base_version :: int

definition NewBaseAggregate :: "string \<Rightarrow> BaseAggregate" where
  "NewBaseAggregate i = \<lparr>base_id = i, base_version = 0\<rparr>"

definition base_AggregateID :: "BaseAggregate \<Rightarrow> string" where
  "base_AggregateID a = base_id a"

definition base_Version :: "BaseAggregate \<Rightarrow> int" where
  "base_Version a = base_version a"

definition IncrementVersion :: "BaseAggregate \<Rightarrow> BaseAggregate" where
  "IncrementVersion a = a\<lparr>base_version := base_version a + 1\<rparr>"

definition base_SetVersion :: "int \<Rightarrow> BaseAggregate \<Rightarrow> BaseAggregate" where
  "base_SetVersion v a = a\<lparr>base_version := v\<rparr>"

fun replay_loop :: "'a Aggregate \<Rightarrow> Event list \<Rightarrow> 'a \<Rightarrow> es_error option \<times> 'a" where
  "replay_loop A [] a = (None, a)"
| "replay_loop A (e # es) a =
     (case Apply A e a of
        (Some err, a1) \<Rightarrow> (Some err, a1)
      | (None, a1) \<Rightarrow> replay_loop A es a1)"

definition ReplayEvents :: "'a Aggregate \<Rightarrow> Event list \<Rightarrow> 'a option \<Rightarrow> es_error option \<times> 'a option" where
  "ReplayEvents A es a =
     (case a of
        None \<Rightarrow> (Some ErrAggregateNil, None)
      | Some a0 \<Rightarrow> apsnd Some (replay_loop A es a0))"

text \<open>\<open>load\<close> and \<open>loadSnap\<close> are the methods of the two stores, \<open>load\<close> with the events read through their pointers.\<close>

definition RebuildState ::
    "(string \<Rightarrow> int \<Rightarrow> (es_error, Event list) result) \<Rightarrow> (string \<Rightarrow> (es_error, Snapshot) result) \<Rightarrow>
     'a Aggregate \<Rightarrow> 'a option \<Rightarrow> es_error option \<times> 'a option" where
  "RebuildState load loadSnap A aggregate =
     (case aggregate of
        None \<Rightarrow> (Some ErrAggregateNil, None)
      | Some a \<Rightarrow>
          let aggregateID = aggAggregateID A a
          in if aggregateID = '''' then (Some ErrInvalidAggregateID, Some a)
             else let (err, fromVersion, a1) =
                        (case loadSnap aggregateID of
                           Inl err \<Rightarrow> (if err \<noteq> ErrSnapshotNotFound then Some err else None, 0, a)
                         | Inr snapshot \<Rightarrow>
                             (case UnmarshalState A (State snapshot) a of
                                (Some err, a1) \<Rightarrow> (Some err, 0, a1)
                              | (None, a1) \<Rightarrow>
                                  (None, snapVersion snapshot, SetVersion A (snapVersion snapshot) a1)))
                  in if err \<noteq> None then (err, Some a1)
                     else case load aggregateID fromVersion of
                            Inl err \<Rightarrow>
                              if err = ErrAggregateNotFound \<and> fromVersion = 0 then (None, Some a1)
                              else (Some err, Some a1)
                          | Inr es \<Rightarrow> ReplayEvents A es (Some a1))"

definition CreateSnapshot ::
    "'a Aggregate \<Rightarrow> 'a option \<Rightarrow> int \<Rightarrow> InMemorySnapshotStore \<Rightarrow> es_error option \<times> InMemorySnapshotStore" where
  "CreateSnapshot A aggregate now s =
     (case aggregate of
        None \<Rightarrow> (Some ErrAggregateNil, s)
      | Some a \<Rightarrow>
          let aggregateID = aggAggregateID A a
          in if aggregateID = '''' then (Some ErrInvalidAggregateID, s)
             else case MarshalState A a of
                    Inl err \<Rightarrow> (Some err, s)
                  | Inr state \<Rightarrow> SaveSnapshot (Some (NewSnapshot aggregateID (aggVersion A a) state now)) s)"

text \<open>The engine over the two in-memory stores; its remaining methods pass the call on.\<close>

record EventSourcingEngine =
  engHeap :: heap
  eventStore :: InMemoryEventStore
  snapshotStore :: InMemorySnapshotStore

definition NewEventSourcingEngine ::
    "heap \<Rightarrow> InMemoryEventStore \<Rightarrow> InMemorySnapshotStore \<Rightarrow> EventSourcingEngine" where
  "NewEventSourcingEngine h es ss = \<lparr>engHeap = h, eventStore = es, snapshotStore = ss\<rparr>"

definition read_events :: "heap \<times> InMemoryEventStore \<Rightarrow> string \<Rightarrow> int \<Rightarrow> (es_error, Event list) result" where
  "read_events w i v = map_sum id (map (\<lambda>p. fst w ! p)) (LoadEvents i v w)"

definition engine_AppendEvents ::
    "string \<Rightarrow> int \<Rightarrow> addr option list \<Rightarrow> EventSourcingEngine \<Rightarrow> es_error option \<times> EventSourcingEngine" where
  "engine_AppendEvents i v es e =
     (let (err, h, s) = AppendEvents i v es (engHeap e, eventStore e)
      in (err, e\<lparr>engHeap := h, eventStore := s\<rparr>))"

definition engine_LoadEvents :: "string \<Rightarrow> int \<Rightarrow> EventSourcingEngine \<Rightarrow> (es_error, Event list) result" where
  "engine_LoadEvents i v e = read_events (engHeap e, eventStore e) i v"

definition engine_GetVersion :: "string \<Rightarrow> EventSourcingEngine \<Rightarrow> (es_error, int) result" where
  "engine_GetVersion i e = GetVersion i (engHeap e, eventStore e)"

definition engine_SaveSnapshot ::
    "Snapshot option \<Rightarrow> EventSourcingEngine \<Rightarrow> es_error option \<times> EventSourcingEngine" where
  "engine_SaveSnapshot sn e =
     (let (err, s) = SaveSnapshot sn (snapshotStore e) in (err, e\<lparr>snapshotStore := s\<rparr>))"

definition engine_LoadSnapshot :: "string \<Rightarrow> EventSourcingEngine \<Rightarrow> (es_error, Snapshot) result" where
  "engine_LoadSnapshot i e = LoadSnapshot i (snapshotStore e)"

definition engine_RebuildState ::
    "'a Aggregate \<Rightarrow> 'a option \<Rightarrow> EventSourcingEngine \<Rightarrow> es_error option \<times> 'a option" where
  "engine_RebuildState A a e =
     RebuildState (read_events (engHeap e, eventStore e)) (\<lambda>i. LoadSnapshot i (snapshotStore e)) A a"

subsection \<open>Specification: append-only logs\<close>

text \<open>
  A client makes new events, described by their aggregate id, type, data and time (or passes nil),
  and appends them.
\<close>

type_synonym event_args = "string \<times> string \<times> string \<times> int"

datatype es_op =
    OpAppend string int "event_args option list"
  | OpLoad string int
  | OpVersion string

datatype es_out =
    OutErr "es_error option"
  | OutEvents "(es_error, Event list) result"
  | OutVersion "(es_error, int) result"

fun alloc :: "event_args option list \<Rightarrow> heap \<Rightarrow> addr option list \<times> heap" where
  "alloc [] h = ([], h)"
| "alloc (None # xs) h = (let (ps, h1) = alloc xs h in (None # ps, h1))"
| "alloc (Some (i, ty, d, t) # xs) h =
     (let (p, h1) = NewEvent i ty d 0 t h; (ps, h2) = alloc xs h1 in (Some p # ps, h2))"

fun es_step :: "es_op \<Rightarrow> heap \<times> InMemoryEventStore \<Rightarrow> es_out \<times> heap \<times> InMemoryEventStore" where
  "es_step (OpAppend i v xs) (h, s) =
     (let (ps, h1) = alloc xs h in apfst OutErr (AppendEvents i v ps (h1, s)))"
| "es_step (OpLoad i v) w = (OutEvents (read_events w i v), w)"
| "es_step (OpVersion i) w = (OutVersion (GetVersion i w), w)"

text \<open>An entry of a log: type, data and time. The event at position \<open>k\<close> has version \<open>k + 1\<close>.\<close>

type_synonym entry = "string \<times> string \<times> int"

definition numbered :: "string \<Rightarrow> int \<Rightarrow> entry list \<Rightarrow> Event list" where
  "numbered i v l =
     map (\<lambda>(k, ty, d, t). \<lparr>AggregateID = i, EventType = ty, Data = d, Version = v + 1 + int k, Timestamp = t\<rparr>)
       (enumerate 0 l)"

fun first_error :: "string \<Rightarrow> event_args option list \<Rightarrow> es_error option" where
  "first_error i [] = None"
| "first_error i (None # xs) = Some ErrEventNil"
| "first_error i (Some (j, ty, d, t) # xs) =
     (if j \<noteq> [] \<and> j \<noteq> i then Some ErrAggregateIDMismatch else first_error i xs)"

definition log_size :: "(string \<rightharpoonup> entry list) \<Rightarrow> string \<Rightarrow> int" where
  "log_size L i = (case L i of None \<Rightarrow> 0 | Some l \<Rightarrow> int (length l))"

fun log_step :: "es_op \<Rightarrow> (string \<rightharpoonup> entry list) \<Rightarrow> es_out \<times> (string \<rightharpoonup> entry list)" where
  "log_step (OpAppend i v xs) L =
     (if i = [] then (OutErr (Some ErrInvalidAggregateID), L)
      else if xs = [] then (OutErr (Some ErrInvalidEvent), L)
      else if first_error i xs \<noteq> None then (OutErr (first_error i xs), L)
      else if log_size L i \<noteq> v then (OutErr (Some ErrVersionConflict), L)
      else (OutErr None, L(i \<mapsto> (case L i of None \<Rightarrow> [] | Some l \<Rightarrow> l) @ map (snd \<circ> the) xs)))"
| "log_step (OpLoad i v) L =
     (OutEvents (if i = [] then Inl ErrInvalidAggregateID
                 else case L i of
                        None \<Rightarrow> Inl ErrAggregateNotFound
                      | Some l \<Rightarrow> Inr (filter (\<lambda>e. Version e > v) (numbered i 0 l))), L)"
| "log_step (OpVersion i) L =
     (OutVersion (if i = [] then Inl ErrInvalidAggregateID
                  else case L i of None \<Rightarrow> Inl ErrAggregateNotFound | Some l \<Rightarrow> Inr (int (length l))), L)"

subsection \<open>Refinement\<close>

definition entry_of :: "Event \<Rightarrow> entry" where
  "entry_of e = (EventType e, Data e, Timestamp e)"

definition deref :: "heap \<Rightarrow> addr list \<Rightarrow> Event list" where
  "deref h ps = map (\<lambda>p. h ! p) ps"

fun logs_of :: "heap \<times> InMemoryEventStore \<Rightarrow> string \<rightharpoonup> entry list" where
  "logs_of (h, s) = (\<lambda>i. map_option (\<lambda>ps. map entry_of (deref h ps)) (fmlookup (events s) i))"

text \<open>The stored pointers are allocated, and their events carry the aggregate and the versions from one on.\<close>

fun es_inv :: "heap \<times> InMemoryEventStore \<Rightarrow> bool" where
  "es_inv (h, s) \<longleftrightarrow>
     (\<forall>i. fmlookup (versions s) i = map_option (\<lambda>ps. int (length ps)) (fmlookup (events s) i)) \<and>
     (\<forall>i ps. fmlookup (events s) i = Some ps \<longrightarrow>
        (\<forall>p \<in> set ps. p < length h) \<and> deref h ps = numbered i 0 (map entry_of (deref h ps)))"

lemma deref_frame: "(\<And>p. p \<in> set ps \<Longrightarrow> h1 ! p = h ! p) \<Longrightarrow> deref h1 ps = deref h ps"
  by (simp add: deref_def)

lemma deref_append [simp]: "deref h (ps @ qs) = deref h ps @ deref h qs"
  by (simp add: deref_def)

lemma deref_simps [simp]: "deref h [] = []" "deref h (p # ps) = h ! p # deref h ps"
  by (simp_all add: deref_def)

lemma entry_of_event [simp]:
  "entry_of \<lparr>AggregateID = i, EventType = ty, Data = d, Version = v, Timestamp = t\<rparr> = (ty, d, t)"
  by (simp add: entry_of_def)

lemma length_deref [simp]: "length (deref h ps) = length ps"
  by (simp add: deref_def)

lemma length_numbered [simp]: "length (numbered i v l) = length l"
  by (simp add: numbered_def)

lemma numbered_append: "numbered i v (l @ l') = numbered i v l @ numbered i (v + int (length l)) l'"
  by (rule nth_equalityI)
     (auto simp: numbered_def nth_append nth_enumerate_eq split_beta)

lemma numbered_Cons [simp]:
  "numbered i v ((ty, d, t) # l) =
     \<lparr>AggregateID = i, EventType = ty, Data = d, Version = v + 1, Timestamp = t\<rparr> # numbered i (v + 1) l"
  using numbered_append [of i v "[(ty, d, t)]" l] by (simp add: numbered_def)

lemma numbered_Nil [simp]: "numbered i v [] = []"
  by (simp add: numbered_def)

lemma numbered_versions: "map Version (numbered i v l) = map (\<lambda>k. v + 1 + int k) [0..<length l]"
  by (rule nth_equalityI) (auto simp: numbered_def nth_enumerate_eq split_beta)

lemma numbered_sorted: "sorted (map Version (numbered i v l))"
  unfolding numbered_versions by (simp add: sorted_iff_nth_mono)

lemma map_entry_numbered: "map entry_of (numbered i v l) = l"
  by (rule nth_equalityI) (auto simp: numbered_def nth_enumerate_eq entry_of_def split_beta)

lemma append_loop_spec:
  assumes "append_loop i ps v h m = (v', h', m')" "distinct ps" "\<forall>p \<in> set ps. p < length h"
  shows "v' = v + int (length ps) \<and> length h' = length h \<and>
    (\<forall>q. q \<notin> set ps \<longrightarrow> h' ! q = h ! q) \<and>
    deref h' ps = numbered i v (map entry_of (deref h ps)) \<and>
    (ps \<noteq> [] \<longrightarrow> m' = fmupd i (getd [] m i @ ps) m)"
  using assms
proof (induction i ps v h m arbitrary: v' h' m' rule: append_loop.induct)
  case (2 i p ps v h m)
  let ?h = "h[p := (h ! p)\<lparr>AggregateID := i, Version := v + 1\<rparr>]"
  let ?m = "fmupd i (getd [] m i @ [p]) m"
  have IH: "v' = v + 1 + int (length ps) \<and> length h' = length ?h \<and>
    (\<forall>q. q \<notin> set ps \<longrightarrow> h' ! q = ?h ! q) \<and>
    deref h' ps = numbered i (v + 1) (map entry_of (deref ?h ps)) \<and>
    (ps \<noteq> [] \<longrightarrow> m' = fmupd i (getd [] ?m i @ ps) ?m)"
    using 2 by (intro "2.IH") auto
  have same: "deref ?h ps = deref h ps"
    using 2(3) by (intro deref_frame) (auto intro: nth_list_update_neq)
  have "h' ! p = \<lparr>AggregateID = i, EventType = EventType (h ! p), Data = Data (h ! p),
      Version = v + 1, Timestamp = Timestamp (h ! p)\<rparr>"
    using IH 2(3,4) by simp
  moreover have "m' = fmupd i (getd [] m i @ p # ps) m"
    using IH 2(2) by (cases "ps = []") (auto simp: getd_def)
  ultimately show ?case using IH [unfolded same] 2(3) by (auto simp: deref_def entry_of_def [of "h ! p"])
qed (simp add: deref_def)

lemma alloc_spec:
  assumes "alloc xs h = (ps, h1)"
  shows "(\<exists>r. h1 = h @ r) \<and> length ps = length xs \<and>
    validate_events i h1 ps = first_error i xs \<and>
    (first_error i xs = None \<longrightarrow>
       distinct (map the ps) \<and> (\<forall>p \<in> set (map the ps). length h \<le> p \<and> p < length h1) \<and>
       map entry_of (deref h1 (map the ps)) = map (snd \<circ> the) xs)"
  using assms
proof (induction xs h arbitrary: ps h1 rule: alloc.induct)
  case (2 xs h)
  then show ?case by (auto simp: Let_def split: prod.splits)
next
  case (3 j ty d t xs h)
  let ?e = "\<lparr>AggregateID = j, EventType = ty, Data = d, Version = 0, Timestamp = t\<rparr>"
  obtain qs where qs: "alloc xs (h @ [?e]) = (qs, h1)" "ps = Some (length h) # qs"
    using 3(2) by (auto simp: NewEvent_def Let_def split: prod.splits)
  have "(\<exists>r. h1 = (h @ [?e]) @ r) \<and> length qs = length xs \<and>
    validate_events i h1 qs = first_error i xs \<and>
    (first_error i xs = None \<longrightarrow>
       distinct (map the qs) \<and> (\<forall>p \<in> set (map the qs). length (h @ [?e]) \<le> p \<and> p < length h1) \<and>
       map entry_of (deref h1 (map the qs)) = map (snd \<circ> the) xs)"
    using "3.IH" [OF _ _ qs(1)] by (simp add: NewEvent_def)
  then show ?case using qs(2) by auto
qed simp

lemma es_inv_frame:
  assumes "es_inv (h, s)" "\<And>p. p < length h \<Longrightarrow> h1 ! p = h ! p" "length h \<le> length h1"
  shows "es_inv (h1, s)" "logs_of (h1, s) = logs_of (h, s)"
proof -
  have "deref h1 ps = deref h ps" if "fmlookup (events s) i = Some ps" for i ps
    using assms that by (intro deref_frame) auto
  with assms show "es_inv (h1, s)" "logs_of (h1, s) = logs_of (h, s)"
    by (fastforce, auto simp: fun_eq_iff map_option_case split: option.split)
qed

lemma es_inv_alloc:
  assumes "es_inv (h, s)" "alloc xs h = (ps, h1)"
  shows "es_inv (h1, s)" "logs_of (h1, s) = logs_of (h, s)"
proof -
  obtain r where "h1 = h @ r" using alloc_spec [OF assms(2)] by blast
  then have "\<And>p. p < length h \<Longrightarrow> h1 ! p = h ! p" "length h \<le> length h1" by (simp_all add: nth_append)
  from es_inv_frame [OF assms(1) this] show "es_inv (h1, s)" "logs_of (h1, s) = logs_of (h, s)" by blast+
qed

text \<open>Appending distinct new pointers extends one log.\<close>

lemma append_extends:
  assumes inv: "es_inv (h, s)" and loop: "append_loop i qs v h (events s) = (v2, h2, m2)"
    and qs: "distinct qs" "qs \<noteq> []" "\<forall>p \<in> set qs. p < length h"
    and new: "\<And>j ps. fmlookup (events s) j = Some ps \<Longrightarrow> set ps \<inter> set qs = {}"
    and v: "v = log_size (logs_of (h, s)) i"
  shows "es_inv (h2, \<lparr>events = m2, versions = fmupd i v2 (versions s)\<rparr>)"
    and "logs_of (h2, \<lparr>events = m2, versions = fmupd i v2 (versions s)\<rparr>) =
      (logs_of (h, s))(i \<mapsto> (case logs_of (h, s) i of None \<Rightarrow> [] | Some l \<Rightarrow> l) @ map entry_of (deref h qs))"
proof -
  let ?old = "getd [] (events s) i"
  from append_loop_spec [OF loop qs(1,3)] qs(2) have post:
    "v2 = v + int (length qs)" "length h2 = length h" "\<forall>q. q \<notin> set qs \<longrightarrow> h2 ! q = h ! q"
    "deref h2 qs = numbered i v (map entry_of (deref h qs))" "m2 = fmupd i (?old @ qs) (events s)"
    by auto
  have keep: "deref h2 ps = deref h ps" if "fmlookup (events s) j = Some ps" for j ps
    using new [OF that] post(3) by (intro deref_frame) auto
  have old: "v = int (length ?old)" "deref h2 ?old = numbered i 0 (map entry_of (deref h ?old))"
    "(case logs_of (h, s) i of None \<Rightarrow> [] | Some l \<Rightarrow> l) = map entry_of (deref h ?old)"
    "deref h2 ?old = deref h ?old" "\<forall>p \<in> set ?old. p < length h"
    using v inv keep by (auto simp: getd_def log_size_def deref_def [of _ "[]"] split: option.splits)
  have qs2: "map entry_of (deref h2 qs) = map entry_of (deref h qs)"
    unfolding post(4) by (rule map_entry_numbered)
  have "deref h2 (?old @ qs) = numbered i 0 (map entry_of (deref h2 (?old @ qs)))"
    using old post(4) qs2 by (simp add: numbered_append)
  then show "es_inv (h2, \<lparr>events = m2, versions = fmupd i v2 (versions s)\<rparr>)"
    using inv keep qs(3) old(1,5) post by auto
  show "logs_of (h2, \<lparr>events = m2, versions = fmupd i v2 (versions s)\<rparr>) =
      (logs_of (h, s))(i \<mapsto> (case logs_of (h, s) i of None \<Rightarrow> [] | Some l \<Rightarrow> l) @ map entry_of (deref h qs))"
    unfolding old(3) using keep old(4) qs2 post(5)
    by (auto simp: fun_eq_iff map_option_case split: option.split)
qed

lemma versions_log_size: "es_inv (h, s) \<Longrightarrow> getd 0 (versions s) i = log_size (logs_of (h, s)) i"
  by (auto simp: getd_def log_size_def map_option_case split: option.split)

lemma append_refines:
  assumes inv: "es_inv (h, s)"
  shows "es_inv (snd (es_step (OpAppend i v xs) (h, s))) \<and>
    log_step (OpAppend i v xs) (logs_of (h, s)) =
      (fst (es_step (OpAppend i v xs) (h, s)), logs_of (snd (es_step (OpAppend i v xs) (h, s))))"
proof -
  obtain ps h1 where al: "alloc xs h = (ps, h1)" by fastforce
  note al1 = alloc_spec [OF al, of i] and inv1 = es_inv_alloc [OF inv al]
  show ?thesis
  proof (cases "i = [] \<or> xs = [] \<or> first_error i xs \<noteq> None \<or> log_size (logs_of (h, s)) i \<noteq> v")
    case True
    then show ?thesis
      using al al1 inv1 versions_log_size [OF inv1(1), of i]
      by (auto simp: AppendEvents_def Let_def simp del: es_inv.simps logs_of.simps)
  next
    case False
    obtain v2 h2 m2 where loop: "append_loop i (map the ps) v h1 (events s) = (v2, h2, m2)"
      by (metis prod_cases3)
    have step: "es_step (OpAppend i v xs) (h, s) =
        (OutErr None, h2, \<lparr>events = m2, versions = fmupd i v2 (versions s)\<rparr>)"
      using False al al1 loop versions_log_size [OF inv1(1), of i] inv1(2)
      by (auto simp: AppendEvents_def simp del: es_inv.simps logs_of.simps)
    have new: "set qs \<inter> set (map the ps) = {}" if "fmlookup (events s) j = Some qs" for j qs
      using inv that al1 False by fastforce
    have old: "map the ps \<noteq> []" "distinct (map the ps)" "\<forall>p \<in> set (map the ps). p < length h1"
      "map entry_of (deref h1 (map the ps)) = map (snd \<circ> the) xs"
      using al1 False by auto
    have "v = log_size (logs_of (h1, s)) i" using False inv1(2) by simp
    from append_extends [OF inv1(1) loop old(2,1,3) new this] show ?thesis
      unfolding step inv1(2) old(4) using False by simp
  qed
qed

lemma filter_deref: "map (\<lambda>p. h ! p) (filter (\<lambda>p. P (h ! p)) ps) = filter P (deref h ps)"
  by (induction ps) (auto simp: deref_def)

lemma sorted_filter_version: "sorted (map Version es) \<Longrightarrow> sorted (map Version (filter P es))"
  by (rule sorted_filter)

lemma read_events_log:
  assumes "es_inv w" "i \<noteq> []"
  shows "read_events w i v =
    (case logs_of w i of None \<Rightarrow> Inl ErrAggregateNotFound
     | Some l \<Rightarrow> Inr (filter (\<lambda>e. Version e > v) (numbered i 0 l)))"
proof -
  obtain h s where w: "w = (h, s)" by fastforce
  show ?thesis
  proof (cases "fmlookup (events s) i")
    case None
    with assms(2) w show ?thesis by (simp add: read_events_def LoadEvents_def)
  next
    case (Some ps)
    have num: "deref h ps = numbered i 0 (map entry_of (deref h ps))" using assms(1) w Some by simp
    let ?fs = "filter (\<lambda>p. Version (h ! p) > v) ps"
    have sel: "deref h ?fs = filter (\<lambda>e. Version e > v) (deref h ps)"
      using filter_deref [of h "\<lambda>e. Version e > v" ps] by (simp add: deref_def [of h ?fs])
    have "sorted (map Version (filter (\<lambda>e. Version e > v) (deref h ps)))"
      by (subst num, rule sorted_filter_version, rule numbered_sorted)
    then have "sorted (map (\<lambda>p. Version (h ! p)) ?fs)"
      unfolding sel [symmetric] by (simp add: deref_def comp_def)
    then have "sort_key (\<lambda>p. Version (h ! p)) ?fs = ?fs" by (rule sort_key_id_if_sorted)
    with assms(2) w Some sel num show ?thesis
      by (simp add: read_events_def LoadEvents_def deref_def [of h ?fs])
  qed
qed

lemma es_step_refines:
  assumes "es_inv w"
  shows "es_inv (snd (es_step x w)) \<and> log_step x (logs_of w) = (fst (es_step x w), logs_of (snd (es_step x w)))"
proof (cases x)
  case (OpAppend i v xs)
  obtain h s where "w = (h, s)" by fastforce
  with append_refines [of h s i v xs] assms OpAppend show ?thesis by blast
next
  case (OpLoad i v)
  then show ?thesis using assms read_events_log [OF assms, of i v]
    by (cases "i = []") (auto simp: read_events_def [of _ "[]"] LoadEvents_def)
next
  case (OpVersion i)
  then show ?thesis using assms
    by (cases w) (auto simp: GetVersion_def split: option.split)
qed

interpretation es_log: refinement es_step es_inv log_step logs_of
  using es_step_refines by unfold_locales blast+

subsection \<open>What the engine relies on\<close>

lemma filter_versions_drop:
  assumes "map Version l = map (\<lambda>k. 1 + int k) [0..<length l]"
  shows "filter (\<lambda>e. Version e > int v) l = drop v l"
proof -
  have ver: "Version (l ! k) = 1 + int k" if "k < length l" for k
    using arg_cong [OF assms, of "\<lambda>xs. xs ! k"] that by simp
  have "\<not> Version e > int v" if "e \<in> set (take v l)" for e
    using that ver by (auto simp: in_set_conv_nth)
  moreover have "Version e > int v" if "e \<in> set (drop v l)" for e
    using that ver by (auto simp: in_set_conv_nth)
  ultimately have "filter (\<lambda>e. Version e > int v) (take v l @ drop v l) = drop v l"
    by (simp only: filter_append) (simp add: filter_empty_conv)
  then show ?thesis by simp
qed

lemma replay_loop_append:
  "replay_loop A (es @ es') a =
     (case replay_loop A es a of (Some err, a1) \<Rightarrow> (Some err, a1) | (None, a1) \<Rightarrow> replay_loop A es' a1)"
  by (induction es arbitrary: a) (auto split: prod.split option.split)

locale event_log =
  fixes load :: "'s \<Rightarrow> string \<Rightarrow> int \<Rightarrow> (es_error, Event list) result"
    and save :: "Snapshot option \<Rightarrow> 'p \<Rightarrow> es_error option \<times> 'p"
    and loadSnap :: "string \<Rightarrow> 'p \<Rightarrow> (es_error, Snapshot) result"
    and ok :: "'s \<Rightarrow> bool"
    and log :: "'s \<Rightarrow> string \<Rightarrow> Event list option"
  assumes load_law: "ok s \<Longrightarrow> i \<noteq> [] \<Longrightarrow> load s i v =
      (case log s i of None \<Rightarrow> Inl ErrAggregateNotFound | Some l \<Rightarrow> Inr (filter (\<lambda>e. Version e > v) l))"
    and log_versions: "ok s \<Longrightarrow> log s i = Some l \<Longrightarrow> map Version l = map (\<lambda>k. 1 + int k) [0..<length l]"
    and snap_law: "save (Some sn) p = (None, p1) \<Longrightarrow> loadSnap (snapAggregateID sn) p1 = Inr sn"
begin

lemma load_drop: "ok s \<Longrightarrow> i \<noteq> [] \<Longrightarrow> log s i = Some l \<Longrightarrow> load s i (int v) = Inr (drop v l)"
  using filter_versions_drop [OF log_versions] by (simp add: load_law)

lemma rebuild_from_snapshot:
  assumes "ok s" "log s i = Some l" "i \<noteq> []" "aggAggregateID A a0 = i"
    and "replay_loop A (take v l) a0 = (None, av)"
    and "save (Some sn) p = (None, p1)" "snapAggregateID sn = i" "snapVersion sn = int v"
    and "UnmarshalState A (State sn) a0 = (None, b)" "SetVersion A (int v) b = av"
  shows "RebuildState (load s) (\<lambda>i. loadSnap i p1) A (Some a0) = apsnd Some (replay_loop A l a0)"
proof -
  have "loadSnap i p1 = Inr sn" using snap_law [OF assms(6)] assms(7) by simp
  moreover have "replay_loop A l a0 = replay_loop A (drop v l) av"
    using replay_loop_append [of A "take v l" "drop v l" a0] assms(5) by simp
  ultimately show ?thesis
    using assms load_drop by (simp add: RebuildState_def ReplayEvents_def)
qed

end

interpretation mem_log: event_log read_events SaveSnapshot LoadSnapshot es_inv
    "\<lambda>w i. map_option (numbered i 0) (logs_of w i)"
proof
  fix s i v assume "es_inv s" "i \<noteq> ([] :: string)"
  then show "read_events s i v =
      (case map_option (numbered i 0) (logs_of s i) of None \<Rightarrow> Inl ErrAggregateNotFound
       | Some l \<Rightarrow> Inr (filter (\<lambda>e. Version e > v) l))"
    using read_events_log [of s i v] by (auto split: option.split)
next
  fix s i l assume "map_option (numbered i 0) (logs_of s i) = Some l"
  then show "map Version l = map (\<lambda>k. 1 + int k) [0..<length l]"
    by (auto simp: numbered_versions)
next
  fix sn p p1 assume "SaveSnapshot (Some sn) p = (None, p1)"
  then show "LoadSnapshot (snapAggregateID sn) p1 = Inr sn"
    by (auto simp: SaveSnapshot_def LoadSnapshot_def split: if_splits)
qed

lemma replay_counts:
  assumes "\<And>e a a'. Apply A e a = (None, a') \<Longrightarrow>
      aggVersion A a' = aggVersion A a + 1 \<and> aggAggregateID A a' = aggAggregateID A a"
    and "replay_loop A es a = (None, a')"
  shows "aggVersion A a' = aggVersion A a + int (length es) \<and> aggAggregateID A a' = aggAggregateID A a"
  using assms(2)
proof (induction es arbitrary: a)
  case (Cons e es)
  then obtain a1 where "Apply A e a = (None, a1)" "replay_loop A es a1 = (None, a')"
    by (auto split: prod.splits option.splits)
  with Cons.IH assms(1) show ?case by fastforce
qed simp

lemma new_store_inv: "es_inv ([], NewInMemoryEventStore)"
  by (simp add: NewInMemoryEventStore_def)

lemma logs_of_new: "logs_of ([], NewInMemoryEventStore) = Map.empty"
  by (simp add: NewInMemoryEventStore_def fun_eq_iff)

subsection \<open>Properties\<close>

text \<open>
  C23. From an empty store, every sequence of appends of new events, loads and version queries is
  answered as by one append-only log per aggregate: an append succeeds exactly when its expected
  version is the length of the log, so of two writers with the same expectation one gets
  \<open>ErrVersionConflict\<close>; the events are numbered from one without gaps; and a load returns those
  after the given version, in order.
\<close>

theorem event_store_is_log:
  "fst (run es_step ops ([], NewInMemoryEventStore)) = fst (run log_step ops Map.empty)"
  using es_log.run_refines [OF new_store_inv, of ops] by (simp add: logs_of_new del: logs_of.simps)

text \<open>
  C24. Rebuilding from a snapshot is replaying the whole log: for an aggregate that counts its
  events and restores what it marshalled, a snapshot taken after any number of events of the log
  makes \<open>RebuildState\<close> return the same error and the same state as a replay from the beginning.
\<close>

theorem rebuild_from_snapshot_is_full_replay:
  assumes "\<And>e a a'. Apply A e a = (None, a') \<Longrightarrow>
      aggVersion A a' = aggVersion A a + 1 \<and> aggAggregateID A a' = aggAggregateID A a"
    and "\<And>a st b. MarshalState A a = Inr st \<Longrightarrow> aggAggregateID A b = aggAggregateID A a \<Longrightarrow>
      \<exists>c. UnmarshalState A st b = (None, c) \<and> SetVersion A (aggVersion A a) c = a"
    and "w = snd (run es_step ops ([], NewInMemoryEventStore))" "logs_of w i = Some l"
    and "aggAggregateID A a0 = i" "aggVersion A a0 = 0" "v \<le> length l"
    and "replay_loop A (take v (numbered i 0 l)) a0 = (None, av)"
    and "CreateSnapshot A (Some av) now ss = (None, ss1)"
  shows "engine_RebuildState A (Some a0) (NewEventSourcingEngine (fst w) (snd w) ss1) =
    apsnd Some (replay_loop A (numbered i 0 l) a0)"
proof -
  have inv: "es_inv w" using es_log.run_inv [OF new_store_inv] assms(3) by simp
  have av: "aggVersion A av = int v" "aggAggregateID A av = i"
    using replay_counts [OF assms(1,8)] assms(5-7) by auto
  obtain st where st: "MarshalState A av = Inr st"
    "SaveSnapshot (Some (NewSnapshot i (int v) st now)) ss = (None, ss1)" "i \<noteq> []"
    using assms(9) av by (auto simp: CreateSnapshot_def Let_def split: sum.splits if_splits)
  obtain b where "UnmarshalState A st a0 = (None, b)" "SetVersion A (int v) b = av"
    using assms(2) [OF st(1), of a0] assms(5) av by auto
  with mem_log.rebuild_from_snapshot [OF inv _ st(3) assms(5,8) st(2)] assms(4)
  show ?thesis
    by (simp add: engine_RebuildState_def NewEventSourcingEngine_def NewSnapshot_def)
qed

text \<open>An aggregate that adds up the sizes of its events, for the example.\<close>

definition example_aggregate :: "(string \<times> int \<times> nat) Aggregate" where
  "example_aggregate =
     \<lparr>aggAggregateID = fst, aggVersion = fst \<circ> snd, SetVersion = (\<lambda>v (i, _, n). (i, v, n)),
      Apply = (\<lambda>e (i, v, n). (None, i, v + 1, n + length (Data e))),
      MarshalState = (\<lambda>(i, v, n). Inr (replicate n CHR ''x'')),
      UnmarshalState = (\<lambda>st (i, v, n). (None, i, v, length st))\<rparr>"

theorem rebuild_from_snapshot_is_full_replay_witness:
  "\<exists>ss1. engine_RebuildState example_aggregate (Some (''acc'', 0, 0))
     (NewEventSourcingEngine
        (fst (snd (run es_step [OpAppend ''acc'' 0 [Some ([], ''t'', ''ab'', 0), Some ([], ''t'', ''c'', 1)]]
                     ([], NewInMemoryEventStore))))
        (snd (snd (run es_step [OpAppend ''acc'' 0 [Some ([], ''t'', ''ab'', 0), Some ([], ''t'', ''c'', 1)]]
                     ([], NewInMemoryEventStore)))) ss1) = (None, Some (''acc'', 2, 3))"
proof -
  let ?A = example_aggregate and ?l = "[(''t'', ''ab'', 0), (''t'', ''c'', 1)] :: entry list"
  let ?ops = "[OpAppend ''acc'' 0 [Some ([], ''t'', ''ab'', 0), Some ([], ''t'', ''c'', 1)]]"
  let ?ss = "snd (CreateSnapshot ?A (Some (''acc'', 1, 2)) 9 NewInMemorySnapshotStore)"
  have "engine_RebuildState ?A (Some (''acc'', 0, 0))
      (NewEventSourcingEngine (fst (snd (run es_step ?ops ([], NewInMemoryEventStore))))
        (snd (snd (run es_step ?ops ([], NewInMemoryEventStore)))) ?ss) =
    apsnd Some (replay_loop ?A (numbered ''acc'' 0 ?l) (''acc'', 0, 0))"
  proof (rule rebuild_from_snapshot_is_full_replay [where v = 1 and av = "(''acc'', 1, 2)" and now = 9
        and ops = ?ops and ss = NewInMemorySnapshotStore])
    show "logs_of (snd (run es_step ?ops ([], NewInMemoryEventStore))) ''acc'' = Some ?l"
      by (simp add: NewInMemoryEventStore_def NewEvent_def AppendEvents_def getd_def deref_def)
  qed (auto simp: example_aggregate_def CreateSnapshot_def SaveSnapshot_def NewSnapshot_def Let_def)
  also have "\<dots> = (None, Some (''acc'', 2, 3))" by (simp add: example_aggregate_def)
  finally show ?thesis by blast
qed

text \<open>
  The numbering without gaps needs the pointers of one append to differ: the store stamps the version
  through the pointer, so an event passed twice ends with the later version in both places.
\<close>

lemma duplicate_pointer_loses_a_version:
  "map_sum id (map Version) (read_events (snd (AppendEvents ''acc'' 0 [Some 0, Some 0]
     ([\<lparr>AggregateID = [], EventType = ''t'', Data = [], Version = 0, Timestamp = 0\<rparr>], NewInMemoryEventStore)))
     ''acc'' 0) = Inr [2, 2]"
  by (simp add: AppendEvents_def NewInMemoryEventStore_def getd_def read_events_def LoadEvents_def)

end
