(* ===== verification/Myers.thy ===== *)
theory Myers
  imports Prelude "HOL-Library.Monad_Syntax"
begin

section \<open>Shortest edit scripts (\<open>src/internal/diffpatch/myers.go\<close>, lines 1 to 141)\<close>

text \<open>
  Myers' greedy algorithm as the code has it: the array \<open>v\<close> of furthest points, its copies in
  \<open>trace\<close>, and the walk back through them. A slice of fixed length is a function on its indices with
  the length beside it; every access of a slice is checked, and \<^const>\<open>None\<close> is the panic of an
  index out of range. The lemmas describe the edit graph, in which one may step right or down
  anywhere and diagonally on equal lines, show that stage \<open>d\<close> of the algorithm computes the
  furthest points reachable with \<open>d\<close> steps off the diagonals, and conclude that the result
  exists, transforms the old lines into the new ones and has the least number of edits.
\<close>

subsection \<open>The code\<close>

datatype editOp = opEqual | opDelete | opInsert

record editScript =
  op :: editOp
  line :: string

text \<open>Checked accesses: \<open>xs[i]\<close> on a slice of lines, and reads and writes of an integer slice.\<close>

definition at :: "'a list \<Rightarrow> int \<Rightarrow> 'a option" where
  "at xs i = (if 0 \<le> i \<and> i < int (length xs) then Some (xs ! nat i) else None)"

definition arr_read :: "int \<Rightarrow> (int \<Rightarrow> int) \<Rightarrow> int \<Rightarrow> int option" where
  "arr_read len v i = (if 0 \<le> i \<and> i < len then Some (v i) else None)"

definition arr_write :: "int \<Rightarrow> (int \<Rightarrow> int) \<Rightarrow> int \<Rightarrow> int \<Rightarrow> (int \<Rightarrow> int) option" where
  "arr_write len v i x = (if 0 \<le> i \<and> i < len then Some (v(i := x)) else None)"

text \<open>The inner loop that follows equal lines.\<close>

function snake :: "string list \<Rightarrow> string list \<Rightarrow> int \<Rightarrow> int \<Rightarrow> (int \<times> int) option" where
  "snake a b x y =
     (if x < int (length a) \<and> y < int (length b) then
        do { s \<leftarrow> at a x; t \<leftarrow> at b y;
             if s = t then snake a b (x + 1) (y + 1) else Some (x, y) }
      else Some (x, y))"
  by pat_completeness auto
termination by (relation "measure (\<lambda>(a, b, x, y). nat (int (length a) - x))") auto

declare snake.simps [simp del]

text \<open>
  The choice between a step down from diagonal \<open>k + 1\<close> and a step right from diagonal \<open>k - 1\<close>;
  the comparison is evaluated only between the two outermost diagonals.
\<close>

definition down :: "int \<Rightarrow> (int \<Rightarrow> int) \<Rightarrow> int \<Rightarrow> int \<Rightarrow> int \<Rightarrow> bool option" where
  "down len v offset d k =
     (if k = - d then Some True
      else if k \<noteq> d then
        do { l \<leftarrow> arr_read len v (offset + k - 1); r \<leftarrow> arr_read len v (offset + k + 1);
             Some (l < r) }
      else Some False)"

text \<open>The loop over the diagonals of one stage: \<open>Inr ()\<close> is the jump to \<open>backtrack\<close>.\<close>

function kloop ::
    "string list \<Rightarrow> string list \<Rightarrow> int \<Rightarrow> int \<Rightarrow> int \<Rightarrow> (int \<Rightarrow> int) \<Rightarrow> ((int \<Rightarrow> int) + unit) option" where
  "kloop a b offset d k v =
     (if k > d then Some (Inl v)
      else do {
        dn \<leftarrow> down (2 * offset + 1) v offset d k;
        x0 \<leftarrow> (if dn then arr_read (2 * offset + 1) v (offset + k + 1)
               else map_option (\<lambda>l. l + 1) (arr_read (2 * offset + 1) v (offset + k - 1)));
        (x, y) \<leftarrow> snake a b x0 (x0 - k);
        v1 \<leftarrow> arr_write (2 * offset + 1) v (offset + k) x;
        if x \<ge> int (length a) \<and> y \<ge> int (length b) then Some (Inr ())
        else kloop a b offset d (k + 2) v1 })"
  by pat_completeness auto
termination by (relation "measure (\<lambda>(a, b, offset, d, k, v). nat (d + 1 - k))") auto

declare kloop.simps [simp del]

text \<open>The walk back along equal lines, the script growing at its end.\<close>

function back_snake ::
    "string list \<Rightarrow> int \<Rightarrow> int \<Rightarrow> int \<Rightarrow> int \<Rightarrow> editScript list \<Rightarrow> (int \<times> int \<times> editScript list) option" where
  "back_snake a prevX prevY x y scripts =
     (if x > prevX \<and> y > prevY then
        do { l \<leftarrow> at a (x - 1);
             back_snake a prevX prevY (x - 1) (y - 1) (scripts @ [\<lparr>op = opEqual, line = l\<rparr>]) }
      else Some (x, y, scripts))"
  by pat_completeness auto
termination by (relation "measure (\<lambda>(a, prevX, prevY, x, y, s). nat (x - prevX))") auto

declare back_snake.simps [simp del]

fun back_loop ::
    "(int \<Rightarrow> int) list \<Rightarrow> string list \<Rightarrow> string list \<Rightarrow> int \<Rightarrow> nat \<Rightarrow> int \<Rightarrow> int \<Rightarrow> editScript list \<Rightarrow>
     editScript list option" where
  "back_loop trace a b offset 0 x y scripts =
     do { (x1, y1, s1) \<leftarrow> back_snake a 0 0 x y scripts; Some (rev s1) }"
| "back_loop trace a b offset (Suc d) x y scripts =
     do { let dd = int (Suc d);
          v \<leftarrow> at trace dd;
          let k = x - y;
          dn \<leftarrow> down (2 * offset + 1) v offset dd k;
          let prevK = (if dn then k + 1 else k - 1);
          prevX \<leftarrow> arr_read (2 * offset + 1) v (offset + prevK);
          let prevY = prevX - prevK;
          (x1, y1, s1) \<leftarrow> back_snake a prevX prevY x y scripts;
          if x1 > prevX then
            do { l \<leftarrow> at a (x1 - 1);
                 back_loop trace a b offset d (x1 - 1) y1 (s1 @ [\<lparr>op = opDelete, line = l\<rparr>]) }
          else if y1 > prevY then
            do { l \<leftarrow> at b (y1 - 1);
                 back_loop trace a b offset d x1 (y1 - 1) (s1 @ [\<lparr>op = opInsert, line = l\<rparr>]) }
          else back_loop trace a b offset d x1 y1 s1 }"

definition backtrack ::
    "(int \<Rightarrow> int) list \<Rightarrow> string list \<Rightarrow> string list \<Rightarrow> nat \<Rightarrow> int \<Rightarrow> editScript list option" where
  "backtrack trace a b d offset =
     back_loop trace a b offset d (int (length a)) (int (length b)) []"

text \<open>The loop over the stages; \<open>j\<close> counts the stages that are left.\<close>

fun dloop ::
    "string list \<Rightarrow> string list \<Rightarrow> int \<Rightarrow> nat \<Rightarrow> nat \<Rightarrow> (int \<Rightarrow> int) \<Rightarrow> (int \<Rightarrow> int) list \<Rightarrow> editScript list option" where
  "dloop a b offset 0 d v trace = Some []"
| "dloop a b offset (Suc j) d v trace =
     do { let trace1 = trace @ [v];
          res \<leftarrow> kloop a b offset (int d) (- int d) v;
          case res of
            Inl v1 \<Rightarrow> dloop a b offset j (Suc d) v1 trace1
          | Inr _ \<Rightarrow> backtrack trace1 a b d offset }"

definition myersDiff :: "string list \<Rightarrow> string list \<Rightarrow> editScript list option" where
  "myersDiff a b =
     (let n = length a; m = length b
      in if n = 0 \<and> m = 0 then Some []
         else if n = 0 then Some (map (\<lambda>l. \<lparr>op = opInsert, line = l\<rparr>) b)
         else if m = 0 then Some (map (\<lambda>l. \<lparr>op = opDelete, line = l\<rparr>) a)
         else let mx = n + m
              in dloop a b (int mx) (mx + 1) 0 ((\<lambda>_. 0)(int mx + 1 := 0)) [])"

subsection \<open>The edit graph\<close>

text \<open>\<open>eqat a b x y\<close>: there is a diagonal step from the point \<open>(x, y)\<close>.\<close>

definition eqat :: "string list \<Rightarrow> string list \<Rightarrow> int \<Rightarrow> int \<Rightarrow> bool" where
  "eqat a b x y \<longleftrightarrow>
     0 \<le> x \<and> x < int (length a) \<and> 0 \<le> y \<and> y < int (length b) \<and> a ! nat x = b ! nat y"

text \<open>\<open>reach a b d x y\<close>: some path from the origin to \<open>(x, y)\<close> has exactly \<open>d\<close> steps off the diagonals.\<close>

inductive reach :: "string list \<Rightarrow> string list \<Rightarrow> nat \<Rightarrow> int \<Rightarrow> int \<Rightarrow> bool" for a b where
  reach_origin: "reach a b 0 0 0"
| reach_right: "reach a b d x y \<Longrightarrow> reach a b (Suc d) (x + 1) y"
| reach_down: "reach a b d x y \<Longrightarrow> reach a b (Suc d) x (y + 1)"
| reach_diag: "reach a b d x y \<Longrightarrow> eqat a b x y \<Longrightarrow> reach a b d (x + 1) (y + 1)"

definition diagonal :: "string list \<Rightarrow> string list \<Rightarrow> int \<Rightarrow> int \<Rightarrow> nat \<Rightarrow> bool" where
  "diagonal a b x y s \<longleftrightarrow> (\<forall>i < s. eqat a b (x + int i) (y + int i))"

lemma diagonal_0 [simp]: "diagonal a b x y 0"
  by (simp add: diagonal_def)

lemma diagonal_Suc: "diagonal a b x y (Suc s) \<longleftrightarrow> diagonal a b x y s \<and> eqat a b (x + int s) (y + int s)"
  by (auto simp: diagonal_def less_Suc_eq)

lemma diagonal_Suc_front:
  "diagonal a b x y (Suc s) \<longleftrightarrow> eqat a b x y \<and> diagonal a b (x + 1) (y + 1) s"
  unfolding diagonal_def by (auto simp: less_Suc_eq_0_disj algebra_simps)

lemma reach_nonneg: "reach a b d x y \<Longrightarrow> 0 \<le> x \<and> 0 \<le> y"
  by (induction rule: reach.induct) auto

lemma reach_width: "reach a b d x y \<Longrightarrow> - int d \<le> x - y \<and> x - y \<le> int d"
  by (induction rule: reach.induct) auto

lemma reach_parity: "reach a b d x y \<Longrightarrow> even (x - y - int d)"
  by (induction rule: reach.induct) (auto simp: algebra_simps)

lemma reach_diagonal: "reach a b d x y \<Longrightarrow> diagonal a b x y s \<Longrightarrow> reach a b d (x + int s) (y + int s)"
proof (induction s)
  case (Suc s)
  then have "reach a b d (x + int s + 1) (y + int s + 1)"
    by (intro reach_diag) (auto simp: diagonal_Suc)
  then show ?case by (simp add: algebra_simps)
qed simp

lemma reach_0_cases: "reach a b 0 x y \<Longrightarrow> x = y \<and> diagonal a b 0 0 (nat x)"
proof (induction "0 :: nat" x y rule: reach.induct)
  case (reach_diag x y)
  then have "x = y" "diagonal a b 0 0 (nat y)" "eqat a b y y" "0 \<le> y" by (auto simp: eqat_def)
  moreover from this have "nat (y + 1) = Suc (nat y)" by simp
  ultimately show ?case by (simp add: diagonal_Suc)
qed simp_all

text \<open>A path with one more step off the diagonals: that step, then a diagonal.\<close>

lemma reach_Suc_cases:
  assumes "reach a b (Suc d) x y"
  shows "\<exists>x0 y0 s. x = x0 + int s \<and> y = y0 + int s \<and> diagonal a b x0 y0 s \<and>
    (reach a b d (x0 - 1) y0 \<or> reach a b d x0 (y0 - 1))"
  using assms
proof (induction "Suc d" x y rule: reach.induct)
  case (reach_right x y)
  then show ?case by (intro exI [of _ "x + 1"] exI [of _ y] exI [of _ 0]) simp
next
  case (reach_down x y)
  then show ?case by (intro exI [of _ x] exI [of _ "y + 1"] exI [of _ 0]) simp
next
  case (reach_diag x y)
  then obtain x0 y0 s where "x = x0 + int s" "y = y0 + int s" "diagonal a b x0 y0 s"
    "reach a b d (x0 - 1) y0 \<or> reach a b d x0 (y0 - 1)" by blast
  with reach_diag(3) show ?case
    by (intro exI [of _ x0] exI [of _ y0] exI [of _ "Suc s"]) (simp add: diagonal_Suc algebra_simps)
qed

text \<open>A path that leaves the grid can be cut back to it, and loses the steps outside.\<close>

lemma reach_clip:
  assumes "reach a b d x y"
  shows "\<exists>d'. reach a b d' (min x (int (length a))) (min y (int (length b))) \<and>
    int d' = int d - max 0 (x - int (length a)) - max 0 (y - int (length b))"
  using assms
proof (induction rule: reach.induct)
  case reach_origin
  show ?case using reach.reach_origin by (intro exI [of _ 0]) simp
next
  case (reach_right d x y)
  then obtain d' where d': "reach a b d' (min x (int (length a))) (min y (int (length b)))"
    "int d' = int d - max 0 (x - int (length a)) - max 0 (y - int (length b))" by blast
  show ?case
  proof (cases "x < int (length a)")
    case True
    with d' reach.reach_right [OF d'(1)] show ?thesis by (intro exI [of _ "Suc d'"]) (simp add: min_def)
  next
    case False
    with d' show ?thesis by (intro exI [of _ d']) (auto simp: min_def split: if_splits)
  qed
next
  case (reach_down d x y)
  then obtain d' where d': "reach a b d' (min x (int (length a))) (min y (int (length b)))"
    "int d' = int d - max 0 (x - int (length a)) - max 0 (y - int (length b))" by blast
  show ?case
  proof (cases "y < int (length b)")
    case True
    with d' reach.reach_down [OF d'(1)] show ?thesis by (intro exI [of _ "Suc d'"]) (simp add: min_def)
  next
    case False
    with d' show ?thesis by (intro exI [of _ d']) (auto simp: min_def split: if_splits)
  qed
next
  case (reach_diag d x y)
  then show ?case using reach.reach_diag [OF reach_diag(1,2)]
    by (intro exI [of _ d]) (auto simp: eqat_def min_def)
qed

lemma reach_steps: "reach a b (i + j) (int i) (int j)"
proof (induction i)
  case 0
  show ?case
  proof (induction j)
    case (Suc j)
    then show ?case using reach_down [OF Suc] by (simp add: algebra_simps)
  qed (simp add: reach_origin)
next
  case (Suc i)
  then show ?case using reach_right [OF Suc] by (simp add: algebra_simps)
qed

subsection \<open>Furthest points\<close>

lemma snake_spec:
  "0 \<le> x \<Longrightarrow> 0 \<le> y \<Longrightarrow>
   \<exists>s. snake a b x y = Some (x + int s, y + int s) \<and> diagonal a b x y s \<and>
     \<not> eqat a b (x + int s) (y + int s)"
proof (induction a b x y rule: snake.induct)
  case (1 a b x y)
  show ?case
  proof (cases "eqat a b x y")
    case True
    with 1 obtain s where "snake a b (x + 1) (y + 1) = Some (x + 1 + int s, y + 1 + int s)"
      "diagonal a b (x + 1) (y + 1) s" "\<not> eqat a b (x + 1 + int s) (y + 1 + int s)"
      by (force simp: eqat_def at_def)
    with True show ?thesis
      by (intro exI [of _ "Suc s"])
         (auto simp: snake.simps [of a b x y] diagonal_Suc_front eqat_def at_def algebra_simps)
  next
    case False
    with 1 show ?thesis
      by (intro exI [of _ 0]) (auto simp: snake.simps [of a b x y] eqat_def at_def)
  qed
qed

text \<open>\<open>x\<close> is the furthest point on diagonal \<open>k\<close> that paths with \<open>d\<close> steps off the diagonals reach.\<close>

definition far :: "string list \<Rightarrow> string list \<Rightarrow> nat \<Rightarrow> int \<Rightarrow> int \<Rightarrow> bool" where
  "far a b d k x \<longleftrightarrow> reach a b d x (x - k) \<and> (\<forall>x'. reach a b d x' (x' - k) \<longrightarrow> x' \<le> x)"

text \<open>
  \<open>x0\<close> starts the furthest diagonal: it is reached, and every point reached on the diagonal
  comes from a point at or before \<open>x0\<close> by diagonal steps.
\<close>

definition starts :: "string list \<Rightarrow> string list \<Rightarrow> nat \<Rightarrow> int \<Rightarrow> int \<Rightarrow> bool" where
  "starts a b d k x0 \<longleftrightarrow> reach a b d x0 (x0 - k) \<and>
     (\<forall>x. reach a b d x (x - k) \<longrightarrow>
        (\<exists>s. x - int s \<le> x0 \<and> diagonal a b (x - int s) (x - int s - k) s))"

lemma diagonal_part:
  assumes "diagonal a b (x - int s) (x - int s - k) s" "x - int s \<le> z" "z < x"
  shows "eqat a b z (z - k)"
proof -
  have "nat (z - (x - int s)) < s" using assms(2,3) by linarith
  then have "eqat a b (x - int s + int (nat (z - (x - int s)))) (x - int s - k + int (nat (z - (x - int s))))"
    using assms(1) unfolding diagonal_def by blast
  then show ?thesis using assms(2) by (simp add: algebra_simps)
qed

lemma starts_far:
  assumes "starts a b d k x0" "snake a b x0 (x0 - k) = Some (x, y)"
  shows "far a b d k x \<and> y = x - k"
proof -
  have x0: "reach a b d x0 (x0 - k)" using assms(1) by (simp add: starts_def)
  from snake_spec [of x0 "x0 - k" a b] reach_nonneg [OF x0] assms(2) obtain s where
    s: "x = x0 + int s" "y = x0 - k + int s" "diagonal a b x0 (x0 - k) s" "\<not> eqat a b x (x - k)"
    by (auto simp: algebra_simps)
  have "reach a b d x (x - k)"
    using reach_diagonal [OF x0 s(3)] s(1) by (simp add: algebra_simps)
  moreover have "x' \<le> x" if r: "reach a b d x' (x' - k)" for x'
  proof (rule ccontr)
    assume "\<not> x' \<le> x"
    moreover obtain t where "x' - int t \<le> x0" "diagonal a b (x' - int t) (x' - int t - k) t"
      using assms(1) r by (auto simp: starts_def)
    ultimately have "eqat a b x (x - k)" using s(1) by (intro diagonal_part [of a b x' t]) auto
    with s(4) show False by simp
  qed
  ultimately show ?thesis using s by (simp add: far_def)
qed

lemma starts_before:
  assumes "starts a b d k x0" "far a b d k x"
  shows "x0 \<le> x \<and> diagonal a b x0 (x0 - k) (nat (x - x0))"
proof -
  have le: "x0 \<le> x" using assms by (simp add: starts_def far_def)
  obtain s where "x - int s \<le> x0" "diagonal a b (x - int s) (x - int s - k) s"
    using assms by (auto simp: starts_def far_def)
  then have "eqat a b z (z - k)" if "x0 \<le> z" "z < x" for z
    using that by (intro diagonal_part [of a b x s]) auto
  with le show ?thesis by (auto simp: diagonal_def algebra_simps)
qed

lemma starts_0: "starts a b 0 0 0"
proof -
  have "\<exists>s. x - int s \<le> 0 \<and> diagonal a b (x - int s) (x - int s) s" if "reach a b 0 x x" for x
    using reach_0_cases [OF that] reach_nonneg [OF that] by (intro exI [of _ "nat x"]) simp
  then show ?thesis by (simp add: starts_def reach_origin)
qed

text \<open>The start on diagonal \<open>k\<close> from the furthest points of the previous stage on its neighbours.\<close>

lemma starts_Suc:
  assumes x0: "reach a b (Suc d) x0 (x0 - k)"
    and left: "\<And>x. reach a b d x (x - (k - 1)) \<Longrightarrow> x + 1 \<le> x0"
    and right: "\<And>x. reach a b d x (x - (k + 1)) \<Longrightarrow> x \<le> x0"
  shows "starts a b (Suc d) k x0"
proof -
  have "\<exists>s. x - int s \<le> x0 \<and> diagonal a b (x - int s) (x - int s - k) s"
    if "reach a b (Suc d) x (x - k)" for x
  proof -
    from reach_Suc_cases [OF that] obtain z w s where
      z: "x = z + int s" "x - k = w + int s" "diagonal a b z w s"
        "reach a b d (z - 1) w \<or> reach a b d z (w - 1)" by blast
    then have w: "w = z - k" by simp
    with z(4) left [of "z - 1"] right [of z] have "z \<le> x0" by (auto simp: algebra_simps)
    with z w show ?thesis by (intro exI [of _ s]) simp
  qed
  with x0 show ?thesis by (simp add: starts_def)
qed

subsection \<open>The stages of the algorithm\<close>

definition on_stage :: "nat \<Rightarrow> int \<Rightarrow> bool" where
  "on_stage d k \<longleftrightarrow> - int d \<le> k \<and> k \<le> int d \<and> even (k - int d)"

text \<open>What the array holds before stage \<open>d\<close>.\<close>

fun before :: "string list \<Rightarrow> string list \<Rightarrow> int \<Rightarrow> nat \<Rightarrow> (int \<Rightarrow> int) \<Rightarrow> bool" where
  "before a b offset 0 v \<longleftrightarrow> v (offset + 1) = 0"
| "before a b offset (Suc d) v \<longleftrightarrow> (\<forall>k. on_stage d k \<longrightarrow> far a b d k (v (offset + k)))"

lemma not_on_stage: "\<not> on_stage d k \<Longrightarrow> \<not> reach a b d x (x - k)"
  using reach_width [of a b d x "x - k"] reach_parity [of a b d x "x - k"] by (auto simp: on_stage_def)

text \<open>One choice of the code on a diagonal of stage \<open>d + 1\<close>: the neighbour it comes from and the start.\<close>

lemma choice_Suc:
  assumes v: "before a b offset (Suc d) v" and k: "on_stage (Suc d) k" and o: "int (Suc d) \<le> offset"
  shows "\<exists>dn prevK. down (2 * offset + 1) v offset (int (Suc d)) k = Some dn \<and>
    prevK = (if dn then k + 1 else k - 1) \<and> on_stage d prevK \<and> far a b d prevK (v (offset + prevK)) \<and>
    arr_read (2 * offset + 1) v (offset + prevK) = Some (v (offset + prevK)) \<and>
    starts a b (Suc d) k (if dn then v (offset + k + 1) else v (offset + k - 1) + 1)"
proof -
  let ?l = "v (offset + k - 1)" and ?r = "v (offset + k + 1)"
  have kb: "- int (Suc d) \<le> k" "k \<le> int (Suc d)" "even (k - int (Suc d))"
    using k by (auto simp: on_stage_def)
  have sl: "on_stage d (k - 1) \<longleftrightarrow> k \<noteq> - int (Suc d)" and sr: "on_stage d (k + 1) \<longleftrightarrow> k \<noteq> int (Suc d)"
    using kb by (auto simp: on_stage_def) presburger+
  have fl: "far a b d (k - 1) ?l" if "k \<noteq> - int (Suc d)"
    using v sl that by (metis before.simps(2) add_diff_eq)
  have fr: "far a b d (k + 1) ?r" if "k \<noteq> int (Suc d)"
    using v sr that by (metis before.simps(2) add.assoc)
  have rl: "reach a b (Suc d) (?l + 1) (?l + 1 - k)" if "k \<noteq> - int (Suc d)"
    using reach_right [of a b d ?l "?l - (k - 1)"] fl [OF that] by (simp add: far_def algebra_simps)
  have rr: "reach a b (Suc d) ?r (?r - k)" if "k \<noteq> int (Suc d)"
    using reach_down [of a b d ?r "?r - (k + 1)"] fr [OF that] by (simp add: far_def algebra_simps)
  have left: "x + 1 \<le> ?l + 1" if "reach a b d x (x - (k - 1))" for x
    using that fl sl not_on_stage [of d "k - 1" a b x] by (auto simp: far_def)
  have right: "x \<le> ?r" if "reach a b d x (x - (k + 1))" for x
    using that fr sr not_on_stage [of d "k + 1" a b x] by (auto simp: far_def)
  have none_l: "\<not> reach a b d x (x - (k - 1))" if "k = - int (Suc d)" for x
    using sl that not_on_stage by blast
  have none_r: "\<not> reach a b d x (x - (k + 1))" if "k = int (Suc d)" for x
    using sr that not_on_stage by blast
  have idx: "0 \<le> offset + k - 1" if "k \<noteq> - int (Suc d)" using that kb o by linarith
  have idx': "offset + k + 1 < 2 * offset + 1" if "k \<noteq> int (Suc d)" using that kb o by linarith
  define dn where "dn \<longleftrightarrow> k = - int (Suc d) \<or> (k \<noteq> int (Suc d) \<and> ?l < ?r)"
  have down: "down (2 * offset + 1) v offset (int (Suc d)) k = Some dn"
    using idx idx' kb o by (auto simp: down_def dn_def arr_read_def)
  show ?thesis
  proof (cases dn)
    case True
    then have "k \<noteq> int (Suc d)" using dn_def by auto
    moreover have "starts a b (Suc d) k ?r"
      using True dn_def none_l left right rr calculation by (intro starts_Suc) (auto, fastforce+)
    ultimately show ?thesis
      using True down fr sr idx' kb o by (intro exI [of _ True] exI [of _ "k + 1"]) (auto simp: arr_read_def add.assoc)
  next
    case False
    then have "k \<noteq> - int (Suc d)" using dn_def by auto
    moreover have "starts a b (Suc d) k (?l + 1)"
      using False dn_def none_r left right rl calculation by (intro starts_Suc) (auto, fastforce+)
    ultimately show ?thesis
      using False down fl sl idx kb o by (intro exI [of _ False] exI [of _ "k - 1"]) (auto simp: arr_read_def add_diff_eq)
  qed
qed

lemma before_write:
  "before a b offset d v \<Longrightarrow> on_stage d k \<Longrightarrow> before a b offset d (v(offset + k := x))"
  by (cases d) (auto simp: on_stage_def)

text \<open>One pass of the loop over the diagonals.\<close>

lemma kloop_step:
  assumes v: "before a b offset d v" and k: "on_stage d k" and o: "int d \<le> offset" "1 \<le> offset"
  shows "\<exists>x. far a b d k x \<and> kloop a b offset (int d) k v =
    (if x \<ge> int (length a) \<and> x - k \<ge> int (length b) then Some (Inr ())
     else kloop a b offset (int d) (k + 2) (v(offset + k := x)))"
proof -
  have "\<exists>dn x0. down (2 * offset + 1) v offset (int d) k = Some dn \<and>
      (if dn then arr_read (2 * offset + 1) v (offset + k + 1)
       else map_option (\<lambda>l. l + 1) (arr_read (2 * offset + 1) v (offset + k - 1))) = Some x0 \<and>
      starts a b d k x0"
  proof (cases d)
    case 0
    with v k o show ?thesis
      by (intro exI [of _ True] exI [of _ 0]) (auto simp: on_stage_def down_def arr_read_def starts_0)
  next
    case (Suc d')
    obtain dn prevK where "down (2 * offset + 1) v offset (int d) k = Some dn"
      "prevK = (if dn then k + 1 else k - 1)"
      "arr_read (2 * offset + 1) v (offset + prevK) = Some (v (offset + prevK))"
      "starts a b d k (if dn then v (offset + k + 1) else v (offset + k - 1) + 1)"
      using choice_Suc [of a b offset d' v k] v k o Suc by auto
    then show ?thesis by (cases dn) (auto simp: add.assoc add_diff_eq)
  qed
  then obtain dn x0 where dn: "down (2 * offset + 1) v offset (int d) k = Some dn"
    "(if dn then arr_read (2 * offset + 1) v (offset + k + 1)
      else map_option (\<lambda>l. l + 1) (arr_read (2 * offset + 1) v (offset + k - 1))) = Some x0"
    "starts a b d k x0" by blast
  then obtain x y where x: "snake a b x0 (x0 - k) = Some (x, y)"
    using snake_spec [of x0 "x0 - k" a b] reach_nonneg [of a b d x0 "x0 - k"] by (auto simp: starts_def)
  with starts_far [OF dn(3) x] have "far a b d k x" "y = x - k" by auto
  moreover have "arr_write (2 * offset + 1) v (offset + k) x = Some (v(offset + k := x))" "\<not> k > int d"
    using k o by (auto simp: arr_write_def on_stage_def)
  ultimately show ?thesis using dn x by (subst kloop.simps) auto
qed

definition passes :: "string list \<Rightarrow> string list \<Rightarrow> nat \<Rightarrow> bool" where
  "passes a b d \<longleftrightarrow> (\<exists>k x. far a b d k x \<and> int (length a) \<le> x \<and> int (length b) \<le> x - k)"

lemma kloop_spec:
  assumes "before a b offset d v" "even (k - int d)" "- int d \<le> k" "int d \<le> offset" "1 \<le> offset"
    and "\<And>k'. on_stage d k' \<Longrightarrow> k' < k \<Longrightarrow>
      far a b d k' (v (offset + k')) \<and> \<not> (int (length a) \<le> v (offset + k') \<and> int (length b) \<le> v (offset + k') - k')"
  shows "(passes a b d \<and> kloop a b offset (int d) k v = Some (Inr ())) \<or>
    (\<not> passes a b d \<and> (\<exists>v'. kloop a b offset (int d) k v = Some (Inl v') \<and> before a b offset (Suc d) v'))"
  using assms
proof (induction "nat (int d + 1 - k)" arbitrary: k v rule: less_induct)
  case less
  show ?case
  proof (cases "k > int d")
    case True
    then have all: "far a b d k' (v (offset + k')) \<and>
        \<not> (int (length a) \<le> v (offset + k') \<and> int (length b) \<le> v (offset + k') - k')" if "on_stage d k'" for k'
      using that by (intro less.prems(6)) (auto simp: on_stage_def)
    have "\<not> passes a b d"
    proof
      assume "passes a b d"
      then obtain k' x where x: "far a b d k' x" "int (length a) \<le> x" "int (length b) \<le> x - k'"
        by (auto simp: passes_def)
      then have "on_stage d k'" using not_on_stage [of d k' a b x] by (auto simp: far_def)
      moreover from all [OF this] x(1) have "v (offset + k') = x" by (auto simp: far_def intro: antisym)
      ultimately show False using all x by blast
    qed
    moreover have "kloop a b offset (int d) k v = Some (Inl v)" using True by (simp add: kloop.simps)
    ultimately show ?thesis using all by auto
  next
    case False
    then have k: "on_stage d k" using less.prems by (simp add: on_stage_def)
    obtain x where x: "far a b d k x" "kloop a b offset (int d) k v =
      (if x \<ge> int (length a) \<and> x - k \<ge> int (length b) then Some (Inr ())
       else kloop a b offset (int d) (k + 2) (v(offset + k := x)))"
      using kloop_step [OF less.prems(1) k less.prems(4,5)] by blast
    show ?thesis
    proof (cases "x \<ge> int (length a) \<and> x - k \<ge> int (length b)")
      case True
      with x show ?thesis by (auto simp: passes_def)
    next
      case out: False
      have small: "far a b d k' ((v(offset + k := x)) (offset + k')) \<and>
          \<not> (int (length a) \<le> (v(offset + k := x)) (offset + k') \<and>
             int (length b) \<le> (v(offset + k := x)) (offset + k') - k')"
        if "on_stage d k'" "k' < k + 2" for k'
      proof (cases "k' = k")
        case True
        with x out show ?thesis by auto
      next
        case False
        have "even (k' - k)" using that(1) k unfolding on_stage_def by presburger
        with False that(2) have "k' < k" by presburger
        with less.prems(6) that(1) False show ?thesis by simp
      qed
      have "nat (int d + 1 - (k + 2)) < nat (int d + 1 - k)" using False by simp
      moreover have "even (k + 2 - int d)" "- int d \<le> k + 2" using less.prems(2,3) by presburger+
      moreover have "kloop a b offset (int d) k v = kloop a b offset (int d) (k + 2) (v(offset + k := x))"
        using x(2) out by (simp only: if_False)
      ultimately show ?thesis
        using less.hyps [OF _ before_write [OF less.prems(1) k] _ _ less.prems(4,5) small] by metis
    qed
  qed
qed

lemma far_exists: "reach a b d x y \<Longrightarrow> \<exists>z. far a b d (x - y) z \<and> x \<le> z"
proof -
  assume r: "reach a b d x y"
  have bound: "x' \<le> int d + int (length a) + int (length b)" if "reach a b d x' y'" for x' y'
    using reach_clip [OF that] by (auto simp: max_def split: if_splits)
  let ?S = "{z. reach a b d z (z - (x - y))}"
  have "?S \<subseteq> {0..int d + int (length a) + int (length b)}" using bound reach_nonneg by fastforce
  then have "finite ?S" by (rule finite_subset) simp
  moreover have "x \<in> ?S" using r by simp
  ultimately have "Max ?S \<in> ?S" "\<forall>z \<in> ?S. z \<le> Max ?S"
    by (metis Max_in empty_iff, metis Max_ge)
  then have "far a b d (x - y) (Max ?S) \<and> x \<le> Max ?S" using \<open>x \<in> ?S\<close> by (auto simp: far_def)
  then show ?thesis by blast
qed

lemma passes_iff: "passes a b d \<longleftrightarrow> (\<exists>x y. reach a b d x y \<and> int (length a) \<le> x \<and> int (length b) \<le> y)"
proof
  assume "\<exists>x y. reach a b d x y \<and> int (length a) \<le> x \<and> int (length b) \<le> y"
  then obtain x y where xy: "reach a b d x y" "int (length a) \<le> x" "int (length b) \<le> y" by blast
  with far_exists [OF xy(1)] obtain z where "far a b d (x - y) z" "x \<le> z" by blast
  with xy show "passes a b d" unfolding passes_def by (intro exI [of _ "x - y"] exI [of _ z]) auto
qed (auto simp: passes_def far_def)

text \<open>At the first stage that passes the corner, the furthest point on the corner's diagonal is the corner.\<close>

lemma first_pass:
  assumes "passes a b d" "\<And>d'. d' < d \<Longrightarrow> \<not> passes a b d'"
  shows "far a b d (int (length a) - int (length b)) (int (length a))"
proof -
  let ?n = "int (length a)" and ?m = "int (length b)"
  have corner: "x = ?n \<and> y = ?m" if r: "reach a b d x y" and xy: "?n \<le> x" "?m \<le> y" for x y
  proof -
    obtain d' where d': "reach a b d' (min x ?n) (min y ?m)" "int d' = int d - max 0 (x - ?n) - max 0 (y - ?m)"
      using reach_clip [OF r] by blast
    have "reach a b d' ?n ?m" using d'(1) xy by (simp add: min_def split: if_splits)
    then have "passes a b d'" unfolding passes_iff by blast
    with assms(2) have "d \<le> d'" by (meson not_le)
    with d'(2) xy show ?thesis by (simp add: max_def split: if_splits)
  qed
  obtain x y where "reach a b d x y" "?n \<le> x" "?m \<le> y" using assms(1) by (auto simp: passes_iff)
  with corner have "reach a b d ?n ?m" by blast
  moreover have "x \<le> ?n" if "reach a b d x (x - (?n - ?m))" for x
    using corner [OF that] by (cases "?n \<le> x") auto
  ultimately show ?thesis by (simp add: far_def)
qed

subsection \<open>Edit scripts\<close>

fun old_of :: "editScript list \<Rightarrow> string list" where
  "old_of [] = []"
| "old_of (e # es) = (if op e = opInsert then old_of es else line e # old_of es)"

fun new_of :: "editScript list \<Rightarrow> string list" where
  "new_of [] = []"
| "new_of (e # es) = (if op e = opDelete then new_of es else line e # new_of es)"

definition edits :: "editScript list \<Rightarrow> nat" where
  "edits es = length (filter (\<lambda>e. op e \<noteq> opEqual) es)"

lemma old_of_append [simp]: "old_of (es @ fs) = old_of es @ old_of fs"
  by (induction es) auto

lemma new_of_append [simp]: "new_of (es @ fs) = new_of es @ new_of fs"
  by (induction es) auto

lemma edits_Cons [simp]: "edits (e # es) = (if op e = opEqual then edits es else Suc (edits es))"
  by (simp add: edits_def)

lemma edits_append [simp]: "edits (es @ fs) = edits es + edits fs"
  by (simp add: edits_def)

text \<open>Every script from \<open>a\<close> to \<open>b\<close> is a path to the corner.\<close>

lemma script_reach:
  "old_of es @ p = a \<Longrightarrow> new_of es @ q = b \<Longrightarrow>
   reach a b (edits es) (int (length (old_of es))) (int (length (new_of es)))"
proof (induction es arbitrary: p q rule: rev_induct)
  case Nil
  show ?case by (simp add: edits_def reach_origin)
next
  case (snoc e es)
  show ?case
  proof (cases "op e")
    case opEqual
    with snoc have "reach a b (edits es) (int (length (old_of es))) (int (length (new_of es)))"
      by (intro snoc.IH [of "line e # p" "line e # q"]) auto
    moreover have "eqat a b (int (length (old_of es))) (int (length (new_of es)))"
      using snoc.prems opEqual by (auto simp: eqat_def)
    ultimately show ?thesis using opEqual reach_diag by (fastforce simp: edits_def algebra_simps)
  next
    case opDelete
    with snoc have "reach a b (edits es) (int (length (old_of es))) (int (length (new_of es)))"
      by (intro snoc.IH [of "line e # p" q]) auto
    then show ?thesis using opDelete reach_right by (fastforce simp: edits_def algebra_simps)
  next
    case opInsert
    with snoc have "reach a b (edits es) (int (length (old_of es))) (int (length (new_of es)))"
      by (intro snoc.IH [of p "line e # q"]) auto
    then show ?thesis using opInsert reach_down by (fastforce simp: edits_def algebra_simps)
  qed
qed

definition equals :: "string list \<Rightarrow> int \<Rightarrow> nat \<Rightarrow> editScript list" where
  "equals a x s = map (\<lambda>i. \<lparr>op = opEqual, line = a ! (nat x + i)\<rparr>) [0..<s]"

lemma equals_Suc: "equals a x (Suc s) = equals a x s @ [\<lparr>op = opEqual, line = a ! (nat x + s)\<rparr>]"
  by (simp add: equals_def)

lemma edits_equals [simp]: "edits (equals a x s) = 0"
  by (simp add: edits_def equals_def)

lemma old_of_equals: "old_of (equals a x s) = map (\<lambda>i. a ! (nat x + i)) [0..<s]"
  by (induction s) (auto simp: equals_Suc, simp add: equals_def)

lemma new_of_equals: "new_of (equals a x s) = map (\<lambda>i. a ! (nat x + i)) [0..<s]"
  by (induction s) (auto simp: equals_Suc, simp add: equals_def)

lemma back_snake_spec:
  "prevX \<le> x0 \<Longrightarrow> prevY \<le> y0 \<Longrightarrow> prevX = x0 \<or> prevY = y0 \<Longrightarrow> 0 \<le> x0 \<Longrightarrow> x0 + int s \<le> int (length a) \<Longrightarrow>
   back_snake a prevX prevY (x0 + int s) (y0 + int s) scripts =
     Some (x0, y0, scripts @ rev (equals a x0 s))"
proof (induction s arbitrary: scripts)
  case 0
  then show ?case by (subst back_snake.simps) (auto simp: equals_def)
next
  case (Suc s)
  then have "at a (x0 + int s) = Some (a ! (nat x0 + s))"
    by (simp add: at_def nat_add_distrib)
  moreover have "prevX < x0 + int (Suc s)" "prevY < y0 + int (Suc s)" using Suc.prems by auto
  ultimately show ?case
    using Suc.IH [of "scripts @ [\<lparr>op = opEqual, line = a ! (nat x0 + s)\<rparr>]"] Suc.prems
    by (subst back_snake.simps) (simp add: equals_Suc algebra_simps)
qed

lemma take_snake:
  assumes "0 \<le> x0" "x0 + int s \<le> int (length a)"
  shows "take (nat x0) a @ map (\<lambda>i. a ! (nat x0 + i)) [0..<s] = take (nat (x0 + int s)) a"
proof -
  have "take s (drop (nat x0) a) = map (\<lambda>i. a ! (nat x0 + i)) [0..<s]"
    using assms by (intro nth_equalityI) auto
  moreover have "nat (x0 + int s) = nat x0 + s" using assms by (simp add: nat_add_distrib)
  ultimately show ?thesis by (simp add: take_add)
qed

lemma take_snake_new:
  assumes "diagonal a b x0 y0 s" "0 \<le> y0" "y0 + int s \<le> int (length b)" "0 \<le> x0"
  shows "take (nat y0) b @ map (\<lambda>i. a ! (nat x0 + i)) [0..<s] = take (nat (y0 + int s)) b"
proof -
  have "a ! (nat x0 + i) = b ! (nat y0 + i)" if "i < s" for i
    using assms that by (auto simp: diagonal_def eqat_def nat_add_distrib)
  then have "map (\<lambda>i. a ! (nat x0 + i)) [0..<s] = map (\<lambda>i. b ! (nat y0 + i)) [0..<s]" by simp
  with take_snake [OF assms(2,3)] show ?thesis by (simp only:)
qed

lemma take_one: "0 \<le> x \<Longrightarrow> x < int (length a) \<Longrightarrow> take (nat x) a @ [a ! nat x] = take (nat (x + 1)) a"
  using take_snake [of x 1 a] by (simp add: nat_add_distrib)

lemma append_step: "xs @ [c] = ys \<Longrightarrow> ys @ zs = ws \<Longrightarrow> xs @ c # zs = ws"
  by auto

text \<open>
  From the furthest point of stage \<open>d\<close> the walk back finds a script for the two prefixes with \<open>d\<close> edits.
\<close>

lemma back_loop_spec:
  assumes "\<And>j. j \<le> d \<Longrightarrow> j < length trace \<and> before a b offset j (trace ! j)"
    and "far a b d (x - y) x" "x \<le> int (length a)" "y \<le> int (length b)" "int d \<le> offset"
  shows "\<exists>p. back_loop trace a b offset d x y scripts = Some (p @ rev scripts) \<and>
    old_of p = take (nat x) a \<and> new_of p = take (nat y) b \<and> edits p = d"
  using assms
proof (induction d arbitrary: x y scripts)
  case 0
  have "reach a b 0 x y" using "0.prems"(2) by (simp add: far_def)
  then have xy: "x = y" "diagonal a b 0 0 (nat x)" "0 \<le> x" using reach_0_cases reach_nonneg by auto
  then have "back_snake a 0 0 x y scripts = Some (0, 0, scripts @ rev (equals a 0 (nat x)))"
    using back_snake_spec [of 0 0 0 0 "nat x" a scripts] "0.prems"(3) by simp
  moreover have "map (\<lambda>i. a ! i) [0..<nat x] = take (nat x) a"
    using take_snake [of 0 "nat x" a] xy "0.prems"(3) by simp
  moreover have "map (\<lambda>i. a ! i) [0..<nat x] = take (nat y) b"
    using take_snake_new [of a b 0 0 "nat x"] xy "0.prems"(4) by simp
  ultimately show ?case
    by (intro exI [of _ "equals a 0 (nat x)"]) (simp add: old_of_equals new_of_equals)
next
  case (Suc d)
  let ?v = "trace ! Suc d" and ?k = "x - y"
  have v: "before a b offset (Suc d) ?v" "at trace (int (Suc d)) = Some ?v"
    using Suc.prems(1) [of "Suc d"] by (auto simp: at_def simp del: of_nat_Suc)
  have k: "on_stage (Suc d) ?k"
    using Suc.prems(2) not_on_stage [of "Suc d" ?k a b x] by (auto simp: far_def)
  obtain dn prevK where ch: "down (2 * offset + 1) ?v offset (int (Suc d)) ?k = Some dn"
    "prevK = (if dn then ?k + 1 else ?k - 1)" "far a b d prevK (?v (offset + prevK))"
    "arr_read (2 * offset + 1) ?v (offset + prevK) = Some (?v (offset + prevK))"
    "starts a b (Suc d) ?k (if dn then ?v (offset + ?k + 1) else ?v (offset + ?k - 1) + 1)"
    using choice_Suc [OF v(1) k Suc.prems(5)] by auto
  define px where "px = ?v (offset + prevK)"
  define py where "py = px - prevK"
  define x0 where "x0 = (if dn then px else px + 1)"
  have nn: "0 \<le> px" "0 \<le> py" using ch(3) reach_nonneg [of a b d px py] by (auto simp: far_def px_def py_def)
  have st: "starts a b (Suc d) ?k x0" using ch(2,5) by (auto simp: x0_def px_def algebra_simps)
  define s where "s = nat (x - x0)"
  have s: "x = x0 + int s" "y = (x0 - ?k) + int s" "diagonal a b x0 (x0 - ?k) s"
    using starts_before [OF st Suc.prems(2)] by (auto simp: s_def)
  have y0: "x0 - ?k = (if dn then py + 1 else py)" using ch(2) by (auto simp: x0_def py_def)
  have bs: "back_snake a px py x y sc = Some (x0, x0 - ?k, sc @ rev (equals a x0 s))" for sc
    using back_snake_spec [of px x0 py "x0 - ?k" s a sc] s Suc.prems(3) nn y0 by (auto simp: x0_def)
  have IH: "\<exists>p. back_loop trace a b offset d px py sc = Some (p @ rev sc) \<and>
      old_of p = take (nat px) a \<and> new_of p = take (nat py) b \<and> edits p = d" for sc
    using Suc.prems s y0 ch(3) by (intro Suc.IH) (auto simp: px_def py_def x0_def split: if_splits)
  have olds: "take (nat x0) a @ old_of (equals a x0 s) = take (nat x) a"
    using take_snake [of x0 s a] s(1) Suc.prems(3) nn by (auto simp: old_of_equals x0_def)
  have news: "take (nat (x0 - ?k)) b @ new_of (equals a x0 s) = take (nat y) b"
    using take_snake_new [OF s(3)] s Suc.prems(4) nn y0 by (auto simp: new_of_equals x0_def)
  have unf: "back_loop trace a b offset (Suc d) x y scripts =
      (if px < x0 then at a (x0 - 1) \<bind>
         (\<lambda>l. back_loop trace a b offset d (x0 - 1) (x0 - ?k) ((scripts @ rev (equals a x0 s)) @ [\<lparr>op = opDelete, line = l\<rparr>]))
       else if py < x0 - ?k then at b (x0 - ?k - 1) \<bind>
         (\<lambda>l. back_loop trace a b offset d x0 (x0 - ?k - 1) ((scripts @ rev (equals a x0 s)) @ [\<lparr>op = opInsert, line = l\<rparr>]))
       else back_loop trace a b offset d x0 (x0 - ?k) (scripts @ rev (equals a x0 s)))"
    by (simp add: v(2) ch(1,4) bs Let_def ch(2) [symmetric] px_def [symmetric] py_def [symmetric] del: of_nat_Suc)
  show ?case
  proof (cases dn)
    case True
    let ?e = "\<lparr>op = opInsert, line = b ! nat py\<rparr>"
    obtain p where p: "back_loop trace a b offset d px py (scripts @ rev (equals a x0 s) @ [?e]) =
        Some (p @ ?e # equals a x0 s @ rev scripts)"
      "old_of p = take (nat px) a" "new_of p = take (nat py) b" "edits p = d"
      using IH [of "scripts @ rev (equals a x0 s) @ [?e]"] by auto
    have "at b py = Some (b ! nat py)" using nn y0 True s Suc.prems(4) by (simp add: at_def)
    then have "back_loop trace a b offset (Suc d) x y scripts = Some (p @ ?e # equals a x0 s @ rev scripts)"
      using True p(1) y0 unfolding unf by (simp add: x0_def)
    moreover have "take (nat py) b @ b ! nat py # new_of (equals a x0 s) = take (nat y) b"
      by (rule append_step [OF take_one]) (use news True y0 nn s Suc.prems(4) in auto)
    ultimately show ?thesis using p True olds
      by (intro exI [of _ "p @ ?e # equals a x0 s"]) (simp add: x0_def del: back_loop.simps)
  next
    case False
    let ?e = "\<lparr>op = opDelete, line = a ! nat px\<rparr>"
    obtain p where p: "back_loop trace a b offset d px py (scripts @ rev (equals a x0 s) @ [?e]) =
        Some (p @ ?e # equals a x0 s @ rev scripts)"
      "old_of p = take (nat px) a" "new_of p = take (nat py) b" "edits p = d"
      using IH [of "scripts @ rev (equals a x0 s) @ [?e]"] by auto
    have "at a px = Some (a ! nat px)" using nn False s Suc.prems(3) by (simp add: at_def x0_def)
    then have "back_loop trace a b offset (Suc d) x y scripts = Some (p @ ?e # equals a x0 s @ rev scripts)"
      using False p(1) y0 unfolding unf by (simp add: x0_def)
    moreover have "take (nat px) a @ a ! nat px # old_of (equals a x0 s) = take (nat x) a"
      by (rule append_step [OF take_one]) (use olds False nn s Suc.prems(3) in \<open>auto simp: x0_def\<close>)
    ultimately show ?thesis using p False news y0
      by (intro exI [of _ "p @ ?e # equals a x0 s"]) (simp del: back_loop.simps)
  qed
qed

lemma dloop_spec:
  assumes "j + d = length a + length b + 1" "length trace = d"
    and "\<And>i. i < d \<Longrightarrow> before a b offset i (trace ! i)" "before a b offset d v"
    and "\<And>d'. d' < d \<Longrightarrow> \<not> passes a b d'"
    and "offset = int (length a + length b)" "1 \<le> offset"
  shows "\<exists>p. dloop a b offset j d v trace = Some p \<and> old_of p = a \<and> new_of p = b \<and>
    (\<forall>d' < edits p. \<not> passes a b d')"
  using assms
proof (induction j arbitrary: d v trace)
  case 0
  have "passes a b (length a + length b)" using reach_steps [of a b "length a" "length b"] passes_iff by blast
  with 0 show ?case by simp
next
  case (Suc j)
  have d: "int d \<le> offset" using Suc.prems(1,6) by simp
  have start: "(passes a b d \<and> kloop a b offset (int d) (- int d) v = Some (Inr ())) \<or>
    (\<not> passes a b d \<and> (\<exists>v'. kloop a b offset (int d) (- int d) v = Some (Inl v') \<and> before a b offset (Suc d) v'))"
    by (rule kloop_spec [OF Suc.prems(4) _ _ d Suc.prems(7)]) (auto simp: on_stage_def)
  have trace: "before a b offset i ((trace @ [v]) ! i)" if "i \<le> d" for i
    using that Suc.prems(2,3,4) by (auto simp: nth_append le_less)
  show ?case
  proof (cases "passes a b d")
    case True
    with start have k: "kloop a b offset (int d) (- int d) v = Some (Inr ())" by blast
    obtain p where "back_loop (trace @ [v]) a b offset d (int (length a)) (int (length b)) [] = Some (p @ rev [])"
      "old_of p = take (nat (int (length a))) a" "new_of p = take (nat (int (length b))) b" "edits p = d"
      using back_loop_spec [OF _ first_pass [OF True Suc.prems(5)] _ _ d, of "trace @ [v]" "[]"] trace Suc.prems(2)
      by auto
    with k Suc.prems(5) show ?thesis by (intro exI [of _ p]) (simp add: backtrack_def)
  next
    case False
    with start obtain v' where v': "kloop a b offset (int d) (- int d) v = Some (Inl v')"
      "before a b offset (Suc d) v'" by blast
    have "\<exists>p. dloop a b offset j (Suc d) v' (trace @ [v]) = Some p \<and> old_of p = a \<and> new_of p = b \<and>
        (\<forall>d' < edits p. \<not> passes a b d')"
      using Suc.prems v'(2) trace False by (intro Suc.IH) (auto simp: less_Suc_eq_le le_less)
    with v'(1) show ?thesis by simp
  qed
qed

lemma script_length: "edits es \<le> length es"
  by (simp add: edits_def)

lemma old_new_edits: "length (old_of es) \<le> length (new_of es) + edits es \<and> length (new_of es) \<le> length (old_of es) + edits es"
  by (induction es) (auto simp: edits_def)

lemma old_of_map: "old_of (map (\<lambda>l. \<lparr>op = opInsert, line = l\<rparr>) b) = []" "old_of (map (\<lambda>l. \<lparr>op = opDelete, line = l\<rparr>) a) = a"
  by (induction b, auto) (induction a, auto)

lemma new_of_map: "new_of (map (\<lambda>l. \<lparr>op = opInsert, line = l\<rparr>) b) = b" "new_of (map (\<lambda>l. \<lparr>op = opDelete, line = l\<rparr>) a) = []"
  by (induction b, auto) (induction a, auto)

lemma myersDiff_spec:
  "\<exists>ses. myersDiff a b = Some ses \<and> old_of ses = a \<and> new_of ses = b \<and>
     (\<forall>ses'. old_of ses' = a \<longrightarrow> new_of ses' = b \<longrightarrow> edits ses \<le> edits ses')"
proof (cases "a = [] \<or> b = []")
  case True
  let ?ses = "if a = [] then map (\<lambda>l. \<lparr>op = opInsert, line = l\<rparr>) b else map (\<lambda>l. \<lparr>op = opDelete, line = l\<rparr>) a"
  have "myersDiff a b = Some ?ses" "old_of ?ses = a" "new_of ?ses = b" "edits ?ses = length a + length b"
    using True by (auto simp: myersDiff_def Let_def old_of_map new_of_map edits_def comp_def)
  moreover have "length a + length b \<le> edits ses'" if "old_of ses' = a" "new_of ses' = b" for ses'
    using old_new_edits [of ses'] that True by auto
  ultimately show ?thesis by auto
next
  case False
  let ?mx = "int (length a + length b)"
  have init: "1 \<le> ?mx" using False by (cases a) auto
  obtain ses where ses: "dloop a b ?mx (length a + length b + 1) 0 ((\<lambda>_. 0)(?mx + 1 := 0)) [] = Some ses"
    "old_of ses = a" "new_of ses = b" "\<forall>d' < edits ses. \<not> passes a b d'"
    using dloop_spec [of "length a + length b + 1" 0 a b "[]" ?mx "(\<lambda>_. 0)(?mx + 1 := 0)"] init by auto
  have "edits ses \<le> edits ses'" if "old_of ses' = a" "new_of ses' = b" for ses'
  proof -
    have "passes a b (edits ses')"
      using script_reach [of ses' "[]" a "[]" b] that passes_iff by auto
    with ses(4) show ?thesis by (meson not_le)
  qed
  moreover have "myersDiff a b = Some ses" using False ses(1) by (simp add: myersDiff_def Let_def)
  ultimately show ?thesis using ses by blast
qed

subsection \<open>Properties\<close>

text \<open>
  C25. \<open>myersDiff\<close> returns, for all inputs and without an index out of range, a script that keeps or
  deletes exactly the old lines and keeps or inserts exactly the new ones, in order, and no script that
  does so has fewer insertions and deletions.
\<close>

theorem myers_shortest_edit_script:
  "\<exists>ses. myersDiff a b = Some ses \<and> old_of ses = a \<and> new_of ses = b \<and>
     (\<forall>ses'. old_of ses' = a \<longrightarrow> new_of ses' = b \<longrightarrow> edits ses \<le> edits ses')"
  by (rule myersDiff_spec)

theorem myers_shortest_edit_script_witness:
  "\<exists>ses. myersDiff [''a'', ''b''] [''b'', ''c''] = Some ses \<and> edits ses \<le> 2"
proof -
  let ?s = "[\<lparr>op = opDelete, line = ''a''\<rparr>, \<lparr>op = opEqual, line = ''b''\<rparr>, \<lparr>op = opInsert, line = ''c''\<rparr>]"
  obtain ses where ses: "myersDiff [''a'', ''b''] [''b'', ''c''] = Some ses"
    "old_of ?s = [''a'', ''b''] \<longrightarrow> new_of ?s = [''b'', ''c''] \<longrightarrow> edits ses \<le> edits ?s"
    using myers_shortest_edit_script [of "[''a'', ''b'']" "[''b'', ''c'']"] by blast
  then show ?thesis by (auto simp: edits_def)
qed

end
