(* ===== verification/Diffpatch.thy ===== *)
theory Diffpatch
  imports Myers
begin

section \<open>Hunks and patches (\<open>diffpatch.go\<close>, \<open>apply.go\<close>, the rest of \<open>myers.go\<close>)\<close>

text \<open>
  \<open>Diff\<close> groups the edit script into hunks with context, \<open>ApplyPatchDirect\<close> replays hunks on a text.
  The loop of \<open>buildHunks\<close> is a fold over a record of its local variables. The invariant relates
  the hunks built so far to what the loop of \<open>ApplyPatchDirect\<close> makes of them, so that the two
  are proved inverse to each other: applying the difference of two texts to the first gives the
  lines of the second, without conflict.
\<close>

subsection \<open>Data\<close>

datatype dp_error = ErrEmptyInput | ErrInvalidPatch string | ErrPatchConflict | ErrMergeConflict

datatype LineType = LineEqual | LineDelete | LineInsert

record Line =
  Content :: string
  lineType :: LineType
  OldLineNo :: int
  NewLineNo :: int

record Hunk =
  OldStart :: int
  OldCount :: int
  NewStart :: int
  NewCount :: int
  Lines :: "Line list"

record PatchHeader =
  OldFile :: string
  NewFile :: string

record Patch =
  Header :: PatchHeader
  Hunks :: "Hunk list"

record ConflictRange =
  StartLine :: int
  EndLine :: int
  Ours :: "string list"
  Theirs :: "string list"
  Base :: "string list"

record ApplyResult =
  Text :: string
  Rejected :: bool
  Conflicts :: "ConflictRange list"

definition newline :: char where "newline = CHR 0x0A"

subsection \<open>Lines of a text\<close>

text \<open>The loop of \<open>splitText\<close>; \<open>cur\<close> is \<open>text[start:i]\<close>.\<close>

fun split_loop :: "string \<Rightarrow> string \<Rightarrow> string list \<Rightarrow> string list" where
  "split_loop [] cur lines = (if cur \<noteq> [] then lines @ [cur] else lines)"
| "split_loop (c # cs) cur lines =
     (if c = newline then split_loop cs [] (lines @ [cur]) else split_loop cs (cur @ [c]) lines)"

definition splitText :: "string \<Rightarrow> string list" where
  "splitText text = split_loop text [] []"

definition splitLines :: "string \<Rightarrow> string list" where
  "splitLines text = (if text = '''' then [] else splitText text)"

text \<open>\<open>strings.Join\<close> with a newline between the lines.\<close>

fun Join :: "string list \<Rightarrow> string" where
  "Join [] = []"
| "Join [l] = l"
| "Join (l # ls) = l @ newline # Join ls"

subsection \<open>Building hunks\<close>

definition contextSize :: int where "contextSize = 3"

record hunk_state =
  hunks :: "Hunk list"
  currentLines :: "Line list"
  currentOldStart :: int
  currentNewStart :: int
  currentOldCount :: int
  currentNewCount :: int
  inHunk :: bool
  oldIdx :: int
  newIdx :: int
  pendingEquals :: int

definition equal_line :: "string \<Rightarrow> int \<Rightarrow> int \<Rightarrow> Line" where
  "equal_line l i j = \<lparr>Content = l, lineType = LineEqual, OldLineNo = i, NewLineNo = j\<rparr>"

text \<open>\<open>xs[:len(xs)-n]\<close>.\<close>

definition but_last :: "int \<Rightarrow> 'a list \<Rightarrow> 'a list" where
  "but_last n xs = take (nat (int (length xs) - n)) xs"

text \<open>Entering a hunk at a deletion or an insertion: the leading context.\<close>

definition open_hunk :: "string list \<Rightarrow> hunk_state \<Rightarrow> hunk_state" where
  "open_hunk oldLines st =
     (let startOld0 = oldIdx st - contextSize;
          startOld = (if startOld0 < 0 then 0 else startOld0);
          newStart0 = newIdx st - (oldIdx st - startOld) + 1;
          newStart = (if newStart0 < 1 then 1 else newStart0)
      in st\<lparr>inHunk := True, pendingEquals := 0,
           currentOldStart := startOld + 1, currentNewStart := newStart,
           currentOldCount := oldIdx st - startOld, currentNewCount := oldIdx st - startOld,
           currentLines := map (\<lambda>i. equal_line (oldLines ! nat i) (i + 1) (i + 1)) [startOld..oldIdx st - 1]\<rparr>)"

definition enter_hunk :: "string list \<Rightarrow> hunk_state \<Rightarrow> hunk_state" where
  "enter_hunk oldLines st =
     (if \<not> inHunk st then open_hunk oldLines st else st\<lparr>pendingEquals := 0\<rparr>)"

definition hunk_step :: "string list \<Rightarrow> editScript \<Rightarrow> hunk_state \<Rightarrow> hunk_state" where
  "hunk_step oldLines e st =
     (case op e of
        opEqual \<Rightarrow>
          if inHunk st then
            let st1 = st\<lparr>pendingEquals := pendingEquals st + 1,
                        currentLines := currentLines st @ [equal_line (line e) (oldIdx st + 1) (newIdx st + 1)],
                        currentOldCount := currentOldCount st + 1,
                        currentNewCount := currentNewCount st + 1,
                        oldIdx := oldIdx st + 1, newIdx := newIdx st + 1\<rparr>
            in if pendingEquals st1 > contextSize * 2
               then st1\<lparr>hunks := hunks st1 @
                          [\<lparr>OldStart = currentOldStart st1, OldCount = currentOldCount st1 - contextSize,
                            NewStart = currentNewStart st1, NewCount = currentNewCount st1 - contextSize,
                            Lines = but_last contextSize (currentLines st1)\<rparr>],
                        currentLines := [], inHunk := False, pendingEquals := 0\<rparr>
               else st1
          else st\<lparr>oldIdx := oldIdx st + 1, newIdx := newIdx st + 1\<rparr>
      | opDelete \<Rightarrow>
          let st1 = enter_hunk oldLines st
          in st1\<lparr>currentLines := currentLines st1 @
                   [\<lparr>Content = line e, lineType = LineDelete, OldLineNo = oldIdx st1 + 1, NewLineNo = 0\<rparr>],
                 currentOldCount := currentOldCount st1 + 1, oldIdx := oldIdx st1 + 1\<rparr>
      | opInsert \<Rightarrow>
          let st1 = enter_hunk oldLines st
          in st1\<lparr>currentLines := currentLines st1 @
                   [\<lparr>Content = line e, lineType = LineInsert, OldLineNo = 0, NewLineNo = newIdx st1 + 1\<rparr>],
                 currentNewCount := currentNewCount st1 + 1, newIdx := newIdx st1 + 1\<rparr>)"

definition hunk_init :: hunk_state where
  "hunk_init = \<lparr>hunks = [], currentLines = [], currentOldStart = 0, currentNewStart = 0, currentOldCount = 0,
                currentNewCount = 0, inHunk = False, oldIdx = 0, newIdx = 0, pendingEquals = 0\<rparr>"

text \<open>After the loop: the last hunk, with at most three lines of trailing context.\<close>

definition close_hunks :: "hunk_state \<Rightarrow> Hunk list" where
  "close_hunks st =
     (if inHunk st then
        let excess = (if pendingEquals st > contextSize then pendingEquals st - contextSize else 0)
        in hunks st @
             [\<lparr>OldStart = currentOldStart st, OldCount = currentOldCount st - excess,
               NewStart = currentNewStart st, NewCount = currentNewCount st - excess,
               Lines = but_last excess (currentLines st)\<rparr>]
      else hunks st)"

definition buildHunks :: "editScript list \<Rightarrow> string list \<Rightarrow> string list \<Rightarrow> Hunk list" where
  "buildHunks ses oldLines newLines =
     (if ses = [] then [] else close_hunks (fold (hunk_step oldLines) ses hunk_init))"

text \<open>\<open>Diff\<close>; \<^const>\<open>None\<close> is a panic in \<open>myersDiff\<close>.\<close>

definition Diff :: "string \<Rightarrow> string \<Rightarrow> (dp_error, Hunk list) result option" where
  "Diff oldText newText =
     (if oldText = '''' \<and> newText = '''' then Some (Inl ErrEmptyInput)
      else let oldLines = splitLines oldText; newLines = splitLines newText
           in map_option (\<lambda>ses. Inr (buildHunks ses oldLines newLines)) (myersDiff oldLines newLines))"

subsection \<open>Applying a patch\<close>

fun verifyContext :: "string list \<Rightarrow> int \<Rightarrow> Line list \<Rightarrow> bool" where
  "verifyContext originalLines origPos [] = True"
| "verifyContext originalLines origPos (l # ls) =
     (case lineType l of
        LineInsert \<Rightarrow> verifyContext originalLines origPos ls
      | _ \<Rightarrow>
          if origPos \<ge> int (length originalLines) then False
          else if originalLines ! nat origPos \<noteq> Content l then False
          else verifyContext originalLines (origPos + 1) ls)"

definition extractNewLines :: "Hunk \<Rightarrow> string list" where
  "extractNewLines h = map Content (filter (\<lambda>l. lineType l = LineInsert) (Lines h))"

definition extractBaseLines :: "string list \<Rightarrow> int \<Rightarrow> int \<Rightarrow> string list" where
  "extractBaseLines originalLines startIdx cnt =
     (let stop = (if startIdx + cnt > int (length originalLines) then int (length originalLines) else startIdx + cnt)
      in if startIdx \<ge> int (length originalLines) then []
         else take (nat (stop - startIdx)) (drop (nat startIdx) originalLines))"

text \<open>Copying the lines before a hunk: the loop runs to \<open>OldStart - 1\<close> even past the end of the text.\<close>

definition copy_to :: "string list \<Rightarrow> int \<Rightarrow> int \<times> string list \<Rightarrow> int \<times> string list" where
  "copy_to originalLines stop = (\<lambda>(origIdx, res).
     (max origIdx stop, res @ take (nat (stop - origIdx)) (drop (nat origIdx) originalLines)))"

fun apply_lines :: "string list \<Rightarrow> Line list \<Rightarrow> int \<times> string list \<Rightarrow> int \<times> string list" where
  "apply_lines originalLines [] s = s"
| "apply_lines originalLines (l # ls) (origIdx, res) =
     apply_lines originalLines ls
       (case lineType l of
          LineEqual \<Rightarrow>
            if origIdx < int (length originalLines)
            then (origIdx + 1, res @ [originalLines ! nat origIdx]) else (origIdx, res)
        | LineDelete \<Rightarrow> (origIdx + 1, res)
        | LineInsert \<Rightarrow> (origIdx, res @ [Content l]))"

definition apply_hunk ::
    "string list \<Rightarrow> Hunk \<Rightarrow> (int \<times> string list) \<times> ConflictRange list \<Rightarrow> (int \<times> string list) \<times> ConflictRange list" where
  "apply_hunk originalLines h = (\<lambda>(s, conflicts).
     let s1 = copy_to originalLines (OldStart h - 1) s;
         expectedStart = (if OldStart h - 1 < 0 then 0 else OldStart h - 1)
     in if \<not> verifyContext originalLines expectedStart (Lines h)
        then (let base = extractBaseLines originalLines expectedStart (OldCount h)
              in ((min (fst s1 + max 0 (OldCount h)) (max (fst s1) (int (length originalLines))),
                   snd s1 @ take (nat (OldCount h)) (drop (nat (fst s1)) originalLines)),
                  conflicts @ [\<lparr>StartLine = OldStart h, EndLine = OldStart h + OldCount h - 1,
                                Ours = base, Theirs = extractNewLines h, Base = base\<rparr>]))
        else (apply_lines originalLines (Lines h) s1, conflicts))"

definition apply_hunks ::
    "string list \<Rightarrow> Hunk list \<Rightarrow> (int \<times> string list) \<times> ConflictRange list \<Rightarrow> (int \<times> string list) \<times> ConflictRange list" where
  "apply_hunks originalLines hs s = fold (apply_hunk originalLines) hs s"

definition trailing_newline :: "string \<Rightarrow> bool" where
  "trailing_newline text \<longleftrightarrow> text \<noteq> [] \<and> last text = newline"

definition ApplyPatchDirect :: "string \<Rightarrow> Patch \<Rightarrow> ApplyResult" where
  "ApplyPatchDirect originalText patch =
     (let originalLines = splitLines originalText;
          trailingNewline = (if originalText = '''' \<and> Hunks patch \<noteq> [] then True else trailing_newline originalText);
          ((origIdx, res), conflicts) = apply_hunks originalLines (Hunks patch) ((0, []), []);
          res1 = res @ drop (nat origIdx) originalLines;
          text = Join res1
      in \<lparr>Text = (if trailingNewline \<and> res1 \<noteq> [] then text @ [newline] else text),
          Rejected = (conflicts \<noteq> []), Conflicts = conflicts\<rparr>)"

subsection \<open>What a list of hunk lines does\<close>

definition old_part :: "Line list \<Rightarrow> string list" where
  "old_part ls = map Content (filter (\<lambda>l. lineType l \<noteq> LineInsert) ls)"

definition new_part :: "Line list \<Rightarrow> string list" where
  "new_part ls = map Content (filter (\<lambda>l. lineType l \<noteq> LineDelete) ls)"

lemma part_simps [simp]:
  "old_part [] = []" "new_part [] = []"
  "old_part (l # ls) = (if lineType l = LineInsert then old_part ls else Content l # old_part ls)"
  "new_part (l # ls) = (if lineType l = LineDelete then new_part ls else Content l # new_part ls)"
  "old_part (ls @ ls') = old_part ls @ old_part ls'" "new_part (ls @ ls') = new_part ls @ new_part ls'"
  by (simp_all add: old_part_def new_part_def)

lemma part_equal:
  "\<forall>l \<in> set ls. lineType l = LineEqual \<Longrightarrow> old_part ls = map Content ls \<and> new_part ls = map Content ls"
  by (induction ls) auto

lemma nth_drop_Cons:
  assumes "0 \<le> i" "drop (nat i) A = c # r"
  shows "i < int (length A) \<and> A ! nat i = c \<and> drop (nat (i + 1)) A = r"
proof -
  have "nat i < length A" using assms(2) by (metis drop_all list.distinct(1) not_le)
  moreover have "drop (Suc (nat i)) A = r" using assms(2) by (simp add: drop_Suc drop_tl)
  moreover have "nat (i + 1) = Suc (nat i)" using assms(1) by simp
  ultimately show ?thesis using nth_via_drop [OF assms(2)] assms(1) by simp
qed

lemma verifyContext_holds:
  "0 \<le> i \<Longrightarrow> drop (nat i) A = old_part ls @ r \<Longrightarrow> verifyContext A i ls"
proof (induction ls arbitrary: i)
  case (Cons l ls)
  show ?case
  proof (cases "lineType l = LineInsert")
    case True
    with Cons show ?thesis by simp
  next
    case False
    with Cons.prems nth_drop_Cons [of i A "Content l" "old_part ls @ r"] Cons.IH [of "i + 1"]
    show ?thesis by (auto split: LineType.split)
  qed
qed simp

lemma apply_lines_old:
  "0 \<le> i \<Longrightarrow> drop (nat i) A = old_part ls @ r \<Longrightarrow>
   apply_lines A ls (i, res) = (i + int (length (old_part ls)), res @ new_part ls)"
proof (induction ls arbitrary: i res)
  case (Cons l ls)
  show ?case
  proof (cases "lineType l")
    case LineInsert
    with Cons show ?thesis by simp
  next
    case LineEqual
    with Cons.prems nth_drop_Cons [of i A "Content l" "old_part ls @ r"]
      Cons.IH [of "i + 1" "res @ [Content l]"] show ?thesis by simp
  next
    case LineDelete
    with Cons.prems nth_drop_Cons [of i A "Content l" "old_part ls @ r"]
      Cons.IH [of "i + 1" res] show ?thesis by simp
  qed
qed simp

lemma apply_hunk_holds:
  assumes "OldStart h = int s + 1" "i \<le> s" "drop s A = old_part (Lines h) @ r"
  shows "apply_hunk A h ((int i, res), c) =
    ((int (s + length (old_part (Lines h))), res @ take (s - i) (drop i A) @ new_part (Lines h)), c)"
  using assms verifyContext_holds [of "int s" A "Lines h" r]
    apply_lines_old [of "int s" A "Lines h" r "res @ take (s - i) (drop i A)"]
  by (simp add: apply_hunk_def copy_to_def Let_def max_def nat_diff_distrib)

text \<open>
  \<open>applies A hs i res\<close>: the hunks stand one after another on the lines \<open>A\<close>, and together they
  turn the first \<open>i\<close> of them into \<open>res\<close>.
\<close>

inductive applies :: "string list \<Rightarrow> Hunk list \<Rightarrow> nat \<Rightarrow> string list \<Rightarrow> bool" for A where
  applies_Nil: "applies A [] 0 []"
| applies_snoc: "applies A hs i res \<Longrightarrow> OldStart h = int s + 1 \<Longrightarrow> i \<le> s \<Longrightarrow> drop s A = old_part (Lines h) @ r \<Longrightarrow>
     applies A (hs @ [h]) (s + length (old_part (Lines h))) (res @ take (s - i) (drop i A) @ new_part (Lines h))"

lemma applies_apply: "applies A hs i res \<Longrightarrow> apply_hunks A hs ((0, []), []) = ((int i, res), [])"
  by (induction rule: applies.induct) (simp_all add: apply_hunks_def apply_hunk_holds)

subsection \<open>The invariant of the hunk builder\<close>

definition tail_equal :: "nat \<Rightarrow> Line list \<Rightarrow> bool" where
  "tail_equal n ls \<longleftrightarrow> n \<le> length ls \<and> (\<forall>l \<in> set (drop (length ls - n) ls). lineType l = LineEqual)"

text \<open>
  \<open>outside\<close>: the hunks so far take the first \<open>i\<close> old lines to \<open>res\<close>, and the lines since are equal.
  \<open>inside\<close>: the current lines start at old line \<open>s\<close> and go on where the old prefix ends.
\<close>

definition outside :: "editScript list \<Rightarrow> nat \<Rightarrow> string list \<Rightarrow> bool" where
  "outside p i res \<longleftrightarrow>
     (i = 0 \<or> i + 3 \<le> length (old_of p)) \<and> res @ drop i (old_of p) = new_of p"

definition inside :: "editScript list \<Rightarrow> nat \<Rightarrow> string list \<Rightarrow> hunk_state \<Rightarrow> bool" where
  "inside p i res st \<longleftrightarrow>
     (\<exists>s. currentOldStart st = int s + 1 \<and> i \<le> s \<and> s \<le> length (old_of p) \<and>
        drop s (old_of p) = old_part (currentLines st) \<and>
        res @ take (s - i) (drop i (old_of p)) @ new_part (currentLines st) = new_of p) \<and>
     0 \<le> pendingEquals st \<and>
     tail_equal (nat (pendingEquals st)) (currentLines st) \<and>
     currentOldCount st = int (length (old_part (currentLines st))) \<and>
     currentNewCount st = int (length (new_part (currentLines st)))"

definition hunk_ok :: "Hunk \<Rightarrow> bool" where
  "hunk_ok h \<longleftrightarrow> OldCount h = int (length (old_part (Lines h))) \<and> NewCount h = int (length (new_part (Lines h)))"

definition hunk_inv :: "string list \<Rightarrow> editScript list \<Rightarrow> hunk_state \<Rightarrow> bool" where
  "hunk_inv A p st \<longleftrightarrow>
     oldIdx st = int (length (old_of p)) \<and> newIdx st = int (length (new_of p)) \<and>
     (\<forall>h \<in> set (hunks st). hunk_ok h) \<and>
     (\<exists>i res. applies A (hunks st) i res \<and>
        (if inHunk st then inside p i res st \<and> pendingEquals st \<le> 6 else outside p i res))"

lemma hunk_inv_init: "hunk_inv A [] hunk_init"
  by (auto simp: hunk_inv_def hunk_init_def outside_def intro: applies_Nil)

lemma tail_equal_snoc: "tail_equal n ls \<Longrightarrow> lineType l = LineEqual \<Longrightarrow> tail_equal (Suc n) (ls @ [l])"
  by (auto simp: tail_equal_def)

lemma tail_equal_split:
  assumes "tail_equal n ls" "k \<le> n"
  shows "\<exists>ls1 eqs. ls = ls1 @ eqs \<and> but_last (int k) ls = ls1 \<and> length eqs = k \<and>
    old_part eqs = map Content eqs \<and> new_part eqs = map Content eqs"
proof -
  let ?l = "length ls - k"
  have k: "k \<le> length ls" using assms by (simp add: tail_equal_def)
  have "set (drop ?l ls) \<subseteq> set (drop (length ls - n) ls)"
    using assms by (intro set_drop_subset_set_drop) simp
  then have "\<forall>l \<in> set (drop ?l ls). lineType l = LineEqual" using assms(1) by (auto simp: tail_equal_def)
  with part_equal [of "drop ?l ls"] k show ?thesis
    by (intro exI [of _ "take ?l ls"] exI [of _ "drop ?l ls"]) (auto simp: but_last_def nat_diff_distrib)
qed

lemma upto_int: "[int s..int n - 1] = map int [s..<n]"
proof (induction n)
  case (Suc n)
  show ?case
  proof (cases "s \<le> n")
    case True
    then have "[int s..int n] = [int s..int n - 1] @ [int n]" by (intro upto_rec2) simp
    with True Suc show ?thesis by simp
  next
    case False
    then show ?thesis by simp
  qed
qed simp

lemma context_lines:
  assumes "s \<le> length B"
  shows "old_part (map (\<lambda>i. equal_line ((B @ q) ! nat i) (i + 1) (i + 1)) [int s..int (length B) - 1]) = drop s B"
    "new_part (map (\<lambda>i. equal_line ((B @ q) ! nat i) (i + 1) (i + 1)) [int s..int (length B) - 1]) = drop s B"
proof -
  let ?ls = "map (\<lambda>i. equal_line ((B @ q) ! nat i) (i + 1) (i + 1)) [int s..int (length B) - 1]"
  have "map Content ?ls = map (\<lambda>j. B ! j) [s..<length B]"
    by (simp add: upto_int equal_line_def nth_append)
  also have "\<dots> = drop s B" using assms by (intro nth_equalityI) auto
  finally show "old_part ?ls = drop s B" "new_part ?ls = drop s B"
    using part_equal [of ?ls] by (simp_all add: equal_line_def)
qed

lemma enter_hunk_inv:
  assumes "hunk_inv A p st" "old_of p @ q = A"
  shows "hunk_inv A p (enter_hunk A st)" "inHunk (enter_hunk A st)" "pendingEquals (enter_hunk A st) = 0"
proof -
  have "hunk_inv A p (open_hunk A st)" if out: "\<not> inHunk st"
  proof -
    obtain i res where hs: "applies A (hunks st) i res" and o: "outside p i res"
      using assms(1) out by (auto simp: hunk_inv_def)
    define s where "s = length (old_of p) - 3"
    have idx: "oldIdx st = int (length (old_of p))" using assms(1) by (simp add: hunk_inv_def)
    have s: "i \<le> s" "s \<le> length (old_of p)" using o by (auto simp: outside_def s_def)
    have start: "(if oldIdx st - contextSize < 0 then 0 else oldIdx st - contextSize) = int s"
      by (auto simp: idx contextSize_def s_def)
    have "res @ take (s - i) (drop i (old_of p)) @ drop s (old_of p) = new_of p"
      using o s append_take_drop_id [of "s - i" "drop i (old_of p)"] by (simp add: outside_def)
    then have "inside p i res (open_hunk A st)"
      unfolding inside_def open_hunk_def Let_def start
      using s context_lines [OF s(2), of q] assms(2)
      by (auto simp: idx tail_equal_def intro!: exI [of _ s])
    moreover have "hunks (open_hunk A st) = hunks st" "oldIdx (open_hunk A st) = oldIdx st"
      "newIdx (open_hunk A st) = newIdx st" "inHunk (open_hunk A st)" "pendingEquals (open_hunk A st) = 0"
      by (simp_all add: open_hunk_def Let_def)
    ultimately show ?thesis using hs assms(1) by (auto simp: hunk_inv_def)
  qed
  moreover have "hunk_inv A p (st\<lparr>pendingEquals := 0\<rparr>)" if "inHunk st"
    using assms(1) that by (auto simp: hunk_inv_def inside_def tail_equal_def)
  ultimately show "hunk_inv A p (enter_hunk A st)" by (simp add: enter_hunk_def)
  show "inHunk (enter_hunk A st)" "pendingEquals (enter_hunk A st) = 0"
    by (auto simp: enter_hunk_def open_hunk_def Let_def)
qed

text \<open>Closing the current lines, without their last \<open>k\<close> equal ones, adds a hunk that applies.\<close>

lemma close_applies:
  assumes hs: "applies A (hunks st) i res" and "inside p i res st"
    and "old_of p @ q = A" "k \<le> nat (pendingEquals st)"
    and h: "h = \<lparr>OldStart = currentOldStart st, OldCount = currentOldCount st - int k,
       NewStart = currentNewStart st, NewCount = currentNewCount st - int k,
       Lines = but_last (int k) (currentLines st)\<rparr>"
  shows "\<exists>j res'. applies A (hunks st @ [h]) j res' \<and>
    j + k = length (old_of p) \<and> res' @ drop j (old_of p) = new_of p \<and> hunk_ok h"
proof -
  obtain s where s: "currentOldStart st = int s + 1" "i \<le> s" "s \<le> length (old_of p)"
    "drop s (old_of p) = old_part (currentLines st)"
    "res @ take (s - i) (drop i (old_of p)) @ new_part (currentLines st) = new_of p"
    "tail_equal (nat (pendingEquals st)) (currentLines st)"
    "currentOldCount st = int (length (old_part (currentLines st)))"
    "currentNewCount st = int (length (new_part (currentLines st)))"
    using assms(2) by (auto simp: inside_def)
  obtain ls1 eqs where ls: "currentLines st = ls1 @ eqs" "but_last (int k) (currentLines st) = ls1"
    "length eqs = k" "old_part eqs = map Content eqs" "new_part eqs = map Content eqs"
    using tail_equal_split [OF s(6) assms(4)] by blast
  let ?j = "s + length (old_part ls1)" and ?res = "res @ take (s - i) (drop i A) @ new_part ls1"
  have A: "take (s - i) (drop i A) = take (s - i) (drop i (old_of p))"
    "drop s A = old_part ls1 @ old_part eqs @ q"
    using s(2,3,4) ls(1) by (auto simp: assms(3) [symmetric])
  have "applies A (hunks st @ [h]) ?j ?res"
    using applies_snoc [OF hs, of h s "old_part eqs @ q"] s(1,2) A ls(2) h by simp
  moreover have len: "?j + k = length (old_of p)"
    using arg_cong [OF s(4), of length] s(3) ls by simp
  moreover have "drop ?j (old_of p) = drop (length (old_part ls1)) (drop s (old_of p))"
    by (simp add: add.commute)
  then have "drop ?j (old_of p) = map Content eqs" using s(4) ls(1,4) by simp
  then have "?res @ drop ?j (old_of p) = new_of p" using s(5) ls(1,5) A(1) by simp
  moreover have "hunk_ok h" using s(7,8) ls h by (simp add: hunk_ok_def)
  ultimately show ?thesis by blast
qed

lemma hunk_step_inv:
  assumes inv: "hunk_inv A p st" and A: "old_of (p @ [e]) @ q = A"
  shows "hunk_inv A (p @ [e]) (hunk_step A e st)"
proof (cases "op e")
  case opDelete
  note en = enter_hunk_inv [OF inv, of "line e # q"]
  have "hunk_inv A p (enter_hunk A st)" "inHunk (enter_hunk A st)" "pendingEquals (enter_hunk A st) = 0"
    using en A opDelete by auto
  with opDelete show ?thesis
    by (fastforce simp: hunk_step_def hunk_inv_def inside_def Let_def tail_equal_def)
next
  case opInsert
  note en = enter_hunk_inv [OF inv, of q]
  have "hunk_inv A p (enter_hunk A st)" "inHunk (enter_hunk A st)" "pendingEquals (enter_hunk A st) = 0"
    using en A opInsert by auto
  with opInsert show ?thesis
    by (fastforce simp: hunk_step_def hunk_inv_def inside_def Let_def tail_equal_def)
next
  case opEqual
  show ?thesis
  proof (cases "inHunk st")
    case False
    with inv opEqual show ?thesis
      by (fastforce simp: hunk_step_def hunk_inv_def outside_def)
  next
    case True
    let ?st = "st\<lparr>pendingEquals := pendingEquals st + 1,
       currentLines := currentLines st @ [equal_line (line e) (oldIdx st + 1) (newIdx st + 1)],
       currentOldCount := currentOldCount st + 1, currentNewCount := currentNewCount st + 1,
       oldIdx := oldIdx st + 1, newIdx := newIdx st + 1\<rparr>"
    obtain i res where i: "applies A (hunks ?st) i res"
      "inside p i res st" "pendingEquals st \<le> 6"
      using inv True by (auto simp: hunk_inv_def)
    then have ins: "inside (p @ [e]) i res ?st"
      using opEqual by (auto simp: inside_def equal_line_def nat_add_distrib intro!: tail_equal_snoc)
    show ?thesis
    proof (cases "pendingEquals st + 1 > contextSize * 2")
      case False
      with True i ins inv opEqual show ?thesis
        by (auto simp: hunk_step_def hunk_inv_def Let_def contextSize_def)
    next
      case close: True
      then have "3 \<le> nat (pendingEquals ?st)" by (simp add: contextSize_def)
      from close_applies [OF i(1) ins A this refl] obtain j res' where
        "applies A (hunks (hunk_step A e st)) j res'"
        "j + 3 = length (old_of (p @ [e]))" "res' @ drop j (old_of (p @ [e])) = new_of (p @ [e])"
        "\<forall>h \<in> set (hunks (hunk_step A e st)). hunk_ok h"
        using True close inv opEqual by (auto simp: hunk_step_def hunk_inv_def Let_def contextSize_def)
      moreover have "\<not> inHunk (hunk_step A e st)" "oldIdx (hunk_step A e st) = oldIdx st + 1"
        "newIdx (hunk_step A e st) = newIdx st + 1"
        using True close opEqual by (auto simp: hunk_step_def Let_def)
      moreover have "oldIdx st + 1 = int (length (old_of (p @ [e])))" "newIdx st + 1 = int (length (new_of (p @ [e])))"
        using inv opEqual by (simp_all add: hunk_inv_def)
      ultimately show ?thesis unfolding hunk_inv_def outside_def
        by (metis (no_types, lifting) order_refl)
    qed
  qed
qed

lemma hunk_fold_inv:
  "hunk_inv A p st \<Longrightarrow> old_of (p @ ses) @ q = A \<Longrightarrow> hunk_inv A (p @ ses) (fold (hunk_step A) ses st)"
proof (induction ses arbitrary: p st)
  case (Cons e ses)
  have "hunk_inv A (p @ [e]) (hunk_step A e st)"
    using Cons.prems by (intro hunk_step_inv [where q = "old_of ses @ q"]) auto
  with Cons.IH [of "p @ [e]" "hunk_step A e st"] Cons.prems(2) show ?case by simp
qed simp

lemma buildHunks_apply:
  assumes "old_of ses = A"
  shows "\<exists>i res. applies A (buildHunks ses A B) i res \<and>
    res @ drop i A = new_of ses \<and> (\<forall>h \<in> set (buildHunks ses A B). hunk_ok h)"
proof (cases "ses = []")
  case True
  with assms show ?thesis by (auto simp: buildHunks_def intro: applies_Nil)
next
  case False
  let ?st = "fold (hunk_step A) ses hunk_init"
  have inv: "hunk_inv A ses ?st" using hunk_fold_inv [OF hunk_inv_init, of ses "[]"] assms by simp
  have b: "buildHunks ses A B = close_hunks ?st" using False by (simp add: buildHunks_def)
  show ?thesis
  proof (cases "inHunk ?st")
    case out: False
    with inv b assms show ?thesis by (auto simp: hunk_inv_def outside_def close_hunks_def)
  next
    case ins: True
    obtain i res where i: "applies A (hunks ?st) i res" "inside ses i res ?st"
      using inv ins by (auto simp: hunk_inv_def)
    define k where "k = nat (pendingEquals ?st - 3)"
    have k: "(if pendingEquals ?st > contextSize then pendingEquals ?st - contextSize else 0) = int k"
      "k \<le> nat (pendingEquals ?st)" by (auto simp: k_def contextSize_def)
    from close_applies [OF i _ k(2) refl, of "[]"] assms inv ins show ?thesis
      unfolding b close_hunks_def Let_def k(1) by (auto simp: hunk_inv_def)
  qed
qed

subsection \<open>Where the lines of a hunk come from\<close>

text \<open>\<open>numbered i ls\<close>: the old lines among \<open>ls\<close> carry the numbers after \<open>i\<close>, in order.\<close>

fun numbered :: "int \<Rightarrow> Line list \<Rightarrow> bool" where
  "numbered i [] \<longleftrightarrow> True"
| "numbered i (l # ls) \<longleftrightarrow>
     (if lineType l = LineInsert then numbered i ls else OldLineNo l = i + 1 \<and> numbered (i + 1) ls)"

definition lines_from :: "string list \<Rightarrow> string list \<Rightarrow> Line list \<Rightarrow> bool" where
  "lines_from A B ls \<longleftrightarrow> (\<forall>l \<in> set ls. Content l \<in> set (if lineType l = LineInsert then B else A))"

definition hunk_from :: "string list \<Rightarrow> string list \<Rightarrow> Hunk \<Rightarrow> bool" where
  "hunk_from A B h \<longleftrightarrow>
     1 \<le> OldStart h \<and> OldStart h \<le> int (length A) + 1 \<and> 1 \<le> NewStart h \<and> NewStart h \<le> int (length B) + 1 \<and>
     OldCount h \<le> int (length A) \<and> NewCount h \<le> int (length B) \<and>
     lines_from A B (Lines h) \<and> numbered (OldStart h - 1) (Lines h)"

text \<open>Every hunk but the last one ends with context.\<close>

definition ends_equal :: "Hunk \<Rightarrow> bool" where
  "ends_equal h \<longleftrightarrow> Lines h \<noteq> [] \<and> lineType (last (Lines h)) = LineEqual"

definition state_from :: "string list \<Rightarrow> string list \<Rightarrow> hunk_state \<Rightarrow> bool" where
  "state_from A B st \<longleftrightarrow> (\<forall>h \<in> set (hunks st). hunk_from A B h \<and> ends_equal h) \<and>
     (inHunk st \<longrightarrow> 1 \<le> currentNewStart st \<and> currentNewStart st \<le> int (length B) + 1 \<and>
        lines_from A B (currentLines st) \<and> numbered (currentOldStart st - 1) (currentLines st))"

lemma numbering_append:
  "numbered i (xs @ ys) \<longleftrightarrow> numbered i xs \<and> numbered (i + int (length (old_part xs))) ys"
  by (induction xs arbitrary: i) (simp_all add: algebra_simps)

lemma lines_from_simps [simp]:
  "lines_from A B []"
  "lines_from A B (l # ls) \<longleftrightarrow> Content l \<in> set (if lineType l = LineInsert then B else A) \<and> lines_from A B ls"
  "lines_from A B (xs @ ys) \<longleftrightarrow> lines_from A B xs \<and> lines_from A B ys"
  by (auto simp: lines_from_def)

lemma lines_from_but_last: "lines_from A B ls \<Longrightarrow> lines_from A B (but_last n ls)"
  using lines_from_simps(3) [of A B "but_last n ls" "drop (nat (int (length ls) - n)) ls"]
  by (simp add: but_last_def)

lemma numbered_but_last: "numbered i ls \<Longrightarrow> numbered i (but_last n ls)"
  using numbering_append [of i "but_last n ls" "drop (nat (int (length ls) - n)) ls"]
  by (simp add: but_last_def)

lemmas from_but_last = lines_from_but_last numbered_but_last

lemma numbered_context:
  "numbered i (map (\<lambda>j. equal_line (f j) (j + 1) (j + 1)) [i..k])"
proof (induction "nat (k - i + 1)" arbitrary: i)
  case (Suc n)
  then have "[i..k] = i # [i + 1..k]" by (simp add: upto_rec1)
  moreover have "numbered (i + 1) (map (\<lambda>j. equal_line (f j) (j + 1) (j + 1)) [i + 1..k])"
    using Suc by (intro Suc.hyps(1)) linarith
  ultimately show ?case by (simp add: equal_line_def)
qed simp

text \<open>What the invariant says about the current hunk.\<close>

lemma inside_numbers:
  assumes "hunk_inv A p st" "inHunk st"
  shows "0 \<le> currentOldStart st - 1" "currentOldStart st - 1 + int (length (old_part (currentLines st))) = oldIdx st"
    "int (length (new_part (currentLines st))) \<le> newIdx st"
    "currentOldCount st = int (length (old_part (currentLines st)))"
    "currentNewCount st = int (length (new_part (currentLines st)))"
    "0 \<le> pendingEquals st" "oldIdx st = int (length (old_of p))" "newIdx st = int (length (new_of p))"
proof -
  obtain i res s where s: "currentOldStart st = int s + 1" "s \<le> length (old_of p)"
    "drop s (old_of p) = old_part (currentLines st)"
    "res @ take (s - i) (drop i (old_of p)) @ new_part (currentLines st) = new_of p"
    using assms by (auto simp: hunk_inv_def inside_def)
  have "length (old_part (currentLines st)) = length (old_of p) - s"
    "length (new_part (currentLines st)) \<le> length (new_of p)"
    by (simp add: s(3) [symmetric]) (simp add: s(4) [symmetric])
  with s assms show "0 \<le> currentOldStart st - 1"
    "currentOldStart st - 1 + int (length (old_part (currentLines st))) = oldIdx st"
    "int (length (new_part (currentLines st))) \<le> newIdx st"
    by (auto simp: hunk_inv_def)
qed (use assms in \<open>auto simp: hunk_inv_def inside_def\<close>)

lemma current_append:
  assumes "state_from A B st" "inHunk st" "hunk_inv A p st"
    and "Content l \<in> set (if lineType l = LineInsert then B else A)" "lineType l \<noteq> LineInsert \<Longrightarrow> OldLineNo l = oldIdx st + 1"
  shows "lines_from A B (currentLines st @ [l])" "numbered (currentOldStart st - 1) (currentLines st @ [l])"
  using assms inside_numbers(2) [OF assms(3,2)] by (simp_all add: state_from_def numbering_append)

lemma hunk_fromI:
  assumes "1 \<le> os" "os \<le> int (length A) + 1" "1 \<le> ns" "ns \<le> int (length B) + 1"
    and "oc - k \<le> int (length A)" "nc - k \<le> int (length B)" "lines_from A B ls" "numbered (os - 1) ls"
  shows "hunk_from A B \<lparr>OldStart = os, OldCount = oc - k, NewStart = ns, NewCount = nc - k, Lines = but_last k ls\<rparr>"
  using assms by (simp add: hunk_from_def from_but_last)

lemma enter_hunk_from:
  assumes "state_from A B st" "hunk_inv A p st" "length (old_of p) \<le> length A" "length (new_of p) \<le> length B"
  shows "state_from A B (enter_hunk A st)"
proof (cases "inHunk st")
  case False
  have idx: "oldIdx st = int (length (old_of p))" "newIdx st = int (length (new_of p))"
    using assms(2) by (simp_all add: hunk_inv_def)
  have "lines_from A B (map (\<lambda>i. equal_line (A ! nat i) (i + 1) (i + 1)) [k..oldIdx st - 1])" if "0 \<le> k" for k
    using idx assms(3) that by (auto simp: lines_from_def equal_line_def)
  with False assms(1,3,4) idx numbered_context show ?thesis
    by (simp add: enter_hunk_def open_hunk_def state_from_def Let_def contextSize_def)
qed (use assms in \<open>simp add: enter_hunk_def state_from_def\<close>)

lemma tail_equal_last:
  assumes "tail_equal n ls" "k < n"
  shows "but_last (int k) ls \<noteq> [] \<and> lineType (last (but_last (int k) ls)) = LineEqual"
proof -
  let ?m = "length ls - k"
  have m: "but_last (int k) ls = take ?m ls" "k < length ls"
    using assms by (auto simp: but_last_def tail_equal_def nat_diff_distrib)
  have "last (take ?m ls) = drop (length ls - n) ls ! (n - k - 1)"
    using assms m(2) by (subst last_conv_nth) (auto simp: tail_equal_def)
  moreover have "\<dots> \<in> set (drop (length ls - n) ls)"
    using assms by (intro nth_mem) (simp add: tail_equal_def)
  ultimately show ?thesis using assms m by (auto simp: tail_equal_def)
qed

lemma hunk_step_from_equal:
  assumes "state_from A B st" "hunk_inv A p st" "op e = opEqual" "inHunk st" "line e \<in> set A"
    and "length (old_of p) < length A" "length (new_of p) < length B"
  shows "state_from A B (hunk_step A e st)"
proof -
  note n = inside_numbers [OF assms(2,4)]
  note c = current_append [OF assms(1,4,2), of "equal_line (line e) (oldIdx st + 1) (newIdx st + 1)"]
  let ?ls = "currentLines st @ [equal_line (line e) (oldIdx st + 1) (newIdx st + 1)]"
  have ls: "lines_from A B ?ls" "numbered (currentOldStart st - 1) ?ls"
    using c assms(5) by (simp_all add: equal_line_def)
  have "hunk_from A B \<lparr>OldStart = currentOldStart st, OldCount = currentOldCount st + 1 - 3,
      NewStart = currentNewStart st, NewCount = currentNewCount st + 1 - 3, Lines = but_last 3 ?ls\<rparr>"
    using assms(1,4,6,7) n by (intro hunk_fromI ls) (simp_all add: state_from_def)
  moreover have "tail_equal (nat (pendingEquals st)) (currentLines st)"
    using assms(2,4) by (auto simp: hunk_inv_def inside_def)
  then have "tail_equal (Suc (nat (pendingEquals st))) ?ls"
    by (rule tail_equal_snoc) (simp add: equal_line_def)
  then have "but_last 3 ?ls \<noteq> [] \<and> lineType (last (but_last 3 ?ls)) = LineEqual" if "6 \<le> pendingEquals st"
    using tail_equal_last [of "Suc (nat (pendingEquals st))" ?ls 3] that by simp
  ultimately show ?thesis using assms(1,3,4) ls
    by (simp add: hunk_step_def state_from_def Let_def contextSize_def ends_equal_def)
qed

lemma hunk_step_from:
  assumes "state_from A B st" "hunk_inv A p st" "old_of (p @ [e]) @ q = A" "new_of (p @ [e]) @ r = B"
  shows "state_from A B (hunk_step A e st)"
proof -
  have len: "length (old_of p) \<le> length A" "length (new_of p) \<le> length B"
    using arg_cong [OF assms(3), of length] arg_cong [OF assms(4), of length] by (cases "op e"; simp)+
  show ?thesis
  proof (cases "op e = opEqual")
    case True
    have "line e \<in> set A" "length (old_of p) < length A" "length (new_of p) < length B"
      using True by (simp_all add: assms(3,4) [symmetric])
    then show ?thesis
      using True assms hunk_step_from_equal [OF assms(1,2) True]
      by (cases "inHunk st") (simp_all add: hunk_step_def state_from_def)
  next
    case False
    have "\<exists>q. old_of p @ q = A" using assms(3) False by (cases "op e") auto
    then have inv: "hunk_inv A p (enter_hunk A st)" "inHunk (enter_hunk A st)"
      using enter_hunk_inv [OF assms(2)] by auto
    have st: "state_from A B (enter_hunk A st)" using enter_hunk_from assms(1,2) len by blast
    have "op e = opDelete \<Longrightarrow> line e \<in> set A" "op e = opInsert \<Longrightarrow> line e \<in> set B"
      by (auto simp: assms(3,4) [symmetric])
    moreover note
      current_append [OF st inv(2,1), of "\<lparr>Content = line e, lineType = LineDelete, OldLineNo = oldIdx (enter_hunk A st) + 1, NewLineNo = 0\<rparr>"]
      current_append [OF st inv(2,1), of "\<lparr>Content = line e, lineType = LineInsert, OldLineNo = 0, NewLineNo = newIdx (enter_hunk A st) + 1\<rparr>"]
    ultimately show ?thesis
      using False st inv(2) by (cases "op e") (simp_all add: hunk_step_def state_from_def Let_def)
  qed
qed

lemma hunk_fold_from:
  "state_from A B st \<Longrightarrow> hunk_inv A p st \<Longrightarrow> old_of (p @ ses) = A \<Longrightarrow> new_of (p @ ses) = B \<Longrightarrow>
   state_from A B (fold (hunk_step A) ses st)"
proof (induction ses arbitrary: p st)
  case (Cons e ses)
  have "hunk_inv A (p @ [e]) (hunk_step A e st)" "state_from A B (hunk_step A e st)"
    using Cons.prems hunk_step_inv [of A p st e "old_of ses"] hunk_step_from [of A B st p e "old_of ses" "new_of ses"]
    by (cases "op e"; simp)+
  with Cons.IH [of "hunk_step A e st" "p @ [e]"] Cons.prems(3,4) show ?case by simp
qed simp

lemma buildHunks_from:
  assumes "old_of ses = A" "new_of ses = B"
  shows "\<forall>h \<in> set (buildHunks ses A B). hunk_from A B h" "\<forall>h \<in> set (butlast (buildHunks ses A B)). ends_equal h"
proof -
  let ?st = "fold (hunk_step A) ses hunk_init"
  have inv: "hunk_inv A ses ?st" using hunk_fold_inv [OF hunk_inv_init, of ses "[]"] assms by simp
  have st: "state_from A B ?st"
    using hunk_fold_from [OF _ hunk_inv_init, of A B ses] assms by (simp add: state_from_def hunk_init_def)
  show "\<forall>h \<in> set (buildHunks ses A B). hunk_from A B h"
  proof (cases "inHunk ?st")
    case False
    with st show ?thesis by (simp add: buildHunks_def close_hunks_def state_from_def)
  next
    case True
    note n = inside_numbers [OF inv True]
    have "hunk_from A B \<lparr>OldStart = currentOldStart ?st, OldCount = currentOldCount ?st - k,
        NewStart = currentNewStart ?st, NewCount = currentNewCount ?st - k, Lines = but_last k (currentLines ?st)\<rparr>"
      if "0 \<le> k" for k
      using st True n assms that by (intro hunk_fromI) (simp_all add: state_from_def)
    from st True n(6) this this [of 0] show ?thesis
      by (simp add: buildHunks_def close_hunks_def state_from_def contextSize_def Let_def)
  qed
  show "\<forall>h \<in> set (butlast (buildHunks ses A B)). ends_equal h"
    using st by (auto simp: buildHunks_def close_hunks_def state_from_def Let_def dest: in_set_butlastD)
qed

subsection \<open>Lines and texts\<close>

definition final_newline :: "string \<Rightarrow> string" where
  "final_newline t = (if trailing_newline t then [newline] else [])"

lemma split_loop_acc: "split_loop t cur lines = lines @ split_loop t cur []"
proof (induction t arbitrary: cur lines)
  case (Cons c cs)
  show ?case using Cons [of "[]" "lines @ [cur]"] Cons [of "[]" "[cur]"] Cons [of "cur @ [c]" lines] by simp
qed simp

lemma split_loop_line [simp]: "split_loop cs [] [cur] = cur # split_loop cs [] []"
  using split_loop_acc [of cs "[]" "[cur]"] by simp

lemma split_loop_nonempty: "t \<noteq> [] \<or> cur \<noteq> [] \<Longrightarrow> split_loop t cur [] \<noteq> []"
proof (induction t arbitrary: cur)
  case (Cons c cs)
  then show ?case by (cases "c = newline") auto
qed simp

lemma Join_Cons: "ls \<noteq> [] \<Longrightarrow> Join (l # ls) = l @ newline # Join ls"
  by (cases ls) auto

lemma Join_split_loop: "Join (split_loop t cur []) @ final_newline t = cur @ t"
proof (induction t arbitrary: cur)
  case Nil
  then show ?case by (simp add: final_newline_def trailing_newline_def)
next
  case (Cons c cs)
  show ?case
  proof (cases "cs = []")
    case True
    then show ?thesis by (auto simp: final_newline_def trailing_newline_def)
  next
    case False
    then have fin: "final_newline (c # cs) = final_newline cs"
      by (simp add: final_newline_def trailing_newline_def)
    show ?thesis
    proof (cases "c = newline")
      case True
      with Cons [of "[]"] False fin show ?thesis by (simp add: Join_Cons split_loop_nonempty)
    next
      case False
      with Cons [of "cur @ [c]"] fin show ?thesis by simp
    qed
  qed
qed

lemma Join_splitLines: "Join (splitLines t) @ final_newline t = t"
  using Join_split_loop [of t "[]"]
  by (cases "t = []") (simp_all add: splitLines_def splitText_def final_newline_def trailing_newline_def)

lemma splitLines_Nil [simp]: "splitLines [] = []"
  by (simp add: splitLines_def)

lemma splitLines_Nil_iff [simp]: "splitLines t = [] \<longleftrightarrow> t = []"
  using split_loop_nonempty [of t "[]"] by (auto simp: splitLines_def splitText_def)

lemma Nil_splitLines_iff [simp]: "[] = splitLines t \<longleftrightarrow> t = []"
  by (metis splitLines_Nil_iff)

lemma ApplyPatchDirect_diff:
  assumes "\<not> (oldText = [] \<and> newText = [])"
  shows "\<exists>hs. Diff oldText newText = Some (Inr hs) \<and>
    (\<forall>h \<in> set hs. hunk_ok h \<and> hunk_from (splitLines oldText) (splitLines newText) h) \<and>
    ApplyPatchDirect oldText \<lparr>Header = hdr, Hunks = hs\<rparr> =
      \<lparr>Text = Join (splitLines newText) @
               (if newText \<noteq> [] \<and> (oldText = [] \<or> trailing_newline oldText) then [newline] else []),
       Rejected = False, Conflicts = []\<rparr>"
proof -
  let ?A = "splitLines oldText" and ?B = "splitLines newText"
  obtain ses where ses: "myersDiff ?A ?B = Some ses" "old_of ses = ?A" "new_of ses = ?B"
    using myersDiff_spec [of ?A ?B] by blast
  let ?hs = "buildHunks ses ?A ?B"
  obtain i res where app: "apply_hunks ?A ?hs ((0, []), []) = ((int i, res), [])" "res @ drop i ?A = ?B"
    "\<forall>h \<in> set ?hs. hunk_ok h"
    using buildHunks_apply [OF ses(2), of ?B] ses(3) applies_apply by metis
  have "?hs \<noteq> []" if "oldText = []"
  proof
    assume "?hs = []"
    with app(1) have "res = []" by (simp add: apply_hunks_def)
    with app(2) that assms show False by (metis append_Nil drop_Nil splitLines_Nil splitLines_Nil_iff)
  qed
  then have "ApplyPatchDirect oldText \<lparr>Header = hdr, Hunks = ?hs\<rparr> =
      \<lparr>Text = Join ?B @ (if newText \<noteq> [] \<and> (oldText = [] \<or> trailing_newline oldText) then [newline] else []),
       Rejected = False, Conflicts = []\<rparr>"
    using app by (auto simp: ApplyPatchDirect_def Let_def)
  moreover have "Diff oldText newText = Some (Inr ?hs)" using assms ses(1) by (auto simp: Diff_def Let_def)
  moreover note buildHunks_from(1) [OF ses(2,3)]
  ultimately show ?thesis using app(3) by blast
qed

subsection \<open>Properties\<close>

text \<open>
  C26. Applying the difference of two texts to the first is never rejected and gives the lines of the
  second; the text itself is reproduced exactly when the new text is empty or ends with a newline
  just in case the old text does, an empty old text counting as one that does.
\<close>

theorem diff_then_apply:
  assumes "\<not> (oldText = [] \<and> newText = [])"
  shows "\<exists>hs res. Diff oldText newText = Some (Inr hs) \<and>
    ApplyPatchDirect oldText \<lparr>Header = hdr, Hunks = hs\<rparr> = res \<and> \<not> Rejected res \<and> Conflicts res = [] \<and>
    (Text res = Join (splitLines newText) \<or> Text res = Join (splitLines newText) @ [newline]) \<and>
    (Text res = newText \<longleftrightarrow>
       newText = [] \<or> (trailing_newline newText \<longleftrightarrow> oldText = [] \<or> trailing_newline oldText))"
proof -
  have "Join (splitLines newText) @ final_newline newText = newText" by (rule Join_splitLines)
  then have "Join (splitLines newText) @ [newline] = newText \<longleftrightarrow> trailing_newline newText"
    "Join (splitLines newText) = newText \<longleftrightarrow> \<not> trailing_newline newText"
    by (auto simp: final_newline_def split: if_splits)
  with ApplyPatchDirect_diff [OF assms, of hdr] show ?thesis
    by (cases "newText = []") (auto split: if_splits)
qed

theorem diff_then_apply_witness:
  "\<exists>hs res. Diff [CHR ''a'', newline, CHR ''b''] [CHR ''b''] = Some (Inr hs) \<and>
     ApplyPatchDirect [CHR ''a'', newline, CHR ''b''] \<lparr>Header = \<lparr>OldFile = ''x'', NewFile = ''y''\<rparr>, Hunks = hs\<rparr> = res \<and>
     Text res = [CHR ''b'']"
  using diff_then_apply [of "[CHR ''a'', newline, CHR ''b'']" "[CHR ''b'']" "\<lparr>OldFile = ''x'', NewFile = ''y''\<rparr>"]
  by (auto simp: trailing_newline_def newline_def)

end
