(* ===== verification/Patchtext.thy ===== *)
theory Patchtext
  imports Diffpatch Gostrings
begin

section \<open>Unified diff text (\<open>patch.go\<close>, \<open>ApplyPatch\<close>)\<close>

text \<open>
  Printing a patch in unified format and parsing it back. The loop of \<open>ParsePatch\<close> is a fold of
  \<open>parse_line\<close> over the lines with the header, the finished hunks and the current hunk as state.
  The text of a formatted error is the argument of \<^const>\<open>ErrInvalidPatch\<close>; the quotation marks and
  escapes of \<open>%q\<close> are left out of it.
\<close>

subsection \<open>Printing\<close>

definition line_text :: "Line \<Rightarrow> string" where
  "line_text l =
     (case lineType l of LineEqual \<Rightarrow> '' '' | LineDelete \<Rightarrow> ''-'' | LineInsert \<Rightarrow> ''+'') @ Content l @ [newline]"

definition hunk_header :: "Hunk \<Rightarrow> string" where
  "hunk_header h =
     ''@@ -'' @ show_int (OldStart h) @ '','' @ show_int (OldCount h) @
     '' +'' @ show_int (NewStart h) @ '','' @ show_int (NewCount h) @ '' @@''"

definition PatchToUnified :: "Patch \<Rightarrow> string" where
  "PatchToUnified p =
     ''--- '' @ OldFile (Header p) @ [newline] @
     ''+++ '' @ NewFile (Header p) @ [newline] @
     concat (map (\<lambda>h. hunk_header h @ [newline] @ concat (map line_text (Lines h))) (Hunks p))"

text \<open>\<^const>\<open>None\<close> would be a panic in \<open>Diff\<close>.\<close>

definition GeneratePatch :: "string \<Rightarrow> string \<Rightarrow> string \<Rightarrow> string \<Rightarrow> (dp_error, string) result option" where
  "GeneratePatch oldFile newFile oldText newText =
     (case Diff oldText newText of
        None \<Rightarrow> None
      | Some (Inl e) \<Rightarrow> Some (Inl e)
      | Some (Inr hs) \<Rightarrow>
          Some (Inr (PatchToUnified \<lparr>Header = \<lparr>OldFile = oldFile, NewFile = newFile\<rparr>, Hunks = hs\<rparr>)))"

subsection \<open>Parsing\<close>

definition parseRange :: "string \<Rightarrow> (dp_error, int \<times> int) result" where
  "parseRange s =
     (case SplitN2 CHR '','' (TrimPrefix (TrimPrefix s ''-'') ''+'') of
        [p] \<Rightarrow>
          (case Sscanf_d p of None \<Rightarrow> Inl (ErrInvalidPatch '''') | Some start \<Rightarrow> Inr (start, 1))
      | p # q # _ \<Rightarrow>
          (case Sscanf_d p of
             None \<Rightarrow> Inl (ErrInvalidPatch '''')
           | Some start \<Rightarrow>
               (case Sscanf_d q of None \<Rightarrow> Inl (ErrInvalidPatch '''') | Some count \<Rightarrow> Inr (start, count)))
      | [] \<Rightarrow> Inl (ErrInvalidPatch ''''))"

definition parseHunkHeader :: "string \<Rightarrow> (dp_error, Hunk) result" where
  "parseHunkHeader l0 =
     (let l = TrimPrefix l0 ''@@ ''
      in case Index l '' @@'' of
           None \<Rightarrow> Inl (ErrInvalidPatch '''')
         | Some idx \<Rightarrow>
             (case SplitN2 CHR '' '' (take idx l) of
                [p, q] \<Rightarrow>
                  (case parseRange p of
                     Inl e \<Rightarrow> Inl e
                   | Inr (oldStart, oldCount) \<Rightarrow>
                       (case parseRange q of
                          Inl e \<Rightarrow> Inl e
                        | Inr (newStart, newCount) \<Rightarrow>
                            Inr \<lparr>OldStart = oldStart, OldCount = oldCount, NewStart = newStart,
                                 NewCount = newCount, Lines = []\<rparr>))
              | _ \<Rightarrow> Inl (ErrInvalidPatch '''')))"

record parse_state =
  header :: PatchHeader
  parsed :: "Hunk list"
  currentHunk :: "Hunk option"

definition finalizeHunk :: "parse_state \<Rightarrow> (dp_error, parse_state) result" where
  "finalizeHunk st =
     (case currentHunk st of
        None \<Rightarrow> Inr st
      | Some h \<Rightarrow>
          let actualOld = int (length (filter (\<lambda>l. lineType l \<noteq> LineInsert) (Lines h)));
              actualNew = int (length (filter (\<lambda>l. lineType l \<noteq> LineDelete) (Lines h)))
          in if actualOld \<noteq> OldCount h
             then Inl (ErrInvalidPatch (''hunk declares old count '' @ show_int (OldCount h) @
                         '' but has '' @ show_int actualOld @ '' old-side lines''))
             else if actualNew \<noteq> NewCount h
             then Inl (ErrInvalidPatch (''hunk declares new count '' @ show_int (NewCount h) @
                         '' but has '' @ show_int actualNew @ '' new-side lines''))
             else Inr (st\<lparr>parsed := parsed st @ [h]\<rparr>))"

definition parse_line :: "string \<Rightarrow> parse_state \<Rightarrow> (dp_error, parse_state) result" where
  "parse_line l st =
     (if HasPrefix l ''--- '' then Inr (st\<lparr>header := (header st)\<lparr>OldFile := TrimPrefix l ''--- ''\<rparr>\<rparr>)
      else if HasPrefix l ''+++ '' then Inr (st\<lparr>header := (header st)\<lparr>NewFile := TrimPrefix l ''+++ ''\<rparr>\<rparr>)
      else if HasPrefix l ''@@ '' then
        (case finalizeHunk st of
           Inl e \<Rightarrow> Inl e
         | Inr st1 \<Rightarrow>
             (case parseHunkHeader l of
                Inl e \<Rightarrow> Inl e
              | Inr h \<Rightarrow> Inr (st1\<lparr>currentHunk := Some h\<rparr>)))
      else case currentHunk st of
        None \<Rightarrow> Inr st
      | Some h \<Rightarrow>
          let add = (\<lambda>ty. Inr (st\<lparr>currentHunk := Some (h\<lparr>Lines := Lines h @
                       [\<lparr>Content = drop 1 l, lineType = ty, OldLineNo = 0, NewLineNo = 0\<rparr>]\<rparr>)\<rparr>))
          in if HasPrefix l ''-'' then add LineDelete
             else if HasPrefix l ''+'' then add LineInsert
             else if HasPrefix l '' '' then add LineEqual
             else Inl (ErrInvalidPatch (''unrecognized line prefix in hunk: '' @ l)))"

fun parse_lines :: "string list \<Rightarrow> parse_state \<Rightarrow> (dp_error, parse_state) result" where
  "parse_lines [] st = Inr st"
| "parse_lines (l # ls) st = (case parse_line l st of Inl e \<Rightarrow> Inl e | Inr st1 \<Rightarrow> parse_lines ls st1)"

definition ParsePatch :: "string \<Rightarrow> (dp_error, Patch) result" where
  "ParsePatch patchText =
     (let lines = splitText patchText
      in if length lines < 2 then Inl (ErrInvalidPatch '''')
         else case parse_lines lines
                     \<lparr>header = \<lparr>OldFile = '''', NewFile = ''''\<rparr>, parsed = [], currentHunk = None\<rparr> of
                Inl e \<Rightarrow> Inl e
              | Inr st \<Rightarrow>
                  (case finalizeHunk st of
                     Inl e \<Rightarrow> Inl e
                   | Inr st1 \<Rightarrow>
                       if OldFile (header st1) = '''' \<and> NewFile (header st1) = '''' \<and> parsed st1 = []
                       then Inl (ErrInvalidPatch '''')
                       else Inr \<lparr>Header = header st1, Hunks = parsed st1\<rparr>))"

definition ApplyPatch :: "string \<Rightarrow> string \<Rightarrow> (dp_error, ApplyResult) result" where
  "ApplyPatch originalText patchText =
     (case ParsePatch patchText of
        Inl e \<Rightarrow> Inl e
      | Inr patch \<Rightarrow> Inr (ApplyPatchDirect originalText patch))"

subsection \<open>The lines of a printed patch\<close>

definition line_body :: "Line \<Rightarrow> string" where
  "line_body l = butlast (line_text l)"

definition unified_lines :: "Patch \<Rightarrow> string list" where
  "unified_lines p =
     (''--- '' @ OldFile (Header p)) # (''+++ '' @ NewFile (Header p)) #
     concat (map (\<lambda>h. hunk_header h # map line_body (Lines h)) (Hunks p))"

lemma line_text_body: "line_text l = line_body l @ [newline]"
  by (simp add: line_text_def line_body_def butlast_append)

lemma PatchToUnified_lines: "PatchToUnified p = concat (map (\<lambda>l. l @ [newline]) (unified_lines p))"
proof -
  have "concat (map (\<lambda>h. hunk_header h @ [newline] @ concat (map line_text (Lines h))) hs) =
      concat (map (\<lambda>l. l @ [newline]) (concat (map (\<lambda>h. hunk_header h # map line_body (Lines h)) hs)))" for hs
    by (induction hs) (simp_all add: line_text_body comp_def)
  then show ?thesis by (simp add: PatchToUnified_def unified_lines_def)
qed

lemma split_loop_word: "newline \<notin> set l \<Longrightarrow> split_loop (l @ t) cur ls = split_loop t (cur @ l) ls"
  by (induction l arbitrary: cur) auto

lemma splitText_concat:
  "\<forall>l \<in> set ls. newline \<notin> set l \<Longrightarrow> splitText (concat (map (\<lambda>l. l @ [newline]) ls)) = ls"
  by (induction ls) (simp_all add: splitText_def split_loop_word)

lemma splitText_no_newline: "l \<in> set (splitText t) \<Longrightarrow> newline \<notin> set l"
proof -
  have "newline \<notin> set cur \<Longrightarrow> l \<in> set (split_loop t cur []) \<Longrightarrow> newline \<notin> set l" for cur
  proof (induction t arbitrary: cur)
    case (Cons c t)
    then show ?case using Cons.IH [of "[]"] Cons.IH [of "cur @ [c]"] by (cases "c = newline") auto
  qed (auto split: if_splits)
  from this [of "[]"] show "l \<in> set (splitText t) \<Longrightarrow> newline \<notin> set l" by (simp add: splitText_def)
qed

lemma set_show_int: "c \<in> set (show_int i) \<Longrightarrow> is_digit c \<or> c = CHR ''-''"
  by (auto simp: show_int_def set_show_nat split: if_splits)

lemma notin_show_int [simp]:
  "newline \<notin> set (show_int i)" "CHR '','' \<notin> set (show_int i)" "CHR '' '' \<notin> set (show_int i)"
  "CHR ''@'' \<notin> set (show_int i)" "CHR ''+'' \<notin> set (show_int i)"
  by (auto simp: newline_def dest!: set_show_int)

subsection \<open>Parsing a printed hunk\<close>

definition int64_ok :: "int \<Rightarrow> bool" where "int64_ok i \<longleftrightarrow> - (2 ^ 63) \<le> i \<and> i < 2 ^ 63"

lemma Sscanf_show [simp]: "int64_ok i \<Longrightarrow> Sscanf_d (show_int i) = Some i"
  using Sscanf_show_int [of i "[]"] by (simp add: int64_ok_def)

lemma TrimPrefix_show_int: "TrimPrefix (show_int i @ t) ''+'' = show_int i @ t"
proof -
  have "\<not> HasPrefix (show_int i @ t) ''+''"
    using notin_show_int(5) [of i] show_nat_digits by (cases "show_int i") (auto simp: show_int_def split: if_splits)
  then show ?thesis by (simp add: TrimPrefix_def)
qed

lemma parseRange_show:
  assumes "int64_ok i" "int64_ok j"
  shows "parseRange (''-'' @ show_int i @ '','' @ show_int j) = Inr (i, j)"
    and "parseRange (''+'' @ show_int i @ '','' @ show_int j) = Inr (i, j)"
  using assms TrimPrefix_show_int [of i "'','' @ show_int j"]
  by (simp_all add: parseRange_def TrimPrefix_def SplitN2_append [of "CHR '',''" "show_int i", simplified])

lemma Index_header: "CHR ''@'' \<notin> set s \<Longrightarrow> Index (s @ '' @@'') '' @@'' = Some (length s)"
proof (induction s)
  case (Cons c s)
  then show ?case by (cases s) auto
qed simp

lemma parseHunkHeader_parts:
  assumes "TrimPrefix l ''@@ '' = s @ '' @@''" "CHR ''@'' \<notin> set s" "SplitN2 CHR '' '' s = [p, q]"
    and "parseRange p = Inr (a, b)" "parseRange q = Inr (c, d)"
  shows "parseHunkHeader l = Inr \<lparr>OldStart = a, OldCount = b, NewStart = c, NewCount = d, Lines = []\<rparr>"
  using assms by (simp add: parseHunkHeader_def Let_def Index_header)

lemma parseHunkHeader_show:
  assumes "int64_ok (OldStart h)" "int64_ok (OldCount h)" "int64_ok (NewStart h)" "int64_ok (NewCount h)"
  shows "parseHunkHeader (hunk_header h) = Inr (h\<lparr>Lines := []\<rparr>)"
proof -
  let ?old = "''-'' @ show_int (OldStart h) @ '','' @ show_int (OldCount h)"
    and ?new = "''+'' @ show_int (NewStart h) @ '','' @ show_int (NewCount h)"
  have hdr: "TrimPrefix (hunk_header h) ''@@ '' = (?old @ CHR '' '' # ?new) @ '' @@''"
    by (simp add: hunk_header_def TrimPrefix_def)
  have "parseHunkHeader (hunk_header h) =
      Inr \<lparr>OldStart = OldStart h, OldCount = OldCount h, NewStart = NewStart h, NewCount = NewCount h, Lines = []\<rparr>"
    by (rule parseHunkHeader_parts [OF hdr _ SplitN2_append parseRange_show(1) parseRange_show(2)])
       (use assms in auto)
  then show ?thesis by simp
qed

text \<open>
  A line that survives the round trip: the parser takes a deleted line that begins with two dashes
  and a blank, or an inserted one that begins with two plus signs and a blank, for a file header.
\<close>

definition line_safe :: "Line \<Rightarrow> bool" where
  "line_safe l \<longleftrightarrow> newline \<notin> set (Content l) \<and>
     (case lineType l of
        LineEqual \<Rightarrow> True
      | LineDelete \<Rightarrow> \<not> HasPrefix (Content l) ''-- ''
      | LineInsert \<Rightarrow> \<not> HasPrefix (Content l) ''++ '')"

definition hunk_safe :: "Hunk \<Rightarrow> bool" where
  "hunk_safe h \<longleftrightarrow> hunk_ok h \<and> (\<forall>l \<in> set (Lines h). line_safe l) \<and>
     int64_ok (OldStart h) \<and> int64_ok (OldCount h) \<and> int64_ok (NewStart h) \<and> int64_ok (NewCount h)"

definition bare_line :: "Line \<Rightarrow> Line" where "bare_line l = l\<lparr>OldLineNo := 0, NewLineNo := 0\<rparr>"

definition bare :: "Hunk \<Rightarrow> Hunk" where "bare h = h\<lparr>Lines := map bare_line (Lines h)\<rparr>"

lemma parse_line_body:
  assumes "line_safe l" "currentHunk st = Some h"
  shows "parse_line (line_body l) st = Inr (st\<lparr>currentHunk := Some (h\<lparr>Lines := Lines h @ [bare_line l]\<rparr>)\<rparr>)"
  using assms
  by (cases l; cases "lineType l")
     (auto simp: parse_line_def line_body_def line_text_def line_safe_def bare_line_def butlast_append)

lemma parse_line_bodies:
  "\<forall>l \<in> set ls. line_safe l \<Longrightarrow> currentHunk st = Some h \<Longrightarrow>
   parse_lines (map line_body ls) st = Inr (st\<lparr>currentHunk := Some (h\<lparr>Lines := Lines h @ map bare_line ls\<rparr>)\<rparr>)"
  by (induction ls arbitrary: st h) (simp_all add: parse_line_body)

lemma parse_lines_append:
  "parse_lines (xs @ ys) st = (case parse_lines xs st of Inl e \<Rightarrow> Inl e | Inr st1 \<Rightarrow> parse_lines ys st1)"
  by (induction xs arbitrary: st) (simp_all split: sum.split)

text \<open>The parser's state after printed hunks: the last one is still open.\<close>

definition after_hunks :: "Hunk list \<Rightarrow> parse_state \<Rightarrow> parse_state" where
  "after_hunks hs st =
     (if hs = [] then st
      else st\<lparr>parsed := parsed st @ (case currentHunk st of None \<Rightarrow> [] | Some h \<Rightarrow> [h]) @ butlast hs,
              currentHunk := Some (last hs)\<rparr>)"

definition open_ok :: "parse_state \<Rightarrow> bool" where
  "open_ok st \<longleftrightarrow> (case currentHunk st of None \<Rightarrow> True | Some h \<Rightarrow> hunk_ok h)"

lemma finalizeHunk_ok:
  "open_ok st \<Longrightarrow> finalizeHunk st =
     Inr (st\<lparr>parsed := parsed st @ (case currentHunk st of None \<Rightarrow> [] | Some h \<Rightarrow> [h])\<rparr>)"
  by (auto simp: open_ok_def finalizeHunk_def hunk_ok_def old_part_def new_part_def Let_def split: option.splits)

lemma hunk_ok_bare [simp]: "hunk_ok (bare h) = hunk_ok h"
  by (simp add: hunk_ok_def bare_def old_part_def new_part_def filter_map comp_def bare_line_def)

lemma parse_hunk:
  assumes "hunk_safe h" "open_ok st"
  shows "parse_lines (hunk_header h # map line_body (Lines h)) st = Inr (after_hunks [bare h] st)"
proof -
  have "\<not> HasPrefix (hunk_header h) ''--- ''" "\<not> HasPrefix (hunk_header h) ''+++ ''" "HasPrefix (hunk_header h) ''@@ ''"
    by (simp_all add: hunk_header_def)
  with assms have "parse_line (hunk_header h) st =
      Inr (st\<lparr>parsed := parsed st @ (case currentHunk st of None \<Rightarrow> [] | Some h \<Rightarrow> [h]), currentHunk := Some (h\<lparr>Lines := []\<rparr>)\<rparr>)"
    by (simp add: parse_line_def finalizeHunk_ok hunk_safe_def parseHunkHeader_show)
  with assms show ?thesis
    by (simp add: parse_line_bodies [where h = "h\<lparr>Lines := []\<rparr>"] hunk_safe_def after_hunks_def bare_def)
qed

lemma parse_hunks:
  "\<forall>h \<in> set hs. hunk_safe h \<Longrightarrow> open_ok st \<Longrightarrow>
   parse_lines (concat (map (\<lambda>h. hunk_header h # map line_body (Lines h)) hs)) st = Inr (after_hunks (map bare hs) st)"
proof (induction hs arbitrary: st)
  case (Cons h hs)
  have "open_ok (after_hunks [bare h] st)"
    using Cons.prems by (simp add: open_ok_def after_hunks_def hunk_safe_def)
  with Cons have "parse_lines (concat (map (\<lambda>h. hunk_header h # map line_body (Lines h)) (h # hs))) st =
      Inr (after_hunks (map bare hs) (after_hunks [bare h] st))"
    using parse_lines_append [of "hunk_header h # map line_body (Lines h)"] parse_hunk [of h st] by simp
  then show ?case by (auto simp: after_hunks_def)
qed (simp add: after_hunks_def)

lemma bare_simps [simp]:
  "Content (bare_line l) = Content l" "lineType (bare_line l) = lineType l"
  "OldStart (bare h) = OldStart h" "OldCount (bare h) = OldCount h" "Lines (bare h) = map bare_line (Lines h)"
  by (simp_all add: bare_line_def bare_def)

lemma newline_unified_lines:
  assumes "newline \<notin> set (OldFile (Header p))" "newline \<notin> set (NewFile (Header p))" "\<forall>h \<in> set (Hunks p). hunk_safe h"
  shows "\<forall>l \<in> set (unified_lines p). newline \<notin> set l"
proof -
  have "newline \<notin> set (line_body l)" if "line_safe l" for l
    using that by (auto simp: line_safe_def line_body_def line_text_def butlast_append newline_def split: LineType.splits)
  moreover have "newline \<notin> set (hunk_header h)" for h
    by (simp add: hunk_header_def) (simp add: newline_def)
  ultimately show ?thesis using assms by (auto simp: unified_lines_def hunk_safe_def newline_def)
qed

lemma parse_unified:
  assumes "newline \<notin> set (OldFile (Header p))" "newline \<notin> set (NewFile (Header p))" "\<forall>h \<in> set (Hunks p). hunk_safe h"
    and "OldFile (Header p) \<noteq> '''' \<or> NewFile (Header p) \<noteq> '''' \<or> Hunks p \<noteq> []"
  shows "ParsePatch (PatchToUnified p) = Inr (p\<lparr>Hunks := map bare (Hunks p)\<rparr>)"
proof -
  have "splitText (PatchToUnified p) = unified_lines p"
    using splitText_concat newline_unified_lines [OF assms(1-3)] by (simp add: PatchToUnified_lines)
  moreover have "parse_lines (unified_lines p) \<lparr>header = \<lparr>OldFile = '''', NewFile = ''''\<rparr>, parsed = [], currentHunk = None\<rparr> =
      Inr (after_hunks (map bare (Hunks p)) \<lparr>header = Header p, parsed = [], currentHunk = None\<rparr>)"
    using parse_hunks [OF assms(3)]
    by (cases "Header p") (simp add: unified_lines_def parse_line_def open_ok_def TrimPrefix_def)
  moreover have "finalizeHunk (after_hunks (map bare (Hunks p)) \<lparr>header = Header p, parsed = [], currentHunk = None\<rparr>) =
      Inr ((after_hunks (map bare (Hunks p)) \<lparr>header = Header p, parsed = [], currentHunk = None\<rparr>)\<lparr>parsed := map bare (Hunks p)\<rparr>)"
    using assms(3) append_butlast_last_id [of "map bare (Hunks p)"]
    by (subst finalizeHunk_ok) (auto simp: open_ok_def after_hunks_def last_map hunk_safe_def)
  ultimately show ?thesis
    using assms(4) by (cases p) (auto simp: ParsePatch_def Let_def unified_lines_def after_hunks_def)
qed

subsection \<open>Applying a parsed patch\<close>

lemma verifyContext_bare [simp]: "verifyContext A i (map bare_line ls) = verifyContext A i ls"
  by (induction A i ls rule: verifyContext.induct) (simp_all split: LineType.split)

lemma apply_lines_bare [simp]: "apply_lines A (map bare_line ls) s = apply_lines A ls s"
proof (induction ls arbitrary: s)
  case (Cons l ls)
  then show ?case by (cases s; cases "lineType l") simp_all
qed simp

lemma extractNewLines_bare [simp]: "extractNewLines (bare h) = extractNewLines h"
  by (simp add: extractNewLines_def filter_map comp_def)

lemma ApplyPatchDirect_bare:
  "ApplyPatchDirect t (p\<lparr>Hunks := map bare (Hunks p)\<rparr>) = ApplyPatchDirect t p"
proof -
  have "apply_hunk A (bare h) = apply_hunk A h" for A h
    by (rule ext) (simp add: apply_hunk_def split_beta Let_def)
  then have "apply_hunks A (map bare hs) s = apply_hunks A hs s" for A hs s
    by (simp add: apply_hunks_def fold_map comp_def)
  then show ?thesis by (simp add: ApplyPatchDirect_def)
qed

lemma length_splitLines: "length (splitLines t) \<le> length t"
proof -
  have "length (split_loop t cur []) \<le> length t + (if cur = [] then 0 else 1)" for cur
  proof (induction t arbitrary: cur)
    case (Cons c t)
    show ?case using Cons [of "[]"] Cons [of "cur @ [c]"] by (auto split: if_splits)
  qed simp
  from this [of "[]"] show ?thesis by (simp add: splitLines_def splitText_def)
qed

lemma hunk_from_safe:
  assumes "hunk_ok h" "hunk_from (splitLines oldText) (splitLines newText) h"
    and "\<forall>l \<in> set (splitLines oldText). \<not> HasPrefix l ''-- ''" "\<forall>l \<in> set (splitLines newText). \<not> HasPrefix l ''++ ''"
    and "length oldText < 2 ^ 62" "length newText < 2 ^ 62"
  shows "hunk_safe h"
proof -
  have "newline \<notin> set l" if "l \<in> set (splitLines t)" for l t
    using that splitText_no_newline by (auto simp: splitLines_def split: if_splits)
  then have "line_safe l" if "l \<in> set (Lines h)" for l
    using that assms(2-4) by (cases "lineType l") (auto simp: hunk_from_def lines_from_def line_safe_def)
  then show ?thesis
    using assms length_splitLines [of oldText] length_splitLines [of newText]
    by (auto simp: hunk_safe_def hunk_ok_def hunk_from_def int64_ok_def)
qed

subsection \<open>Properties\<close>

text \<open>
  C27. The text that \<open>GeneratePatch\<close> prints parses, and \<open>ApplyPatch\<close> on the old text accepts it
  and gives the lines of the new text, provided that no old line begins with two dashes and a blank and
  no new line with two plus signs and a blank (the parser would take their printed form for a file
  header), that the file names are one line and not both empty, and that line numbers fit an \<open>int\<close>.
\<close>

theorem generate_then_apply:
  assumes "\<not> (oldText = [] \<and> newText = [])" "length oldText < 2 ^ 62" "length newText < 2 ^ 62"
    and "newline \<notin> set oldFile" "newline \<notin> set newFile" "oldFile \<noteq> '''' \<or> newFile \<noteq> ''''"
    and "\<forall>l \<in> set (splitLines oldText). \<not> HasPrefix l ''-- ''" "\<forall>l \<in> set (splitLines newText). \<not> HasPrefix l ''++ ''"
  shows "\<exists>text. GeneratePatch oldFile newFile oldText newText = Some (Inr text) \<and>
    ApplyPatch oldText text = Inr
      \<lparr>Text = Join (splitLines newText) @
               (if newText \<noteq> [] \<and> (oldText = [] \<or> trailing_newline oldText) then [newline] else []),
       Rejected = False, Conflicts = []\<rparr>"
proof -
  let ?hdr = "\<lparr>OldFile = oldFile, NewFile = newFile\<rparr>"
  obtain hs where hs: "Diff oldText newText = Some (Inr hs)"
    "\<forall>h \<in> set hs. hunk_ok h \<and> hunk_from (splitLines oldText) (splitLines newText) h"
    "ApplyPatchDirect oldText \<lparr>Header = ?hdr, Hunks = hs\<rparr> =
      \<lparr>Text = Join (splitLines newText) @
               (if newText \<noteq> [] \<and> (oldText = [] \<or> trailing_newline oldText) then [newline] else []),
       Rejected = False, Conflicts = []\<rparr>"
    using ApplyPatchDirect_diff [OF assms(1), of ?hdr] by blast
  have "\<forall>h \<in> set hs. hunk_safe h" using hunk_from_safe [OF _ _ assms(7,8,2,3)] hs(2) by blast
  then have "ParsePatch (PatchToUnified \<lparr>Header = ?hdr, Hunks = hs\<rparr>) =
      Inr (\<lparr>Header = ?hdr, Hunks = hs\<rparr>\<lparr>Hunks := map bare hs\<rparr>)"
    using parse_unified [of "\<lparr>Header = ?hdr, Hunks = hs\<rparr>"] assms(4-6) by auto
  moreover have "ApplyPatchDirect oldText (\<lparr>Header = ?hdr, Hunks = hs\<rparr>\<lparr>Hunks := map bare hs\<rparr>) =
      ApplyPatchDirect oldText \<lparr>Header = ?hdr, Hunks = hs\<rparr>"
    using ApplyPatchDirect_bare [of oldText "\<lparr>Header = ?hdr, Hunks = hs\<rparr>"] by simp
  ultimately show ?thesis using hs(1,3) by (simp add: GeneratePatch_def ApplyPatch_def)
qed

theorem generate_then_apply_witness:
  "\<exists>text. GeneratePatch ''old'' ''new'' [CHR ''a'', newline] [CHR ''b'', newline] = Some (Inr text) \<and>
     ApplyPatch [CHR ''a'', newline] text = Inr \<lparr>Text = [CHR ''b'', newline], Rejected = False, Conflicts = []\<rparr>"
  using generate_then_apply [of "[CHR ''a'', newline]" "[CHR ''b'', newline]" "''old''" "''new''"]
  by (simp add: splitLines_def splitText_def newline_def trailing_newline_def)

text \<open>The condition on the lines is needed: a patch that deletes such a line does not parse.\<close>

lemma deleted_dashes_break_the_patch:
  "ParsePatch (PatchToUnified \<lparr>Header = \<lparr>OldFile = ''x'', NewFile = ''y''\<rparr>,
     Hunks = [\<lparr>OldStart = 1, OldCount = 1, NewStart = 1, NewCount = 0,
       Lines = [\<lparr>Content = ''-- a'', lineType = LineDelete, OldLineNo = 1, NewLineNo = 0\<rparr>]\<rparr>]\<rparr>) =
   Inl (ErrInvalidPatch ''hunk declares old count 1 but has 0 old-side lines'')"
  by code_simp

end
