(* ===== verification/Merge.thy ===== *)
theory Merge
  imports Diffpatch "HOL-Library.Multiset"
begin

section \<open>Three-way merge (\<open>merge.go\<close>)\<close>

text \<open>
  \<open>ThreeWayMerge\<close> reads the changes of both sides off their hunks, looks for changes that overlap,
  and replays the changes of both sides on the base. Loops are folds over their local variables; the
  exchange sort of \<open>mergeChanges\<close> works on indices, as in the code.
\<close>

subsection \<open>Changes\<close>

record MergeResult =
  mergedText :: string
  HasConflicts :: bool
  mergeConflicts :: "ConflictRange list"

record change =
  oldStart :: int
  oldEnd :: int
  newLines :: "string list"
  source :: string

record change_state =
  changes :: "change list"
  deleted :: int
  inserted :: "string list"
  changeStart :: int

definition flush :: "change_state \<Rightarrow> change_state" where
  "flush st =
     (if deleted st > 0 \<or> inserted st \<noteq> []
      then st\<lparr>changes := changes st @
                [\<lparr>oldStart = changeStart st, oldEnd = changeStart st + deleted st, newLines = inserted st, source = ''''\<rparr>],
              deleted := 0, inserted := []\<rparr>
      else st)"

definition change_line :: "Line \<Rightarrow> change_state \<Rightarrow> change_state" where
  "change_line l st =
     (case lineType l of
        LineDelete \<Rightarrow> st\<lparr>deleted := deleted st + 1\<rparr>
      | LineInsert \<Rightarrow> st\<lparr>inserted := inserted st @ [Content l]\<rparr>
      | LineEqual \<Rightarrow> (flush st)\<lparr>changeStart := OldLineNo l\<rparr>)"

definition hunk_changes :: "Hunk \<Rightarrow> change list \<Rightarrow> change list" where
  "hunk_changes h cs =
     changes (flush (fold change_line (Lines h)
       \<lparr>changes = cs, deleted = 0, inserted = [],
        changeStart = (if OldStart h - 1 < 0 then 0 else OldStart h - 1)\<rparr>))"

definition diffToChanges :: "Hunk list \<Rightarrow> change list" where
  "diffToChanges hs = fold hunk_changes hs []"

subsection \<open>Conflicts\<close>

definition rangesOverlap :: "int \<Rightarrow> int \<Rightarrow> int \<Rightarrow> int \<Rightarrow> bool" where
  "rangesOverlap aStart aEnd bStart bEnd \<longleftrightarrow> aStart = bStart \<or> aStart < bEnd \<and> aEnd > bStart"

definition sameContent :: "string list \<Rightarrow> string list \<Rightarrow> bool" where
  "sameContent a b \<longleftrightarrow> length a = length b \<and> list_all2 (=) a b"

definition detectConflicts :: "change list \<Rightarrow> change list \<Rightarrow> ConflictRange list" where
  "detectConflicts oursChanges theirsChanges =
     concat (map (\<lambda>oc. concat (map (\<lambda>tc.
       if rangesOverlap (oldStart oc) (oldEnd oc) (oldStart tc) (oldEnd tc) \<and> \<not> sameContent (newLines oc) (newLines tc)
       then [\<lparr>StartLine = oldStart oc + 1, EndLine = oldEnd oc, Ours = newLines oc, Theirs = newLines tc, Base = []\<rparr>]
       else []) theirsChanges)) oursChanges)"

subsection \<open>Merging the change lists\<close>

definition exchange :: "nat \<Rightarrow> nat \<Rightarrow> change list \<Rightarrow> change list" where
  "exchange i j all =
     (if oldStart (all ! i) > oldStart (all ! j) then all[i := all ! j, j := all ! i] else all)"

definition exchange_sort :: "change list \<Rightarrow> change list" where
  "exchange_sort all = fold (\<lambda>i. fold (exchange i) [Suc i..<length all]) [0..<length all] all"

fun dedup_loop :: "change list \<Rightarrow> int list \<Rightarrow> change list \<Rightarrow> change list" where
  "dedup_loop [] seen res = res"
| "dedup_loop (ch # chs) seen res =
     (if oldStart ch \<in> set seen then dedup_loop chs seen res
      else dedup_loop chs (oldStart ch # seen) (res @ [ch]))"

definition deduplicateChanges :: "change list \<Rightarrow> change list" where
  "deduplicateChanges chs = dedup_loop chs [] []"

definition mergeChanges :: "change list \<Rightarrow> change list \<Rightarrow> change list" where
  "mergeChanges oursChanges theirsChanges = deduplicateChanges (exchange_sort (oursChanges @ theirsChanges))"

subsection \<open>Replaying changes\<close>

text \<open>
  \<open>for baseIdx < ch.oldStart && baseIdx < len(baseLines)\<close>: copy the base up to the change.
\<close>

definition copy_base :: "string list \<Rightarrow> int \<Rightarrow> int \<times> string list \<Rightarrow> int \<times> string list" where
  "copy_base baseLines stop = (\<lambda>(baseIdx, res).
     (max baseIdx (min stop (int (length baseLines))),
      res @ take (nat (stop - baseIdx)) (drop (nat baseIdx) baseLines)))"

definition apply_change :: "string list \<Rightarrow> change \<Rightarrow> int \<times> string list \<Rightarrow> int \<times> string list" where
  "apply_change baseLines ch s =
     (let (baseIdx, res) = copy_base baseLines (oldStart ch) s
      in (if baseIdx < oldEnd ch then oldEnd ch else baseIdx, res @ newLines ch))"

definition applyBothChanges :: "string list \<Rightarrow> change list \<Rightarrow> change list \<Rightarrow> string" where
  "applyBothChanges baseLines oursChanges theirsChanges =
     (let (baseIdx, res) = fold (apply_change baseLines) (mergeChanges oursChanges theirsChanges) (0, [])
      in Join (res @ drop (nat baseIdx) baseLines))"

definition content_at :: "int \<Rightarrow> change list \<Rightarrow> string list" where
  "content_at start cs = (case find (\<lambda>c. oldStart c = start) cs of None \<Rightarrow> [] | Some c \<Rightarrow> newLines c)"

definition mark_change ::
    "string list \<Rightarrow> change list \<Rightarrow> change list \<Rightarrow> ConflictRange list \<Rightarrow> change \<Rightarrow> int \<times> string list \<Rightarrow> int \<times> string list" where
  "mark_change baseLines oursChanges theirsChanges conflicts ch s =
     (let (baseIdx, res) = copy_base baseLines (oldStart ch) s;
          isConflict = (\<exists>c \<in> set conflicts. oldStart ch \<ge> StartLine c - 1 \<and> oldStart ch < EndLine c)
      in (oldEnd ch,
          if isConflict
          then res @ [''<<<<<<< ours''] @ content_at (oldStart ch) oursChanges @ [''=======''] @
               content_at (oldStart ch) theirsChanges @ [''>>>>>>> theirs'']
          else res @ newLines ch))"

definition mergeWithConflictMarkers ::
    "string list \<Rightarrow> string list \<Rightarrow> string list \<Rightarrow> change list \<Rightarrow> change list \<Rightarrow> ConflictRange list \<Rightarrow> string" where
  "mergeWithConflictMarkers baseLines oursLines theirsLines oursChanges theirsChanges conflicts =
     (let (baseIdx, res) = fold (mark_change baseLines oursChanges theirsChanges conflicts)
                             (mergeChanges oursChanges theirsChanges) (0, [])
      in Join (res @ drop (nat baseIdx) baseLines))"

text \<open>\<^const>\<open>None\<close> would be a panic in \<open>Diff\<close>.\<close>

definition ThreeWayMerge :: "string \<Rightarrow> string \<Rightarrow> string \<Rightarrow> (dp_error, MergeResult) result option" where
  "ThreeWayMerge baseText oursText theirsText =
     (let clean = (\<lambda>t. Some (Inr \<lparr>mergedText = t, HasConflicts = False, mergeConflicts = []\<rparr>))
      in if baseText = oursText then clean theirsText
         else if baseText = theirsText then clean oursText
         else if oursText = theirsText then clean oursText
         else case Diff baseText oursText of
                None \<Rightarrow> None
              | Some (Inl e) \<Rightarrow> Some (Inl e)
              | Some (Inr oursHunks) \<Rightarrow>
                  (case Diff baseText theirsText of
                     None \<Rightarrow> None
                   | Some (Inl e) \<Rightarrow> Some (Inl e)
                   | Some (Inr theirsHunks) \<Rightarrow>
                       let oursChanges = diffToChanges oursHunks;
                           theirsChanges = diffToChanges theirsHunks;
                           conflicts = detectConflicts oursChanges theirsChanges
                       in if conflicts \<noteq> []
                          then Some (Inr \<lparr>mergedText = mergeWithConflictMarkers (splitLines baseText) (splitLines oursText)
                                            (splitLines theirsText) oursChanges theirsChanges conflicts,
                                          HasConflicts = True, mergeConflicts = conflicts\<rparr>)
                          else clean (applyBothChanges (splitLines baseText) oursChanges theirsChanges)))"

definition FormatConflict :: "ConflictRange \<Rightarrow> string" where
  "FormatConflict c =
     ''<<<<<<< ours'' @ [newline] @ concat (map (\<lambda>l. l @ [newline]) (Ours c)) @
     ''======='' @ [newline] @ concat (map (\<lambda>l. l @ [newline]) (Theirs c)) @
     ''>>>>>>> theirs'' @ [newline]"

subsection \<open>The text a set of changes describes\<close>

text \<open>
  \<open>edited base cs\<close>: before each base line, and at the end, what some change inserts there; then the
  line itself unless some change removes it. This does not mention the order of the changes.
\<close>

definition removed :: "change list \<Rightarrow> int \<Rightarrow> bool" where
  "removed cs i \<longleftrightarrow> (\<exists>c \<in> set cs. oldStart c \<le> i \<and> i < oldEnd c)"

definition edited_from :: "string list \<Rightarrow> change list \<Rightarrow> nat \<Rightarrow> string list" where
  "edited_from base cs i =
     concat (map (\<lambda>j. content_at (int j) cs @ (if removed cs (int j) then [] else [base ! j])) [i..<length base]) @
     content_at (int (length base)) cs"

definition edited :: "string list \<Rightarrow> change list \<Rightarrow> string list" where
  "edited base cs = edited_from base cs 0"

definition before :: "change \<Rightarrow> change \<Rightarrow> bool" where
  "before a b \<longleftrightarrow> oldStart a < oldStart b \<and> oldEnd a \<le> oldStart b"

definition ordered :: "string list \<Rightarrow> change list \<Rightarrow> bool" where
  "ordered base cs \<longleftrightarrow> sorted_wrt before cs \<and>
     (\<forall>c \<in> set cs. 0 \<le> oldStart c \<and> oldStart c \<le> oldEnd c \<and> oldEnd c \<le> int (length base))"

lemma edited_from_step:
  "i < length base \<Longrightarrow> edited_from base cs i =
     content_at (int i) cs @ (if removed cs (int i) then [] else [base ! i]) @ edited_from base cs (Suc i)"
  by (simp add: edited_from_def upt_conv_Cons)

lemma edited_from_end: "edited_from base cs (length base) = content_at (int (length base)) cs"
  by (simp add: edited_from_def)

lemma edited_from_cong:
  assumes "\<And>j. i \<le> j \<Longrightarrow> content_at (int j) cs = content_at (int j) ds"
    and "\<And>j. i \<le> j \<Longrightarrow> removed cs (int j) = removed ds (int j)" and "i \<le> length base"
  shows "edited_from base cs i = edited_from base ds i"
proof -
  have "map (\<lambda>j. content_at (int j) cs @ (if removed cs (int j) then [] else [base ! j])) [i..<length base] =
      map (\<lambda>j. content_at (int j) ds @ (if removed ds (int j) then [] else [base ! j])) [i..<length base]"
    using assms by (intro map_cong) auto
  then show ?thesis unfolding edited_from_def using assms(1) [OF assms(3)] by (simp only:)
qed

lemma edited_from_kept:
  assumes "i \<le> s" "s \<le> length base"
    and "\<And>j. i \<le> j \<Longrightarrow> j < s \<Longrightarrow> content_at (int j) cs = [] \<and> \<not> removed cs (int j)"
  shows "edited_from base cs i = take (s - i) (drop i base) @ edited_from base cs s"
  using assms
proof (induction "s - i" arbitrary: i)
  case (Suc n)
  then have "s - i = Suc (s - Suc i)" "i < length base" by simp_all
  then have "take (s - i) (drop i base) = base ! i # take (s - Suc i) (drop (Suc i) base)"
    by (simp add: Cons_nth_drop_Suc [symmetric])
  with Suc.hyps(1) [of "Suc i"] Suc.hyps(2) Suc.prems show ?case
    using edited_from_step [of i base cs] by simp
qed simp

lemma edited_from_dropped:
  assumes "i \<le> e" "e \<le> length base"
    and "\<And>j. i \<le> j \<Longrightarrow> j < e \<Longrightarrow> content_at (int j) cs = [] \<and> removed cs (int j)"
  shows "edited_from base cs i = edited_from base cs e"
  using assms
proof (induction "e - i" arbitrary: i)
  case (Suc n)
  with Suc.hyps(1) [of "Suc i"] show ?case using edited_from_step [of i base cs] by simp
qed simp

lemma content_at_Nil: "(\<And>c. c \<in> set cs \<Longrightarrow> oldStart c \<noteq> i) \<Longrightarrow> content_at i cs = []"
  using find_None_iff [of "\<lambda>c. oldStart c = i" cs] by (auto simp: content_at_def)

lemma content_at_Cons: "content_at i (c # cs) = (if oldStart c = i then newLines c else content_at i cs)"
  by (simp add: content_at_def)

lemma removed_Cons: "removed (c # cs) i \<longleftrightarrow> oldStart c \<le> i \<and> i < oldEnd c \<or> removed cs i"
  by (auto simp: removed_def)

lemma removed_False: "(\<And>c. c \<in> set cs \<Longrightarrow> i < oldStart c) \<Longrightarrow> \<not> removed cs i"
  by (force simp: removed_def)

lemma edited_from_Cons:
  assumes "ordered base (c # cs)" "int i \<le> oldStart c"
  shows "edited_from base (c # cs) i =
    take (nat (oldStart c) - i) (drop i base) @ newLines c @ edited_from base cs (nat (oldEnd c))"
proof -
  define s e where "s = nat (oldStart c)" and "e = nat (oldEnd c)"
  have se: "oldStart c = int s" "oldEnd c = int e" "s \<le> e" "e \<le> length base" "i \<le> s"
    using assms by (auto simp: ordered_def s_def e_def)
  have later: "int s < oldStart d" "int e \<le> oldStart d" if "d \<in> set cs" for d
    using assms(1) that se by (auto simp: ordered_def before_def)
  have none: "content_at (int j) cs = []" "\<not> removed cs (int j)" if "j \<le> s \<or> j < e" for j
  proof -
    have less: "int j < oldStart d" if "d \<in> set cs" for d using later [OF that] \<open>j \<le> s \<or> j < e\<close> by linarith
    then show "\<not> removed cs (int j)" by (rule removed_False)
    show "content_at (int j) cs = []" using less by (intro content_at_Nil) force
  qed
  have 1: "edited_from base (c # cs) i = take (s - i) (drop i base) @ edited_from base (c # cs) s"
    using se none by (intro edited_from_kept) (auto simp: content_at_Cons removed_Cons)
  have 2: "edited_from base (c # cs) (Suc s) = edited_from base cs (Suc s)" if "s = e" "s < length base"
    using se that by (intro edited_from_cong) (auto simp: content_at_Cons removed_Cons)
  have 3: "edited_from base (c # cs) (Suc s) = edited_from base (c # cs) e" if "s < e"
    using se none that by (intro edited_from_dropped) (auto simp: content_at_Cons removed_Cons)
  have 4: "edited_from base (c # cs) e = edited_from base cs e" if "s < e"
    using se that by (intro edited_from_cong) (auto simp: content_at_Cons removed_Cons)
  have "edited_from base (c # cs) s = newLines c @ edited_from base cs e"
  proof (cases "s < e")
    case True
    with edited_from_step [of s base "c # cs"] se 3 4 show ?thesis by (simp add: content_at_Cons removed_Cons)
  next
    case False
    with se have "s = e" by simp
    show ?thesis
    proof (cases "s < length base")
      case True
      with \<open>s = e\<close> edited_from_step [of s base "c # cs"] edited_from_step [of s base cs] se 2 none [of s]
      show ?thesis by (simp add: content_at_Cons removed_Cons)
    next
      case False
      then have "s = length base" using se by simp
      with \<open>s = e\<close> edited_from_end [of base "c # cs"] edited_from_end [of base cs] se none [of s]
      show ?thesis by (simp add: content_at_Cons)
    qed
  qed
  with 1 show ?thesis by (simp add: s_def e_def)
qed

subsection \<open>Replaying ordered changes\<close>

lemma apply_change_ordered:
  assumes "int i \<le> oldStart c" "oldStart c \<le> oldEnd c" "oldEnd c \<le> int (length base)"
  shows "apply_change base c (int i, res) =
    (int (nat (oldEnd c)), res @ take (nat (oldStart c) - i) (drop i base) @ newLines c)"
  using assms by (auto simp: apply_change_def copy_base_def Let_def nat_diff_distrib max_def min_def)

lemma fold_apply_change:
  assumes "ordered base cs" "\<forall>c \<in> set cs. int i \<le> oldStart c" "i \<le> length base"
  shows "\<exists>j res'. fold (apply_change base) cs (int i, res) = (int j, res') \<and>
    res' @ drop j base = res @ edited_from base cs i"
  using assms
proof (induction cs arbitrary: i res)
  case Nil
  have "edited_from base [] i = drop i base"
    using edited_from_kept [of i "length base" base "[]"] Nil.prems(3)
    by (simp add: content_at_def removed_def edited_from_end)
  then show ?case by simp
next
  case (Cons c cs)
  have ord: "ordered base cs" "\<forall>d \<in> set cs. int (nat (oldEnd c)) \<le> oldStart d"
    using Cons.prems by (auto simp: ordered_def before_def)
  have "apply_change base c (int i, res) =
    (int (nat (oldEnd c)), res @ take (nat (oldStart c) - i) (drop i base) @ newLines c)"
    using Cons.prems by (intro apply_change_ordered) (auto simp: ordered_def)
  moreover have "nat (oldEnd c) \<le> length base" using Cons.prems by (auto simp: ordered_def)
  ultimately show ?case
    using Cons.IH [OF ord, of "res @ take (nat (oldStart c) - i) (drop i base) @ newLines c"]
      edited_from_Cons [OF Cons.prems(1), of i] Cons.prems(2) by simp
qed

subsection \<open>The changes of a difference\<close>

text \<open>
  \<open>midway A st k R\<close>: replaying the changes found so far, the pending one included, turns the first
  \<open>k\<close> lines of \<open>A\<close> into \<open>R\<close>. \<open>replayed\<close> is the same at the end of a hunk.
\<close>

definition midway :: "string list \<Rightarrow> change_state \<Rightarrow> nat \<Rightarrow> string list \<Rightarrow> bool" where
  "midway A st k R \<longleftrightarrow> (\<exists>i res. fold (apply_change A) (changes st) (0, []) = (int i, res) \<and>
     int i \<le> changeStart st \<and> 0 \<le> deleted st \<and> changeStart st + deleted st = int k \<and>
     res @ take (nat (changeStart st) - i) (drop i A) @ inserted st = R \<and> ordered A (changes st) \<and>
     (\<forall>c \<in> set (changes st). oldStart c < changeStart st \<and> oldEnd c \<le> changeStart st))"

definition replayed :: "string list \<Rightarrow> change list \<Rightarrow> nat \<Rightarrow> string list \<Rightarrow> bool" where
  "replayed A cs k R \<longleftrightarrow> (\<exists>i res. fold (apply_change A) cs (0, []) = (int i, res) \<and> i \<le> k \<and>
     res @ take (k - i) (drop i A) = R \<and> ordered A cs \<and> (\<forall>c \<in> set cs. oldEnd c \<le> int k))"

lemma ordered_snoc:
  "ordered A (cs @ [c]) \<longleftrightarrow> ordered A cs \<and> (\<forall>d \<in> set cs. before d c) \<and>
     0 \<le> oldStart c \<and> oldStart c \<le> oldEnd c \<and> oldEnd c \<le> int (length A)"
  by (auto simp: ordered_def sorted_wrt_append)

lemma flush_pending:
  assumes "midway A st k R" "k \<le> length A" "deleted st > 0 \<or> inserted st \<noteq> []"
  shows "fold (apply_change A) (changes (flush st)) (0, []) = (int k, R) \<and> ordered A (changes (flush st)) \<and>
    (\<forall>c \<in> set (changes (flush st)). oldStart c \<le> int k \<and> oldEnd c \<le> int k)"
proof -
  obtain i res where m: "fold (apply_change A) (changes st) (0, []) = (int i, res)"
    "int i \<le> changeStart st" "0 \<le> deleted st" "changeStart st + deleted st = int k"
    "res @ take (nat (changeStart st) - i) (drop i A) @ inserted st = R" "ordered A (changes st)"
    "\<forall>c \<in> set (changes st). oldStart c < changeStart st \<and> oldEnd c \<le> changeStart st"
    using assms(1) by (auto simp: midway_def)
  let ?c = "\<lparr>oldStart = changeStart st, oldEnd = changeStart st + deleted st, newLines = inserted st, source = ''''\<rparr>"
  have f: "changes (flush st) = changes st @ [?c]" using assms(3) by (simp add: flush_def)
  have "apply_change A ?c (int i, res) = (int k, R)"
    using m assms(2) by (subst apply_change_ordered) auto
  with f m assms(2) show ?thesis by (auto simp: ordered_snoc before_def)
qed

lemma flush_idle: "\<not> (deleted st > 0 \<or> inserted st \<noteq> []) \<Longrightarrow> flush st = st"
  by (simp add: flush_def)

lemma midway_line:
  assumes "midway A st k R" "drop k A = old_part (l # ls) @ r" "numbered (int k) (l # ls)"
  shows "midway A (change_line l st) (k + length (old_part [l])) (R @ new_part [l])"
proof (cases "lineType l")
  case LineEqual
  then have A: "drop k A = Content l # old_part ls @ r" using assms(2) by simp
  then have k: "k < length A" by (cases "k < length A") auto
  have kA: "drop k A ! 0 = Content l" "A ! k = Content l" using A k by (simp_all add: Cons_nth_drop_Suc [symmetric])
  have no: "OldLineNo l = int k + 1" using assms(3) LineEqual by simp
  show ?thesis
  proof (cases "deleted st > 0 \<or> inserted st \<noteq> []")
    case True
    have "deleted (flush st) = 0" "inserted (flush st) = []" using True by (simp_all add: flush_def)
    moreover have "take 1 (drop k A) = [Content l]" using A by simp
    ultimately show ?thesis
      using flush_pending [OF assms(1) _ True] k no LineEqual
      by (fastforce simp: midway_def change_line_def nat_add_distrib)
  next
    case False
    obtain i res where m: "fold (apply_change A) (changes st) (0, []) = (int i, res)" "i \<le> k" "changeStart st = int k"
      "deleted st = 0" "inserted st = []"
      "res @ take (k - i) (drop i A) = R" "ordered A (changes st)"
      "\<forall>c \<in> set (changes st). oldStart c < changeStart st \<and> oldEnd c \<le> changeStart st"
      using assms(1) False by (auto simp: midway_def)
    have "take (Suc k - i) (drop i A) = take (k - i) (drop i A) @ [Content l]"
      using m(2) k kA(2) by (simp add: take_Suc_conv_app_nth Suc_diff_le)
    with m no LineEqual show ?thesis
      by (auto simp: midway_def change_line_def flush_idle [OF False] nat_add_distrib intro!: exI [of _ i] exI [of _ res])
  qed
qed (use assms in \<open>fastforce simp: midway_def change_line_def\<close>)+

lemma midway_lines:
  "midway A st k R \<Longrightarrow> drop k A = old_part ls @ r \<Longrightarrow> numbered (int k) ls \<Longrightarrow>
   midway A (fold change_line ls st) (k + length (old_part ls)) (R @ new_part ls)"
proof (induction ls arbitrary: st k R)
  case (Cons l ls)
  have "midway A (change_line l st) (k + length (old_part [l])) (R @ new_part [l])"
    using midway_line [OF Cons.prems(1-3)] .
  moreover have "drop (k + length (old_part [l])) A = old_part ls @ r"
    using Cons.prems(2) by (cases "lineType l") (simp_all add: drop_Suc tl_drop [symmetric] drop_drop [symmetric] del: drop_drop)
  moreover have "numbered (int (k + length (old_part [l]))) ls"
    using Cons.prems(3) by (cases "lineType l") (simp_all add: add.commute)
  ultimately show ?case using Cons.IH by (cases "lineType l") fastforce+
qed simp

lemma flush_replayed:
  assumes "midway A st k R" "k \<le> length A"
  shows "replayed A (changes (flush st)) k R"
proof (cases "deleted st > 0 \<or> inserted st \<noteq> []")
  case True
  with flush_pending [OF assms True] show ?thesis by (auto simp: replayed_def)
next
  case False
  with assms show ?thesis unfolding flush_idle [OF False] by (fastforce simp: replayed_def midway_def)
qed

lemma midway_start:
  assumes "replayed A cs i res" "\<forall>c \<in> set cs. oldStart c < int s" "i \<le> s"
  shows "midway A \<lparr>changes = cs, deleted = 0, inserted = [], changeStart = int s\<rparr> s (res @ take (s - i) (drop i A))"
proof -
  obtain i' res' where r: "fold (apply_change A) cs (0, []) = (int i', res')" "i' \<le> i"
    "res' @ take (i - i') (drop i' A) = res" "ordered A cs" "\<forall>c \<in> set cs. oldEnd c \<le> int i"
    using assms(1) by (auto simp: replayed_def)
  have "take (s - i') (drop i' A) = take (i - i') (drop i' A) @ take (s - i) (drop i A)"
    using take_add [of "i - i'" "s - i" "drop i' A"] r(2) assms(3) by simp
  with r assms(2,3) show ?thesis by (fastforce simp: midway_def)
qed

lemma hunk_changes_replayed:
  assumes "replayed A cs i res" "\<forall>c \<in> set cs. oldStart c < int s" "OldStart h = int s + 1" "i \<le> s" "s \<le> length A"
    and "drop s A = old_part (Lines h) @ r" "numbered (OldStart h - 1) (Lines h)"
  shows "replayed A (hunk_changes h cs) (s + length (old_part (Lines h))) (res @ take (s - i) (drop i A) @ new_part (Lines h)) \<and>
    (ends_equal h \<longrightarrow> (\<forall>c \<in> set (hunk_changes h cs). oldStart c < int (s + length (old_part (Lines h)))))"
proof -
  let ?st0 = "\<lparr>changes = cs, deleted = 0, inserted = [], changeStart = int s\<rparr>"
  let ?st = "fold change_line (Lines h) ?st0" and ?k = "s + length (old_part (Lines h))"
  have h: "hunk_changes h cs = changes (flush ?st)" using assms(3) by (simp add: hunk_changes_def)
  have mid: "midway A ?st ?k (res @ take (s - i) (drop i A) @ new_part (Lines h))"
    using midway_lines [OF midway_start [OF assms(1,2,4)] assms(6)] assms(3,7) by simp
  have "?k \<le> length A" using arg_cong [OF assms(6), of length] assms(5) by simp
  then have "replayed A (hunk_changes h cs) ?k (res @ take (s - i) (drop i A) @ new_part (Lines h))"
    using flush_replayed [OF mid] h by simp
  moreover have "oldStart c < int ?k" if e: "ends_equal h" and c: "c \<in> set (hunk_changes h cs)" for c
  proof -
    obtain ls l where "Lines h = ls @ [l]" "lineType l = LineEqual"
      using e append_butlast_last_id [of "Lines h"] unfolding ends_equal_def by metis
    then have idle: "\<not> (deleted ?st > 0 \<or> inserted ?st \<noteq> [])"
      by (simp add: change_line_def flush_def)
    with mid c h flush_idle [OF idle] show ?thesis by (auto simp: midway_def)
  qed
  ultimately show ?thesis by blast
qed

lemma diffToChanges_replayed:
  assumes "applies A hs i res" "\<forall>h \<in> set hs. hunk_from A B h" "\<forall>h \<in> set (butlast hs). ends_equal h"
  shows "replayed A (diffToChanges hs) i res \<and>
    ((\<forall>h \<in> set hs. ends_equal h) \<longrightarrow> (\<forall>c \<in> set (diffToChanges hs). oldStart c < int i))"
  using assms
proof (induction rule: applies.induct)
  case applies_Nil
  then show ?case by (simp add: diffToChanges_def replayed_def ordered_def)
next
  case (applies_snoc hs i res h s r)
  have eq: "\<forall>h \<in> set hs. ends_equal h" "\<forall>h \<in> set (butlast hs). ends_equal h"
    using applies_snoc.prems(2) by (auto dest: in_set_butlastD)
  then have "replayed A (diffToChanges hs) i res" "\<forall>c \<in> set (diffToChanges hs). oldStart c < int i"
    using applies_snoc.IH applies_snoc.prems(1) by auto
  moreover have "diffToChanges (hs @ [h]) = hunk_changes h (diffToChanges hs)" by (simp add: diffToChanges_def)
  ultimately show ?case
    using hunk_changes_replayed [of A "diffToChanges hs" i res s h r] applies_snoc.hyps applies_snoc.prems(1)
    by (force simp: hunk_from_def)
qed

lemma Diff_returns: "\<not> (a = [] \<and> b = []) \<Longrightarrow> \<exists>hs. Diff a b = Some (Inr hs)"
  using myersDiff_spec [of "splitLines a" "splitLines b"] by (auto simp: Diff_def Let_def)

text \<open>The changes read off a difference are in order, and they describe the new text.\<close>

lemma Diff_changes:
  assumes "Diff baseText newText = Some (Inr hs)"
  shows "ordered (splitLines baseText) (diffToChanges hs)"
    "edited (splitLines baseText) (diffToChanges hs) = splitLines newText"
proof -
  let ?A = "splitLines baseText" and ?B = "splitLines newText"
  obtain ses where ses: "myersDiff ?A ?B = Some ses" "old_of ses = ?A" "new_of ses = ?B"
    using myersDiff_spec [of ?A ?B] by blast
  have hs: "hs = buildHunks ses ?A ?B" using assms ses(1) by (simp add: Diff_def Let_def split: if_splits)
  obtain i res where app: "applies ?A hs i res" "res @ drop i ?A = ?B"
    using buildHunks_apply [OF ses(2), of ?B] ses(3) hs by auto
  have "replayed ?A (diffToChanges hs) i res"
    using diffToChanges_replayed [OF app(1)] buildHunks_from [OF ses(2,3)] hs by simp
  then obtain j res' where j: "fold (apply_change ?A) (diffToChanges hs) (0, []) = (int j, res')" "j \<le> i"
    "res' @ take (i - j) (drop j ?A) = res" and ord: "ordered ?A (diffToChanges hs)"
    by (auto simp: replayed_def)
  show "ordered ?A (diffToChanges hs)" by (rule ord)
  have "take (i - j) (drop j ?A) @ drop i ?A = drop j ?A"
    using append_take_drop_id [of "i - j" "drop j ?A"] j(2) by simp
  then have "res' @ drop j ?A = ?B" using j(3) app(2) by (metis append.assoc)
  then show "edited ?A (diffToChanges hs) = ?B"
    using fold_apply_change [OF ord, of 0 "[]"] j(1) ord by (auto simp: edited_def ordered_def)
qed

subsection \<open>The exchange sort\<close>

lemma mset_exchange: "i < length xs \<Longrightarrow> j < length xs \<Longrightarrow> mset (exchange i j xs) = mset xs"
  by (simp add: exchange_def mset_swap)

lemma length_exchange [simp]: "length (exchange i j xs) = length xs"
  by (simp add: exchange_def)

lemma exchange_nth:
  assumes "i < length xs" "j < length xs" "i \<noteq> j"
  shows "exchange i j xs ! k =
    (if oldStart (xs ! i) > oldStart (xs ! j) then if k = i then xs ! j else if k = j then xs ! i else xs ! k else xs ! k)"
  using assms by (auto simp: exchange_def nth_list_update)

text \<open>One pass: the least of the rest comes to position \<open>i\<close>, the positions before \<open>i\<close> stay.\<close>

lemma exchange_pass:
  assumes "i < m" "m \<le> length xs"
  defines "ys \<equiv> fold (exchange i) [Suc i..<m] xs"
  shows "length ys = length xs" "mset ys = mset xs" "\<forall>k<i. ys ! k = xs ! k"
    "\<forall>k. i \<le> k \<longrightarrow> k < m \<longrightarrow> oldStart (ys ! i) \<le> oldStart (ys ! k)"
    "\<forall>k. m \<le> k \<longrightarrow> k < length xs \<longrightarrow> ys ! k = xs ! k"
proof -
  have "length ys = length xs \<and> mset ys = mset xs \<and> (\<forall>k<i. ys ! k = xs ! k) \<and>
    (\<forall>k. i \<le> k \<longrightarrow> k < m \<longrightarrow> oldStart (ys ! i) \<le> oldStart (ys ! k)) \<and>
    (\<forall>k. m \<le> k \<longrightarrow> k < length xs \<longrightarrow> ys ! k = xs ! k)"
    unfolding ys_def using assms(1,2)
  proof (induction m)
    case (Suc m)
    show ?case
    proof (cases "i = m")
      case True
      then show ?thesis by (auto simp: less_Suc_eq_le dest: le_antisym)
    next
      case False
      define zs where "zs = fold (exchange i) [Suc i..<m] xs"
      have IH: "length zs = length xs" "mset zs = mset xs" "\<forall>k<i. zs ! k = xs ! k"
        "\<forall>k. i \<le> k \<longrightarrow> k < m \<longrightarrow> oldStart (zs ! i) \<le> oldStart (zs ! k)"
        "\<forall>k. m \<le> k \<longrightarrow> k < length xs \<longrightarrow> zs ! k = xs ! k"
        using Suc False by (auto simp: zs_def)
      have "fold (exchange i) [Suc i..<Suc m] xs = exchange i m zs"
        using Suc.prems False by (simp add: zs_def)
      moreover have "mset (exchange i m zs) = mset xs" "length (exchange i m zs) = length xs"
        using mset_exchange [of i zs m] IH(1,2) Suc.prems by simp_all
      moreover have "exchange i m zs ! k = (if oldStart (zs ! i) > oldStart (zs ! m) then if k = i then zs ! m else if k = m then zs ! i else zs ! k else zs ! k)" for k
        using Suc.prems False IH(1) by (intro exchange_nth) auto
      ultimately show ?thesis using IH Suc.prems False by (auto simp: less_Suc_eq not_less le_less_trans)
    qed
  qed simp
  then show "length ys = length xs" "mset ys = mset xs" "\<forall>k<i. ys ! k = xs ! k"
    "\<forall>k. i \<le> k \<longrightarrow> k < m \<longrightarrow> oldStart (ys ! i) \<le> oldStart (ys ! k)"
    "\<forall>k. m \<le> k \<longrightarrow> k < length xs \<longrightarrow> ys ! k = xs ! k" by blast+
qed

lemma exchange_sort_prefix:
  assumes "n \<le> length xs"
  defines "ys \<equiv> fold (\<lambda>i. fold (exchange i) [Suc i..<length xs]) [0..<n] xs"
  shows "length ys = length xs \<and> mset ys = mset xs \<and>
    (\<forall>k l. k < n \<longrightarrow> k < l \<longrightarrow> l < length xs \<longrightarrow> oldStart (ys ! k) \<le> oldStart (ys ! l))"
  unfolding ys_def using assms(1)
proof (induction n)
  case (Suc n)
  define zs where "zs = fold (\<lambda>i. fold (exchange i) [Suc i..<length xs]) [0..<n] xs"
  have IH: "length zs = length xs" "mset zs = mset xs"
    "\<And>k l. k < n \<Longrightarrow> k < l \<Longrightarrow> l < length xs \<Longrightarrow> oldStart (zs ! k) \<le> oldStart (zs ! l)"
    using Suc by (auto simp: zs_def)
  define ws where "ws = fold (exchange n) [Suc n..<length xs] zs"
  have P: "length ws = length zs" "mset ws = mset zs" "\<forall>k<n. ws ! k = zs ! k"
    "\<forall>k. n \<le> k \<longrightarrow> k < length xs \<longrightarrow> oldStart (ws ! n) \<le> oldStart (ws ! k)"
    unfolding ws_def using exchange_pass [of n "length xs" zs] Suc.prems IH(1) by simp_all
  have "take n ws = take n zs" using P(1,3) by (intro nth_equalityI) auto
  then have "mset (drop n ws) = mset (drop n zs)"
    using P(2) append_take_drop_id [of n ws] append_take_drop_id [of n zs]
    by (metis add_left_cancel mset_append)
  then have rest: "set (drop n ws) = set (drop n zs)" by (metis set_mset_mset)
  have "oldStart (ws ! k) \<le> oldStart (ws ! l)" if k: "k < n" and l: "k < l" "l < length xs" for k l
  proof (cases "l < n")
    case True
    with k l P(3) IH(3) [OF k l] show ?thesis by simp
  next
    case False
    then have "ws ! l \<in> set (drop n ws)" using l P(1) IH(1) by (auto simp: in_set_conv_nth intro!: exI [of _ "l - n"])
    then obtain m where "zs ! (n + m) = ws ! l" "n + m < length zs"
      unfolding rest by (auto simp: in_set_conv_nth less_diff_conv add.commute)
    with k P(3) IH(1) IH(3) [of k "n + m"] show ?thesis by simp
  qed
  moreover have "fold (\<lambda>i. fold (exchange i) [Suc i..<length xs]) [0..<Suc n] xs = ws"
    by (simp add: ws_def zs_def)
  ultimately show ?case using P(1,2,4) IH(1,2) by (auto simp: less_Suc_eq)
qed simp

lemma exchange_sort_sorts: "mset (exchange_sort xs) = mset xs \<and> sorted (map oldStart (exchange_sort xs))"
  using exchange_sort_prefix [of "length xs" xs] by (auto simp: exchange_sort_def sorted_iff_nth_mono_less)

lemma dedup_loop_distinct:
  "distinct (map oldStart cs) \<Longrightarrow> oldStart ` set cs \<inter> set seen = {} \<Longrightarrow> dedup_loop cs seen res = res @ cs"
  by (induction cs arbitrary: seen res) auto

subsection \<open>Merging without overlap\<close>

definition apart :: "change list \<Rightarrow> change list \<Rightarrow> bool" where
  "apart oc tc \<longleftrightarrow> (\<forall>a \<in> set oc. \<forall>b \<in> set tc. \<not> rangesOverlap (oldStart a) (oldEnd a) (oldStart b) (oldEnd b))"

lemma ordered_starts: "ordered A cs \<Longrightarrow> distinct (map oldStart cs)"
  unfolding ordered_def by (induction cs) (auto simp: before_def)

lemma ordered_before: "ordered A cs \<Longrightarrow> a \<in> set cs \<Longrightarrow> b \<in> set cs \<Longrightarrow> oldStart a < oldStart b \<Longrightarrow> oldEnd a \<le> oldStart b"
  unfolding ordered_def by (induction cs) (auto simp: before_def)

lemma mergeChanges_apart:
  assumes "ordered A oc" "ordered A tc" "apart oc tc"
  shows "mset (mergeChanges oc tc) = mset (oc @ tc)" "ordered A (mergeChanges oc tc)"
proof -
  let ?ys = "exchange_sort (oc @ tc)"
  have srt: "mset ?ys = mset (oc @ tc)" "sorted (map oldStart ?ys)" using exchange_sort_sorts by blast+
  have "distinct (map oldStart (oc @ tc))"
    using ordered_starts [OF assms(1)] ordered_starts [OF assms(2)] assms(3)
    by (auto simp: apart_def rangesOverlap_def)
  then have dist: "distinct (map oldStart ?ys)"
    using srt(1) by (metis mset_eq_imp_distinct_iff mset_map)
  then have m: "mergeChanges oc tc = ?ys"
    by (simp add: mergeChanges_def deduplicateChanges_def dedup_loop_distinct)
  have "set ?ys = set oc \<union> set tc" using srt(1) by (metis set_append set_mset_mset)
  moreover have "oldEnd a \<le> oldStart b"
    if ab: "a \<in> set oc \<union> set tc" "b \<in> set oc \<union> set tc" "oldStart a < oldStart b" for a b
  proof -
    have "oldStart b \<le> oldEnd b" using ab(2) assms(1,2) by (auto simp: ordered_def)
    then show ?thesis
      using ab assms(3) ordered_before [OF assms(1)] ordered_before [OF assms(2)]
      by (fastforce simp: apart_def rangesOverlap_def)
  qed
  moreover have "sorted_wrt (<) (map oldStart ?ys)" using srt(2) dist by (simp add: strict_sorted_iff)
  ultimately have "sorted_wrt before ?ys"
    by (auto simp: sorted_wrt_map before_def intro: sorted_wrt_mono_rel [rotated])
  with assms(1,2) \<open>set ?ys = _\<close> m show "ordered A (mergeChanges oc tc)" by (auto simp: ordered_def)
  show "mset (mergeChanges oc tc) = mset (oc @ tc)" using m srt(1) by simp
qed

lemma content_at_mset:
  assumes "mset cs = mset ds" "distinct (map oldStart cs)"
  shows "content_at i cs = content_at i ds"
proof -
  have "distinct (map oldStart ds)" "set cs = set ds"
    using assms by (metis mset_eq_imp_distinct_iff mset_map, metis set_mset_mset)
  moreover have "content_at (oldStart c) es = newLines c" if "c \<in> set es" "distinct (map oldStart es)" for c es
    using that by (induction es) (auto simp: content_at_Cons)
  ultimately show ?thesis
    using assms(2) content_at_Nil [of cs i] content_at_Nil [of ds i] by metis
qed

lemma edited_mset:
  assumes "mset cs = mset ds" "distinct (map oldStart cs)"
  shows "edited A cs = edited A ds"
proof -
  have "removed cs i = removed ds i" for i using assms(1) by (metis removed_def set_mset_mset)
  then show ?thesis unfolding edited_def using content_at_mset [OF assms] by (intro edited_from_cong) auto
qed

lemma sameContent_eq: "sameContent a b \<longleftrightarrow> a = b"
  by (auto simp: sameContent_def list.rel_eq)

lemma detectConflicts_Nil:
  "detectConflicts oc tc = [] \<longleftrightarrow>
     (\<forall>a \<in> set oc. \<forall>b \<in> set tc. rangesOverlap (oldStart a) (oldEnd a) (oldStart b) (oldEnd b) \<longrightarrow> newLines a = newLines b)"
  by (fastforce simp: detectConflicts_def sameContent_eq)

lemma applyBothChanges_apart:
  assumes "ordered A oc" "ordered A tc" "apart oc tc"
  shows "applyBothChanges A oc tc = Join (edited A (oc @ tc))"
proof -
  note m = mergeChanges_apart [OF assms]
  have "edited A (mergeChanges oc tc) = edited A (oc @ tc)"
    using edited_mset [OF m(1) ordered_starts [OF m(2)]] .
  then show ?thesis
    using fold_apply_change [OF m(2), of 0 "[]"] m(2) by (auto simp: applyBothChanges_def edited_def ordered_def)
qed

subsection \<open>Properties\<close>

text \<open>
  C28. For three different texts \<open>ThreeWayMerge\<close> returns a result, never an error. The changes it works
  with turn the base into the one side and the other. It reports conflicts exactly when a change of ours
  and a change of theirs overlap and insert different lines; and when no two changes of the two sides
  overlap, the merged text is the base with the changes of both sides: every line that one side removed
  is gone, every line that one side inserted is there, at its place, and the other lines are kept (the
  lines are joined without a final newline).
\<close>

theorem three_way_merge:
  assumes "baseText \<noteq> oursText" "baseText \<noteq> theirsText" "oursText \<noteq> theirsText"
  shows "\<exists>ho ht res. Diff baseText oursText = Some (Inr ho) \<and> Diff baseText theirsText = Some (Inr ht) \<and>
    ThreeWayMerge baseText oursText theirsText = Some (Inr res) \<and>
    edited (splitLines baseText) (diffToChanges ho) = splitLines oursText \<and>
    edited (splitLines baseText) (diffToChanges ht) = splitLines theirsText \<and>
    (HasConflicts res \<longleftrightarrow> (\<exists>a \<in> set (diffToChanges ho). \<exists>b \<in> set (diffToChanges ht).
       rangesOverlap (oldStart a) (oldEnd a) (oldStart b) (oldEnd b) \<and> newLines a \<noteq> newLines b)) \<and>
    (apart (diffToChanges ho) (diffToChanges ht) \<longrightarrow> \<not> HasConflicts res \<and>
       mergedText res = Join (edited (splitLines baseText) (diffToChanges ho @ diffToChanges ht)))"
proof -
  have "\<not> (baseText = [] \<and> oursText = [])" "\<not> (baseText = [] \<and> theirsText = [])" using assms by auto
  then obtain ho ht where d: "Diff baseText oursText = Some (Inr ho)" "Diff baseText theirsText = Some (Inr ht)"
    using Diff_returns [of baseText oursText] Diff_returns [of baseText theirsText] by auto
  note oc = Diff_changes [OF d(1)] and tc = Diff_changes [OF d(2)]
  have clean: "detectConflicts (diffToChanges ho) (diffToChanges ht) = []" if "apart (diffToChanges ho) (diffToChanges ht)"
    using that by (auto simp: detectConflicts_Nil apart_def)
  let ?cs = "detectConflicts (diffToChanges ho) (diffToChanges ht)"
  let ?res = "if ?cs \<noteq> []
      then \<lparr>mergedText = mergeWithConflictMarkers (splitLines baseText) (splitLines oursText) (splitLines theirsText)
             (diffToChanges ho) (diffToChanges ht) ?cs, HasConflicts = True, mergeConflicts = ?cs\<rparr>
      else \<lparr>mergedText = applyBothChanges (splitLines baseText) (diffToChanges ho) (diffToChanges ht),
            HasConflicts = False, mergeConflicts = []\<rparr>"
  have "ThreeWayMerge baseText oursText theirsText = Some (Inr ?res)"
    using assms d by (simp add: ThreeWayMerge_def Let_def)
  moreover have "HasConflicts ?res \<longleftrightarrow> ?cs \<noteq> []" by simp
  then have "HasConflicts ?res \<longleftrightarrow> (\<exists>a \<in> set (diffToChanges ho). \<exists>b \<in> set (diffToChanges ht).
      rangesOverlap (oldStart a) (oldEnd a) (oldStart b) (oldEnd b) \<and> newLines a \<noteq> newLines b)"
    unfolding detectConflicts_Nil by blast
  moreover have "\<not> HasConflicts ?res \<and>
      mergedText ?res = Join (edited (splitLines baseText) (diffToChanges ho @ diffToChanges ht))"
    if "apart (diffToChanges ho) (diffToChanges ht)"
    using clean [OF that] applyBothChanges_apart [OF oc(1) tc(1) that] by simp
  ultimately show ?thesis using d oc(2) tc(2) by blast
qed

theorem three_way_merge_witness:
  "\<exists>ho ht. Diff [CHR ''a'', newline, CHR ''b'', newline, CHR ''c''] [CHR ''x'', newline, CHR ''b'', newline, CHR ''c''] = Some (Inr ho) \<and>
     Diff [CHR ''a'', newline, CHR ''b'', newline, CHR ''c''] [CHR ''a'', newline, CHR ''b'', newline, CHR ''y''] = Some (Inr ht) \<and>
     edited [''a'', ''b'', ''c''] (diffToChanges ho) = [''x'', ''b'', ''c''] \<and>
     edited [''a'', ''b'', ''c''] (diffToChanges ht) = [''a'', ''b'', ''y''] \<and>
     ThreeWayMerge [CHR ''a'', newline, CHR ''b'', newline, CHR ''c''] [CHR ''x'', newline, CHR ''b'', newline, CHR ''c'']
         [CHR ''a'', newline, CHR ''b'', newline, CHR ''y''] =
       Some (Inr \<lparr>mergedText = [CHR ''x'', newline, CHR ''b'', newline, CHR ''y''], HasConflicts = False, mergeConflicts = []\<rparr>)"
proof -
  have "ThreeWayMerge [CHR ''a'', newline, CHR ''b'', newline, CHR ''c''] [CHR ''x'', newline, CHR ''b'', newline, CHR ''c'']
      [CHR ''a'', newline, CHR ''b'', newline, CHR ''y''] =
    Some (Inr \<lparr>mergedText = [CHR ''x'', newline, CHR ''b'', newline, CHR ''y''], HasConflicts = False, mergeConflicts = []\<rparr>)"
    by code_simp
  moreover have "splitLines [CHR ''a'', newline, CHR ''b'', newline, CHR ''c''] = [''a'', ''b'', ''c'']"
    "splitLines [CHR ''x'', newline, CHR ''b'', newline, CHR ''c''] = [''x'', ''b'', ''c'']"
    "splitLines [CHR ''a'', newline, CHR ''b'', newline, CHR ''y''] = [''a'', ''b'', ''y'']"
    by code_simp+
  ultimately show ?thesis
    using three_way_merge [of "[CHR ''a'', newline, CHR ''b'', newline, CHR ''c'']"
        "[CHR ''x'', newline, CHR ''b'', newline, CHR ''c'']" "[CHR ''a'', newline, CHR ''b'', newline, CHR ''y'']"]
    by (auto simp: newline_def)
qed

text \<open>
  Where changes overlap, the code does less than it means to. Two different insertions at one place are
  reported as a conflict, but the marker text drops theirs and shows no marker; and overlapping changes
  with equal new lines are not a conflict and are both replayed, which doubles the lines.
\<close>

lemma insertion_conflict_has_no_marker:
  "ThreeWayMerge ''a'' [CHR ''x'', newline, CHR ''a''] [CHR ''y'', newline, CHR ''a''] =
     Some (Inr \<lparr>mergedText = [CHR ''x'', newline, CHR ''a''], HasConflicts = True,
       mergeConflicts = [\<lparr>StartLine = 1, EndLine = 0, Ours = [''x''], Theirs = [''y''], Base = []\<rparr>]\<rparr>)"
  by code_simp

lemma equal_overlap_doubles_lines:
  "ThreeWayMerge [CHR ''a'', newline, CHR ''b'', newline, CHR ''c''] [CHR ''x'']
       [CHR ''a'', newline, CHR ''x'', newline, CHR ''c''] =
     Some (Inr \<lparr>mergedText = [CHR ''x'', newline, CHR ''x''], HasConflicts = False, mergeConflicts = []\<rparr>)"
  by code_simp

end
