(* ===== verification/Raft.thy ===== *)
theory Raft
  imports Prelude
begin

section \<open>A Raft node (\<open>src/internal/raftlog/raftlog.go\<close>)\<close>

text \<open>
  The node of the Raft implementation: configurations, the log with its offset, elections, log
  replication, commitment, application to the state machine, snapshots and membership changes. Every
  handler runs under the node's mutex and is one function on the node's record. A goroutine that a
  handler starts with \<open>go n.sendHeartbeats()\<close> is counted in the field \<open>spawned\<close>; building its messages and
  handling their replies are functions of their own. The replicated state machine is a record of the
  methods of the interface \<open>StateMachine\<close>. Terms and indices are unbounded integers.

  The handlers are for a node that was started: \<open>Start\<close> creates the timers that \<open>becomeLeader\<close> stops
  and resets without a check, and it panics when the two election timeouts are equal.
\<close>

subsection \<open>Data\<close>

datatype raft_error =
    ErrNodeStopped | ErrNotLeader | ErrInvalidIndex | ErrLogCompacted | ErrSnapshotInstalling
  | ErrConfigChangeInFlight | ErrEmptyConfig | ErrNodeNotFound | ErrNodeExists | ErrTransportClosed
  | ErrApplyFailed string

definition DefaultElectionTimeoutMin :: int where "DefaultElectionTimeoutMin = 150000000"
definition DefaultElectionTimeoutMax :: int where "DefaultElectionTimeoutMax = 300000000"
definition DefaultHeartbeatInterval :: int where "DefaultHeartbeatInterval = 50000000"
definition DefaultSnapshotThreshold :: int where "DefaultSnapshotThreshold = 1000"
definition DefaultSnapshotChunkSize :: int where "DefaultSnapshotChunkSize = 64 * 1024"

datatype NodeState = Follower | Candidate | Leader

fun state_String :: "NodeState \<Rightarrow> string" where
  "state_String Follower = ''Follower''"
| "state_String Candidate = ''Candidate''"
| "state_String Leader = ''Leader''"

datatype LogEntryType = LogEntryNormal | LogEntryConfigJoint | LogEntryConfigNew

record LogEntry =
  Term :: int
  Index :: int
  entryType :: LogEntryType
  Command :: string

text \<open>A configuration is a map with the value \<open>true\<close> at every key.\<close>

record Configuration =
  Nodes :: "string fset"

definition NewConfiguration :: "string list \<Rightarrow> Configuration" where
  "NewConfiguration nodes = \<lparr>Nodes = fset_of_list nodes\<rparr>"

definition Contains :: "Configuration \<Rightarrow> string \<Rightarrow> bool" where
  "Contains c nodeID \<longleftrightarrow> nodeID |\<in>| Nodes c"

definition Size :: "Configuration \<Rightarrow> nat" where
  "Size c = fcard (Nodes c)"

definition Quorum :: "Configuration \<Rightarrow> nat" where
  "Quorum c = fcard (Nodes c) div 2 + 1"

text \<open>The order of a map iteration is not specified; the model takes the ascending one.\<close>

definition NodeIDs :: "Configuration \<Rightarrow> string list" where
  "NodeIDs c = sorted_list_of_fset (Nodes c)"

record JointConfiguration =
  Old :: Configuration
  New :: Configuration

definition joint_Contains :: "JointConfiguration \<Rightarrow> string \<Rightarrow> bool" where
  "joint_Contains jc nodeID \<longleftrightarrow> Contains (Old jc) nodeID \<or> Contains (New jc) nodeID"

definition OldQuorum :: "JointConfiguration \<Rightarrow> nat" where "OldQuorum jc = Quorum (Old jc)"
definition NewQuorum :: "JointConfiguration \<Rightarrow> nat" where "NewQuorum jc = Quorum (New jc)"

record Snapshot =
  snapIndex :: int
  snapTerm :: int
  snapConfig :: "Configuration option"
  snapData :: string

record RequestVoteRequest =
  rvTerm :: int
  CandidateID :: string
  LastLogIndex :: int
  LastLogTerm :: int
  IsConfig :: bool

record RequestVoteReply =
  rvrTerm :: int
  VoteGranted :: bool

record AppendEntriesRequest =
  aeTerm :: int
  aeLeaderID :: string
  PrevLogIndex :: int
  PrevLogTerm :: int
  Entries :: "LogEntry list"
  LeaderCommit :: int

record AppendEntriesReply =
  aerTerm :: int
  Success :: bool
  MatchIndex :: int
  ConflictTerm :: int
  ConflictIndex :: int

record InstallSnapshotRequest =
  isTerm :: int
  isLeaderID :: string
  LastIncludedIndex :: int
  LastIncludedTerm :: int
  isConfig :: "Configuration option"
  isData :: string
  Done :: bool

record InstallSnapshotReply =
  isrTerm :: int
  isrSuccess :: bool

text \<open>The interface \<open>StateMachine\<close>; an error is its text.\<close>

record 'sm StateMachine =
  smApply :: "LogEntry \<Rightarrow> 'sm \<Rightarrow> string option \<times> 'sm"
  smApplySnapshot :: "Snapshot \<Rightarrow> 'sm \<Rightarrow> string option \<times> 'sm"
  smSnapshot :: "'sm \<Rightarrow> (string, string) result"

record RaftConfig =
  ElectionTimeoutMin :: int
  ElectionTimeoutMax :: int
  HeartbeatInterval :: int
  SnapshotThreshold :: int
  SnapshotChunkSize :: int

definition DefaultRaftConfig :: RaftConfig where
  "DefaultRaftConfig =
     \<lparr>ElectionTimeoutMin = DefaultElectionTimeoutMin, ElectionTimeoutMax = DefaultElectionTimeoutMax,
      HeartbeatInterval = DefaultHeartbeatInterval, SnapshotThreshold = DefaultSnapshotThreshold,
      SnapshotChunkSize = DefaultSnapshotChunkSize\<rparr>"

record ApplyResult =
  arIndex :: int
  arTerm :: int
  arErr :: "raft_error option"

text \<open>A timer that was not created, one that was stopped, one that runs for a duration.\<close>

datatype timer = NilTimer | StoppedTimer | Armed int

record 'sm RaftNode =
  id :: string
  cfg :: RaftConfig
  state :: NodeState
  sm :: 'sm
  currentTerm :: int
  votedFor :: string
  log :: "LogEntry list"
  logOffset :: int
  commitIndex :: int
  lastApplied :: int
  nextIndex :: "(string, int) fmap"
  matchIndex :: "(string, int) fmap"
  votesReceived :: "string fset"
  leaderID :: string
  config :: Configuration
  joint :: "JointConfiguration option"
  configCommitted :: bool
  running :: bool
  stopped :: bool
  electionTimer :: timer
  heartbeatTimer :: timer
  commitReady :: bool
  applyCh :: "ApplyResult list"
  lastSnapshotIndex :: int
  lastSnapshotTerm :: int
  randState :: int
  configChangeInFlight :: bool
  snapshotInFlight :: int
  spawned :: nat

text \<open>Reading a Go map: the zero value where there is no key.\<close>

definition getz :: "('k, int) fmap \<Rightarrow> 'k \<Rightarrow> int" where
  "getz m k = (case fmlookup m k of None \<Rightarrow> 0 | Some v \<Rightarrow> v)"

subsection \<open>The log\<close>

definition lastLogIndex :: "'sm RaftNode \<Rightarrow> int" where
  "lastLogIndex n = (if log n = [] then logOffset n else Index (last (log n)))"

definition lastLogTerm :: "'sm RaftNode \<Rightarrow> int" where
  "lastLogTerm n = (if log n = [] then lastSnapshotTerm n else Term (last (log n)))"

definition getLogEntry :: "int \<Rightarrow> 'sm RaftNode \<Rightarrow> LogEntry option" where
  "getLogEntry index n =
     (if index < logOffset n then None
      else let idx = index - logOffset n
           in if idx < 0 \<or> idx \<ge> int (length (log n)) then None else Some (log n ! nat idx))"

definition GetLogEntry :: "int \<Rightarrow> 'sm RaftNode \<Rightarrow> (raft_error, LogEntry) result" where
  "GetLogEntry index n =
     (if index < logOffset n then Inl ErrLogCompacted
      else case getLogEntry index n of None \<Rightarrow> Inl ErrInvalidIndex | Some e \<Rightarrow> Inr e)"

definition appendEntry :: "LogEntry \<Rightarrow> 'sm RaftNode \<Rightarrow> 'sm RaftNode" where
  "appendEntry entry n = n\<lparr>log := log n @ [entry]\<rparr>"

definition truncateLog :: "int \<Rightarrow> 'sm RaftNode \<Rightarrow> 'sm RaftNode" where
  "truncateLog index n =
     (if index < logOffset n then n\<lparr>log := [], logOffset := index\<rparr>
      else let idx = index - logOffset n
           in if idx \<ge> 0 \<and> idx < int (length (log n)) then n\<lparr>log := take (nat idx) (log n)\<rparr> else n)"

subsection \<open>Creation and timers\<close>

definition NewRaftNode :: "string \<Rightarrow> RaftConfig \<Rightarrow> 'sm \<Rightarrow> string list \<Rightarrow> int \<Rightarrow> 'sm RaftNode" where
  "NewRaftNode i c s initialNodes now =
     appendEntry \<lparr>Term = 0, Index = 0, entryType = LogEntryNormal, Command = ''''\<rparr>
       \<lparr>id = i,
        cfg = \<lparr>ElectionTimeoutMin = (if ElectionTimeoutMin c \<le> 0 then DefaultElectionTimeoutMin else ElectionTimeoutMin c),
               ElectionTimeoutMax = (if ElectionTimeoutMax c \<le> 0 then DefaultElectionTimeoutMax else ElectionTimeoutMax c),
               HeartbeatInterval = (if HeartbeatInterval c \<le> 0 then DefaultHeartbeatInterval else HeartbeatInterval c),
               SnapshotThreshold = (if SnapshotThreshold c \<le> 0 then DefaultSnapshotThreshold else SnapshotThreshold c),
               SnapshotChunkSize = (if SnapshotChunkSize c \<le> 0 then DefaultSnapshotChunkSize else SnapshotChunkSize c)\<rparr>,
        state = Follower, sm = s, currentTerm = 0, votedFor = '''', log = [], logOffset = 0,
        commitIndex = 0, lastApplied = 0, nextIndex = fmempty, matchIndex = fmempty, votesReceived = {||},
        leaderID = '''', config = NewConfiguration initialNodes, joint = None, configCommitted = False,
        running = False, stopped = False, electionTimer = NilTimer, heartbeatTimer = NilTimer,
        commitReady = False, applyCh = [], lastSnapshotIndex = 0, lastSnapshotTerm = 0,
        randState = now + int (length i), configChangeInFlight = False, snapshotInFlight = 0, spawned = 0\<rparr>"

definition nextRand :: "'sm RaftNode \<Rightarrow> int \<times> 'sm RaftNode" where
  "nextRand n = (let r = (randState n * 1103515245 + 12345) mod 2 ^ 31 in (r, n\<lparr>randState := r\<rparr>))"

text \<open>The remainder of a nonnegative random number; the divisor must not be zero.\<close>

definition randomElectionTimeout :: "'sm RaftNode \<Rightarrow> int \<times> 'sm RaftNode" where
  "randomElectionTimeout n =
     (let (r, n1) = nextRand n;
          delta = r mod \<bar>ElectionTimeoutMax (cfg n) - ElectionTimeoutMin (cfg n)\<bar>
      in (ElectionTimeoutMin (cfg n) + delta, n1))"

definition resetElectionTimer :: "'sm RaftNode \<Rightarrow> 'sm RaftNode" where
  "resetElectionTimer n = (let (d, n1) = randomElectionTimeout n in n1\<lparr>electionTimer := Armed d\<rparr>)"

text \<open>\<^const>\<open>None\<close> is the panic of a division by zero; the goroutines are started by the caller.\<close>

definition Start :: "'sm RaftNode \<Rightarrow> 'sm RaftNode option" where
  "Start n =
     (if running n then Some n
      else if ElectionTimeoutMax (cfg n) = ElectionTimeoutMin (cfg n) then None
      else let (d, n1) = randomElectionTimeout (n\<lparr>running := True, stopped := False\<rparr>)
           in Some (n1\<lparr>electionTimer := Armed d, heartbeatTimer := StoppedTimer\<rparr>))"

definition stop_timer :: "timer \<Rightarrow> timer" where
  "stop_timer t = (if t = NilTimer then NilTimer else StoppedTimer)"

definition Stop :: "'sm RaftNode \<Rightarrow> 'sm RaftNode" where
  "Stop n =
     (if stopped n then n
      else n\<lparr>stopped := True, running := False, electionTimer := stop_timer (electionTimer n),
             heartbeatTimer := stop_timer (heartbeatTimer n)\<rparr>)"

subsection \<open>Changes of role\<close>

definition currentNodes :: "'sm RaftNode \<Rightarrow> string list" where
  "currentNodes n =
     (case joint n of
        Some jc \<Rightarrow> sorted_list_of_fset (Nodes (Old jc) |\<union>| Nodes (New jc))
      | None \<Rightarrow> NodeIDs (config n))"

definition becomeFollower :: "int \<Rightarrow> 'sm RaftNode \<Rightarrow> 'sm RaftNode" where
  "becomeFollower t n =
     resetElectionTimer (n\<lparr>state := Follower, currentTerm := t, votedFor := '''', leaderID := ''''\<rparr>)"

text \<open>The check for a newer term at the head of the three request handlers.\<close>

definition observe_term :: "int \<Rightarrow> 'sm RaftNode \<Rightarrow> 'sm RaftNode" where
  "observe_term t n = (if t > currentTerm n then becomeFollower t n else n)"

definition becomeLeader :: "'sm RaftNode \<Rightarrow> 'sm RaftNode" where
  "becomeLeader n =
     (let lastIdx = lastLogIndex n;
          others = filter (\<lambda>nodeID. nodeID \<noteq> id n) (currentNodes n)
      in n\<lparr>state := Leader, votedFor := '''', leaderID := id n,
           nextIndex := fold (\<lambda>nodeID. fmupd nodeID (lastIdx + 1)) others (nextIndex n),
           matchIndex := fold (\<lambda>nodeID. fmupd nodeID 0) others (matchIndex n),
           electionTimer := StoppedTimer, heartbeatTimer := Armed (HeartbeatInterval (cfg n))\<rparr>)"

definition win :: "'sm RaftNode \<Rightarrow> 'sm RaftNode" where
  "win n = (let n1 = becomeLeader n in n1\<lparr>spawned := spawned n1 + 1\<rparr>)"

definition checkElectionWin :: "'sm RaftNode \<Rightarrow> 'sm RaftNode" where
  "checkElectionWin n =
     (if state n \<noteq> Candidate then n
      else case joint n of
        Some jc \<Rightarrow>
          let oldVotes = fcard (ffilter (Contains (Old jc)) (votesReceived n));
              newVotes = fcard (ffilter (Contains (New jc)) (votesReceived n))
          in if oldVotes \<ge> OldQuorum jc \<and> newVotes \<ge> NewQuorum jc then win n else n
      | None \<Rightarrow> if fcard (votesReceived n) \<ge> Quorum (config n) then win n else n)"

definition becomeCandidate :: "'sm RaftNode \<Rightarrow> 'sm RaftNode" where
  "becomeCandidate n =
     checkElectionWin (resetElectionTimer
       (n\<lparr>state := Candidate, currentTerm := currentTerm n + 1, votedFor := id n,
          votesReceived := {|id n|}, leaderID := ''''\<rparr>))"

text \<open>The part of \<open>handleElectionTimeout\<close> under the mutex; \<open>startElection\<close> follows.\<close>

definition handleElectionTimeout :: "'sm RaftNode \<Rightarrow> 'sm RaftNode" where
  "handleElectionTimeout n = (if state n = Leader \<or> \<not> running n then n else becomeCandidate n)"

subsection \<open>Elections\<close>

definition startElection :: "'sm RaftNode \<Rightarrow> (string \<times> RequestVoteRequest) list" where
  "startElection n =
     map (\<lambda>target. (target, \<lparr>rvTerm = currentTerm n, CandidateID = id n, LastLogIndex = lastLogIndex n,
                             LastLogTerm = lastLogTerm n, IsConfig = False\<rparr>))
       (filter (\<lambda>nodeID. nodeID \<noteq> id n) (currentNodes n))"

definition isLogUpToDate :: "int \<Rightarrow> int \<Rightarrow> 'sm RaftNode \<Rightarrow> bool" where
  "isLogUpToDate otherIndex otherTerm n \<longleftrightarrow>
     otherTerm > lastLogTerm n \<or> otherTerm = lastLogTerm n \<and> otherIndex \<ge> lastLogIndex n"

definition HandleRequestVote :: "RequestVoteRequest \<Rightarrow> 'sm RaftNode \<Rightarrow> RequestVoteReply \<times> 'sm RaftNode" where
  "HandleRequestVote req n0 =
     (let n = observe_term (rvTerm req) n0
      in if rvTerm req < currentTerm n then (\<lparr>rvrTerm = currentTerm n, VoteGranted = False\<rparr>, n)
         else let canVote = (votedFor n = '''' \<or> votedFor n = CandidateID req);
                  logOk = isLogUpToDate (LastLogIndex req) (LastLogTerm req) n
              in if canVote \<and> logOk
                 then (\<lparr>rvrTerm = currentTerm n, VoteGranted = True\<rparr>,
                       resetElectionTimer (n\<lparr>votedFor := CandidateID req\<rparr>))
                 else (\<lparr>rvrTerm = currentTerm n, VoteGranted = False\<rparr>, n))"

definition handleRequestVoteReply :: "int \<Rightarrow> string \<Rightarrow> RequestVoteReply \<Rightarrow> 'sm RaftNode \<Rightarrow> 'sm RaftNode" where
  "handleRequestVoteReply originalTerm voterID reply n =
     (if state n \<noteq> Candidate then n
      else if rvrTerm reply > currentTerm n then becomeFollower (rvrTerm reply) n
      else if rvrTerm reply < originalTerm then n
      else checkElectionWin
             (if VoteGranted reply then n\<lparr>votesReceived := finsert voterID (votesReceived n)\<rparr> else n))"

subsection \<open>Log replication\<close>

definition notifyApply :: "'sm RaftNode \<Rightarrow> 'sm RaftNode" where
  "notifyApply n = n\<lparr>commitReady := True\<rparr>"

text \<open>
  \<open>sendHeartbeats\<close>: what the round captures at its beginning; what each goroutine prepares under the
  mutex for its target; the request with the snapshot data, read after the mutex is released; and
  the end of the round.
\<close>

definition sendHeartbeats_begin :: "'sm RaftNode \<Rightarrow> (int \<times> int \<times> string list) option" where
  "sendHeartbeats_begin n =
     (if state n \<noteq> Leader then None
      else Some (currentTerm n, commitIndex n, filter (\<lambda>nodeID. nodeID \<noteq> id n) (currentNodes n)))"

datatype heartbeat =
    SendSnapshot int int int Configuration
  | SendAppend AppendEntriesRequest

definition heartbeat_prepare :: "int \<Rightarrow> int \<Rightarrow> string \<Rightarrow> 'sm RaftNode \<Rightarrow> heartbeat \<times> 'sm RaftNode" where
  "heartbeat_prepare t commit target n =
     (let nextIdx = (if getz (nextIndex n) target = 0 then lastLogIndex n + 1 else getz (nextIndex n) target)
      in if nextIdx \<le> logOffset n
         then (SendSnapshot (currentTerm n) (lastSnapshotIndex n) (lastSnapshotTerm n) (config n),
               n\<lparr>snapshotInFlight := snapshotInFlight n + 1\<rparr>)
         else let prevLogIndex = nextIdx - 1;
                  prevLogTerm =
                    (if prevLogIndex \<ge> logOffset n
                     then (case getLogEntry prevLogIndex n of None \<Rightarrow> 0 | Some e \<Rightarrow> Term e)
                     else if prevLogIndex = logOffset n - 1 \<and> prevLogIndex = lastSnapshotIndex n
                     then lastSnapshotTerm n else 0);
                  start = nextIdx - logOffset n;
                  entries = (if nextIdx \<le> lastLogIndex n \<and> start \<ge> 0 \<and> start < int (length (log n))
                             then drop (nat start) (log n) else [])
              in (SendAppend \<lparr>aeTerm = t, aeLeaderID = id n, PrevLogIndex = prevLogIndex, PrevLogTerm = prevLogTerm,
                              Entries = entries, LeaderCommit = commit\<rparr>, n))"

definition snapshot_request ::
    "'sm StateMachine \<Rightarrow> int \<Rightarrow> int \<Rightarrow> int \<Rightarrow> Configuration \<Rightarrow> 'sm RaftNode \<Rightarrow> InstallSnapshotRequest option" where
  "snapshot_request M curTerm lastIdx lastTerm c n =
     (case smSnapshot M (sm n) of
        Inl err \<Rightarrow> None
      | Inr d \<Rightarrow> Some \<lparr>isTerm = curTerm, isLeaderID = id n, LastIncludedIndex = lastIdx,
                        LastIncludedTerm = lastTerm, isConfig = Some c, isData = d, Done = True\<rparr>)"

definition snapshot_returned :: "'sm RaftNode \<Rightarrow> 'sm RaftNode" where
  "snapshot_returned n = n\<lparr>snapshotInFlight := snapshotInFlight n - 1\<rparr>"

definition sendHeartbeats_end :: "'sm RaftNode \<Rightarrow> 'sm RaftNode" where
  "sendHeartbeats_end n =
     (if state n = Leader \<and> running n then n\<lparr>heartbeatTimer := Armed (HeartbeatInterval (cfg n))\<rparr> else n)"

definition handleHeartbeatTimeout :: "'sm RaftNode \<Rightarrow> bool" where
  "handleHeartbeatTimeout n \<longleftrightarrow> state n = Leader \<and> running n"

text \<open>The consistency check of \<open>HandleAppendEntries\<close>: the conflict term and index of a refusal.\<close>

definition check_prev :: "AppendEntriesRequest \<Rightarrow> 'sm RaftNode \<Rightarrow> (int \<times> int) option" where
  "check_prev req n =
     (if PrevLogIndex req = 0 then None
      else if PrevLogIndex req < logOffset n then
        (if PrevLogIndex req = lastSnapshotIndex n \<and> lastSnapshotTerm n = PrevLogTerm req then None
         else Some (lastSnapshotTerm n, logOffset n + 1))
      else if PrevLogIndex req > lastLogIndex n then Some (-1, lastLogIndex n + 1)
      else let prevEntry = getLogEntry (PrevLogIndex req) n
           in if map_option Term prevEntry = Some (PrevLogTerm req) then None
              else let ct = (case prevEntry of None \<Rightarrow> 0 | Some e \<Rightarrow> Term e);
                       ci = (case find (\<lambda>i. case getLogEntry i n of None \<Rightarrow> False | Some e \<Rightarrow> ct = 0 \<or> Term e \<noteq> ct)
                                    (rev [logOffset n..PrevLogIndex req - 1]) of None \<Rightarrow> 0 | Some i \<Rightarrow> i + 1)
                   in Some (ct, if ci = 0 then logOffset n + 1 else ci))"

fun append_loop :: "LogEntry list \<Rightarrow> int \<Rightarrow> 'sm RaftNode \<Rightarrow> 'sm RaftNode" where
  "append_loop [] insertIdx n = n"
| "append_loop (entry # es) insertIdx n =
     append_loop es (insertIdx + 1)
       (if insertIdx \<le> lastLogIndex n
        then case getLogEntry insertIdx n of
               None \<Rightarrow> n
             | Some existing \<Rightarrow>
                 if Term existing \<noteq> Term entry then appendEntry entry (truncateLog insertIdx n) else n
        else appendEntry entry n)"

definition heard_leader :: "AppendEntriesRequest \<Rightarrow> 'sm RaftNode \<Rightarrow> 'sm RaftNode" where
  "heard_leader req n =
     (resetElectionTimer (if state n = Candidate then becomeFollower (aeTerm req) n else n))\<lparr>leaderID := aeLeaderID req\<rparr>"

definition follow_commit :: "AppendEntriesRequest \<Rightarrow> 'sm RaftNode \<Rightarrow> 'sm RaftNode" where
  "follow_commit req n =
     (let lastNewEntry = PrevLogIndex req + int (length (Entries req))
      in if LeaderCommit req > commitIndex n
         then notifyApply (n\<lparr>commitIndex := (if LeaderCommit req < lastNewEntry then LeaderCommit req else lastNewEntry)\<rparr>)
         else n)"

definition HandleAppendEntries :: "AppendEntriesRequest \<Rightarrow> 'sm RaftNode \<Rightarrow> AppendEntriesReply \<times> 'sm RaftNode" where
  "HandleAppendEntries req n0 =
     (let n1 = observe_term (aeTerm req) n0
      in if aeTerm req < currentTerm n1
         then (\<lparr>aerTerm = currentTerm n1, Success = False, MatchIndex = 0, ConflictTerm = 0, ConflictIndex = 0\<rparr>, n1)
         else
           let n2 = heard_leader req n1
           in case check_prev req n2 of
                Some (ct, ci) \<Rightarrow>
                  (\<lparr>aerTerm = currentTerm n0, Success = False, MatchIndex = 0, ConflictTerm = ct, ConflictIndex = ci\<rparr>, n2)
              | None \<Rightarrow>
                  let n3 = follow_commit req (append_loop (Entries req) (PrevLogIndex req + 1) n2)
                  in (\<lparr>aerTerm = currentTerm n3, Success = True, MatchIndex = PrevLogIndex req + int (length (Entries req)),
                       ConflictTerm = 0, ConflictIndex = 0\<rparr>, n3))"

subsection \<open>Commitment\<close>

text \<open>One plus the other members of a configuration whose match index reaches \<open>i\<close>.\<close>

definition match_count :: "Configuration \<Rightarrow> int \<Rightarrow> 'sm RaftNode \<Rightarrow> nat" where
  "match_count c i n = 1 + fcard (ffilter (\<lambda>nodeID. nodeID \<noteq> id n \<and> getz (matchIndex n) nodeID \<ge> i) (Nodes c))"

definition joint_match :: "JointConfiguration \<Rightarrow> int \<Rightarrow> 'sm RaftNode \<Rightarrow> bool" where
  "joint_match jc i n \<longleftrightarrow> match_count (Old jc) i n \<ge> OldQuorum jc \<and> match_count (New jc) i n \<ge> NewQuorum jc"

definition commit_step :: "int \<Rightarrow> 'sm RaftNode \<Rightarrow> 'sm RaftNode" where
  "commit_step i n =
     (case getLogEntry i n of
        None \<Rightarrow> n
      | Some entry \<Rightarrow>
          if Term entry \<noteq> currentTerm n then n
          else case joint n of
                 Some jc \<Rightarrow>
                   if entryType entry = LogEntryConfigJoint \<or> entryType entry = LogEntryConfigNew then n
                   else if joint_match jc i n then notifyApply (n\<lparr>commitIndex := i\<rparr>) else n
               | None \<Rightarrow>
                   if match_count (config n) i n \<ge> Quorum (config n) then notifyApply (n\<lparr>commitIndex := i\<rparr>) else n)"

definition updateCommitIndex :: "'sm RaftNode \<Rightarrow> 'sm RaftNode" where
  "updateCommitIndex n =
     (if state n \<noteq> Leader then n else fold commit_step [commitIndex n + 1..lastLogIndex n] n)"

definition is_entry :: "LogEntryType \<Rightarrow> 'sm RaftNode \<Rightarrow> int \<Rightarrow> bool" where
  "is_entry ty n i \<longleftrightarrow> (case getLogEntry i n of None \<Rightarrow> False | Some e \<Rightarrow> entryType e = ty)"

definition checkConfigProgress :: "'sm RaftNode \<Rightarrow> 'sm RaftNode" where
  "checkConfigProgress n =
     (case joint n of
        None \<Rightarrow> n
      | Some jc \<Rightarrow>
          if state n \<noteq> Leader then n
          else
            let n1 = (case find (is_entry LogEntryConfigJoint n) [commitIndex n + 1..lastLogIndex n] of
                        None \<Rightarrow> n
                      | Some jointIndex \<Rightarrow>
                          if jointIndex > 0 \<and> joint_match jc jointIndex n
                          then let n' = (if jointIndex > commitIndex n then notifyApply (n\<lparr>commitIndex := jointIndex\<rparr>) else n)
                               in (appendEntry \<lparr>Term = currentTerm n', Index = lastLogIndex n' + 1,
                                      entryType = LogEntryConfigNew, Command = ''''\<rparr> n')\<lparr>spawned := spawned n' + 1\<rparr>
                          else n)
            in case find (is_entry LogEntryConfigNew n1) (rev [commitIndex n1 + 1..lastLogIndex n1]) of
                 None \<Rightarrow> n1
               | Some newConfigIndex \<Rightarrow>
                   if newConfigIndex > 0 \<and> joint_match jc newConfigIndex n1
                   then (if newConfigIndex > commitIndex n1 then notifyApply (n1\<lparr>commitIndex := newConfigIndex\<rparr>) else n1)
                          \<lparr>config := New jc, joint := None, configCommitted := True, configChangeInFlight := False\<rparr>
                   else n1)"

definition handleAppendEntriesReply :: "string \<Rightarrow> AppendEntriesReply \<Rightarrow> 'sm RaftNode \<Rightarrow> 'sm RaftNode" where
  "handleAppendEntriesReply target reply n =
     (if state n \<noteq> Leader then n
      else if aerTerm reply > currentTerm n then becomeFollower (aerTerm reply) n
      else if aerTerm reply < currentTerm n then n
      else if Success reply then
        checkConfigProgress (updateCommitIndex
          (n\<lparr>matchIndex := fmupd target (MatchIndex reply) (matchIndex n),
             nextIndex := fmupd target (MatchIndex reply + 1) (nextIndex n)\<rparr>))
      else
        let next = (if ConflictTerm reply < 0 then ConflictIndex reply
                    else case find (\<lambda>i. map_option Term (getLogEntry i n) = Some (ConflictTerm reply))
                                (rev [logOffset n..lastLogIndex n]) of
                           Some i \<Rightarrow> i + 1
                         | None \<Rightarrow> ConflictIndex reply)
        in n\<lparr>nextIndex := fmupd target (if next < 1 then 1 else next) (nextIndex n)\<rparr>)"

subsection \<open>Application to the state machine\<close>

definition apply_step :: "'sm StateMachine \<Rightarrow> int \<Rightarrow> 'sm RaftNode \<Rightarrow> 'sm RaftNode" where
  "apply_step M i n0 =
     (let n = n0\<lparr>lastApplied := i\<rparr>
      in case getLogEntry i n of
           None \<Rightarrow> n
         | Some entry \<Rightarrow>
             let (err, s) = (if entryType entry = LogEntryNormal then smApply M entry (sm n) else (None, sm n));
                 res = \<lparr>arIndex = Index entry, arTerm = Term entry, arErr = map_option ErrApplyFailed err\<rparr>
             in n\<lparr>sm := s, applyCh := (if length (applyCh n) < 256 then applyCh n @ [res] else applyCh n)\<rparr>)"

definition applyCommitted :: "'sm StateMachine \<Rightarrow> 'sm RaftNode \<Rightarrow> 'sm RaftNode" where
  "applyCommitted M n = fold (apply_step M) [lastApplied n + 1..commitIndex n] n"

text \<open>One round of \<open>applyLoop\<close>; the case \<open>commitReady\<close> of \<open>run\<close> receives and sends again.\<close>

definition applyLoop_round :: "'sm StateMachine \<Rightarrow> 'sm RaftNode \<Rightarrow> 'sm RaftNode" where
  "applyLoop_round M n =
     (if \<not> running n then n else if lastApplied n < commitIndex n then applyCommitted M n else n)"

definition Propose :: "string \<Rightarrow> 'sm RaftNode \<Rightarrow> (raft_error, int \<times> int) result \<times> 'sm RaftNode" where
  "Propose command n =
     (if snapshotInFlight n > 0 then (Inl ErrSnapshotInstalling, n)
      else if state n \<noteq> Leader then (Inl ErrNotLeader, n)
      else if \<not> running n then (Inl ErrNodeStopped, n)
      else if configChangeInFlight n then (Inl ErrConfigChangeInFlight, n)
      else let entry = \<lparr>Term = currentTerm n, Index = lastLogIndex n + 1, entryType = LogEntryNormal, Command = command\<rparr>
           in (Inr (Index entry, Term entry), (appendEntry entry n)\<lparr>spawned := spawned n + 1\<rparr>))"

subsection \<open>Snapshots\<close>

definition HandleInstallSnapshot ::
    "'sm StateMachine \<Rightarrow> InstallSnapshotRequest \<Rightarrow> 'sm RaftNode \<Rightarrow> InstallSnapshotReply \<times> 'sm RaftNode" where
  "HandleInstallSnapshot M req n0 =
     (let n = observe_term (isTerm req) n0
      in if isTerm req < currentTerm n then (\<lparr>isrTerm = currentTerm n, isrSuccess = False\<rparr>, n)
         else if LastIncludedIndex req \<le> lastSnapshotIndex n then (\<lparr>isrTerm = currentTerm n0, isrSuccess = True\<rparr>, n)
         else case smApplySnapshot M \<lparr>snapIndex = LastIncludedIndex req, snapTerm = LastIncludedTerm req,
                                      snapConfig = isConfig req, snapData = isData req\<rparr> (sm n) of
                (Some err, s) \<Rightarrow> (\<lparr>isrTerm = currentTerm n0, isrSuccess = False\<rparr>, n\<lparr>sm := s\<rparr>)
              | (None, s) \<Rightarrow>
                  (\<lparr>isrTerm = currentTerm n0, isrSuccess = True\<rparr>,
                   n\<lparr>sm := s, lastSnapshotIndex := LastIncludedIndex req, lastSnapshotTerm := LastIncludedTerm req,
                     logOffset := LastIncludedIndex req, log := [],
                     config := (case isConfig req of None \<Rightarrow> config n | Some c \<Rightarrow> c),
                     commitIndex := (if LastIncludedIndex req > commitIndex n then LastIncludedIndex req else commitIndex n),
                     lastApplied := (if LastIncludedIndex req > lastApplied n then LastIncludedIndex req else lastApplied n)\<rparr>))"

definition handleInstallSnapshotReply :: "string \<Rightarrow> InstallSnapshotReply \<Rightarrow> 'sm RaftNode \<Rightarrow> 'sm RaftNode" where
  "handleInstallSnapshotReply target reply n =
     (if state n \<noteq> Leader then n
      else if isrTerm reply > currentTerm n then becomeFollower (isrTerm reply) n
      else if isrTerm reply < currentTerm n then n
      else if isrSuccess reply then
        n\<lparr>matchIndex := fmupd target (lastSnapshotIndex n) (matchIndex n),
          nextIndex := fmupd target (lastSnapshotIndex n + 1) (nextIndex n)\<rparr>
      else n)"

definition CompactLog :: "int \<Rightarrow> 'sm RaftNode \<Rightarrow> raft_error option \<times> 'sm RaftNode" where
  "CompactLog index n =
     (if index > commitIndex n then (Some ErrInvalidIndex, n)
      else if index \<le> logOffset n then (None, n)
      else case getLogEntry index n of
             None \<Rightarrow> (Some ErrInvalidIndex, n)
           | Some entry \<Rightarrow>
               (None, n\<lparr>lastSnapshotIndex := index, lastSnapshotTerm := Term entry,
                        log := (if index - logOffset n < int (length (log n))
                                then drop (nat (index - logOffset n)) (log n) else []),
                        logOffset := index\<rparr>))"

subsection \<open>Membership\<close>

definition start_joint :: "Configuration \<Rightarrow> 'sm RaftNode \<Rightarrow> 'sm RaftNode" where
  "start_joint newConfig n =
     (appendEntry \<lparr>Term = currentTerm n, Index = lastLogIndex n + 1, entryType = LogEntryConfigJoint, Command = ''''\<rparr>
        (n\<lparr>joint := Some \<lparr>Old = config n, New = newConfig\<rparr>\<rparr>))
       \<lparr>configChangeInFlight := True, configCommitted := False, spawned := spawned n + 1\<rparr>"

definition AddNode :: "string \<Rightarrow> 'sm RaftNode \<Rightarrow> raft_error option \<times> 'sm RaftNode" where
  "AddNode nodeID n =
     (if state n \<noteq> Leader then (Some ErrNotLeader, n)
      else if configChangeInFlight n then (Some ErrConfigChangeInFlight, n)
      else if Contains (config n) nodeID then (Some ErrNodeExists, n)
      else (None, start_joint (NewConfiguration (NodeIDs (config n) @ [nodeID])) n))"

definition RemoveNode :: "string \<Rightarrow> 'sm RaftNode \<Rightarrow> raft_error option \<times> 'sm RaftNode" where
  "RemoveNode nodeID n =
     (if state n \<noteq> Leader then (Some ErrNotLeader, n)
      else if configChangeInFlight n then (Some ErrConfigChangeInFlight, n)
      else if \<not> Contains (config n) nodeID then (Some ErrNodeNotFound, n)
      else let newNodes = filter (\<lambda>i. i \<noteq> nodeID) (NodeIDs (config n))
           in if newNodes = [] then (Some ErrEmptyConfig, n)
              else (None, start_joint (NewConfiguration newNodes) n))"

subsection \<open>The log a follower keeps\<close>

text \<open>
  The rule of the Raft protocol for the entries after the point of agreement: keep what is there as long
  as the terms agree; from the first disagreement on, take the leader's entries.
\<close>

fun merge_entries :: "LogEntry list \<Rightarrow> LogEntry list \<Rightarrow> LogEntry list" where
  "merge_entries ys [] = ys"
| "merge_entries [] es = es"
| "merge_entries (y # ys) (e # es) = (if Term y \<noteq> Term e then e # es else y # merge_entries ys es)"

definition log_ok :: "'sm RaftNode \<Rightarrow> bool" where
  "log_ok n \<longleftrightarrow> log n \<noteq> [] \<and> (\<forall>k < length (log n). Index (log n ! k) = logOffset n + int k)"

definition consecutive :: "int \<Rightarrow> LogEntry list \<Rightarrow> bool" where
  "consecutive i es \<longleftrightarrow> (\<forall>k < length es. Index (es ! k) = i + int k)"

lemma resetElectionTimer_fields [simp]:
  "log (resetElectionTimer n) = log n" "logOffset (resetElectionTimer n) = logOffset n"
  "commitIndex (resetElectionTimer n) = commitIndex n" "currentTerm (resetElectionTimer n) = currentTerm n"
  "state (resetElectionTimer n) = state n" "votedFor (resetElectionTimer n) = votedFor n"
  "votesReceived (resetElectionTimer n) = votesReceived n" "id (resetElectionTimer n) = id n"
  "config (resetElectionTimer n) = config n" "joint (resetElectionTimer n) = joint n"
  "lastSnapshotIndex (resetElectionTimer n) = lastSnapshotIndex n" "lastApplied (resetElectionTimer n) = lastApplied n"
  "lastSnapshotTerm (resetElectionTimer n) = lastSnapshotTerm n" "cfg (resetElectionTimer n) = cfg n"
  "sm (resetElectionTimer n) = sm n"
  by (simp_all add: resetElectionTimer_def randomElectionTimeout_def nextRand_def Let_def)

lemma becomeFollower_fields [simp]:
  "log (becomeFollower t n) = log n" "logOffset (becomeFollower t n) = logOffset n"
  "commitIndex (becomeFollower t n) = commitIndex n" "currentTerm (becomeFollower t n) = t"
  "state (becomeFollower t n) = Follower" "votedFor (becomeFollower t n) = ''''"
  "votesReceived (becomeFollower t n) = votesReceived n" "id (becomeFollower t n) = id n"
  "config (becomeFollower t n) = config n" "joint (becomeFollower t n) = joint n"
  "lastSnapshotIndex (becomeFollower t n) = lastSnapshotIndex n" "lastApplied (becomeFollower t n) = lastApplied n"
  "lastSnapshotTerm (becomeFollower t n) = lastSnapshotTerm n" "cfg (becomeFollower t n) = cfg n"
  "sm (becomeFollower t n) = sm n"
  by (simp_all add: becomeFollower_def)

lemma log_functions_cong:
  assumes "log n = log m" "logOffset n = logOffset m"
  shows "getLogEntry i n = getLogEntry i m" "lastLogIndex n = lastLogIndex m" "log_ok n = log_ok m"
  unfolding getLogEntry_def lastLogIndex_def log_ok_def Let_def using assms by simp_all

lemma log_ok_last: "log_ok n \<Longrightarrow> lastLogIndex n = logOffset n + int (length (log n)) - 1"
  by (cases "log n") (auto simp: log_ok_def lastLogIndex_def last_conv_nth)

lemma log_ok_get:
  "log_ok n \<Longrightarrow> getLogEntry i n =
     (if logOffset n \<le> i \<and> i \<le> lastLogIndex n then Some (log n ! nat (i - logOffset n)) else None)"
  by (auto simp: getLogEntry_def log_ok_last Let_def)

lemma merge_entries_Nil [simp]: "merge_entries [] es = es"
  by (cases es) auto

lemma consecutive_Cons: "consecutive i (e # es) \<longleftrightarrow> Index e = i \<and> consecutive (i + 1) es"
  unfolding consecutive_def length_Cons All_less_Suc2 by (simp add: algebra_simps)

lemma log_ok_append:
  assumes "log_ok n" "p \<le> length (log n)" "Index e = logOffset n + int p"
  shows "log_ok (n\<lparr>log := take p (log n) @ [e]\<rparr>)"
  using assms by (auto simp: log_ok_def nth_append less_Suc_eq min_def)

lemma append_loop_log:
  "log_ok n \<Longrightarrow> consecutive i es \<Longrightarrow> i \<le> lastLogIndex n + 1 \<Longrightarrow>
   append_loop es i n =
     n\<lparr>log := take (nat (i - logOffset n)) (log n) @
            merge_entries (drop (nat (i - logOffset n)) (log n)) (drop (nat (logOffset n - i)) es)\<rparr>"
proof (induction es arbitrary: i n)
  case (Cons e es)
  have c: "Index e = i" "consecutive (i + 1) es" using Cons.prems(2) by (simp_all add: consecutive_Cons)
  note last = log_ok_last [OF Cons.prems(1)]
  have ne: "log n \<noteq> []" using Cons.prems(1) by (simp add: log_ok_def)
  consider (skip) "i < logOffset n" | (exist) "logOffset n \<le> i" "i \<le> lastLogIndex n" | (new) "i = lastLogIndex n + 1" "logOffset n \<le> i"
    using Cons.prems(3) last ne by linarith
  then show ?case
  proof cases
    case skip
    then have "i \<le> lastLogIndex n" "nat (logOffset n - i) = Suc (nat (logOffset n - (i + 1)))"
      using last ne by (simp_all add: Suc_leI)
    with skip Cons.IH [OF Cons.prems(1) c(2)] show ?thesis
      by (simp add: getLogEntry_def)
  next
    case exist
    define k where "k = nat (i - logOffset n)"
    have k: "i = logOffset n + int k" "k < length (log n)" using exist last by (simp_all add: k_def)
    have get: "getLogEntry i n = Some (log n ! k)" using exist by (simp add: log_ok_get [OF Cons.prems(1)] k_def)
    have split: "drop k (log n) = log n ! k # drop (Suc k) (log n)" "take (Suc k) (log n) = take k (log n) @ [log n ! k]"
      using k(2) by (simp_all add: Cons_nth_drop_Suc take_Suc_conv_app_nth)
    show ?thesis
    proof (cases "Term (log n ! k) = Term e")
      case True
      with exist get k split Cons.IH [OF Cons.prems(1) c(2)] show ?thesis
        by (simp add: nat_add_distrib del: take_Suc)
    next
      case False
      let ?n = "n\<lparr>log := take k (log n) @ [e]\<rparr>"
      have ok: "log_ok ?n" using log_ok_append [OF Cons.prems(1)] k c(1) by simp
      have "appendEntry e (truncateLog i n) = ?n" using k by (simp add: appendEntry_def truncateLog_def)
      moreover have "i + 1 \<le> lastLogIndex ?n + 1" using log_ok_last [OF ok] k by simp
      ultimately show ?thesis using exist get False k split Cons.IH [OF ok c(2)] by simp
    qed
  next
    case new
    let ?n = "n\<lparr>log := log n @ [e]\<rparr>"
    have k: "nat (i - logOffset n) = length (log n)" using new last by simp
    have ok: "log_ok ?n" using log_ok_append [OF Cons.prems(1), of "length (log n)" e] c(1) new last by simp
    moreover have "i + 1 \<le> lastLogIndex ?n + 1" using log_ok_last [OF ok] new last by simp
    ultimately show ?thesis using new k last Cons.IH [OF ok c(2)] by (simp add: appendEntry_def)
  qed
qed simp

lemma merge_entries_terms:
  "k < length es \<Longrightarrow> k < length (merge_entries ys es) \<and> Term (merge_entries ys es ! k) = Term (es ! k)"
  by (induction ys es arbitrary: k rule: merge_entries.induct) (auto simp: nth_Cons split: nat.splits)

lemma merge_entries_index:
  "consecutive i ys \<Longrightarrow> consecutive i es \<Longrightarrow> consecutive i (merge_entries ys es)"
  by (induction ys es arbitrary: i rule: merge_entries.induct) (auto simp: consecutive_Cons)

lemma consecutive_append: "consecutive i (xs @ ys) \<longleftrightarrow> consecutive i xs \<and> consecutive (i + int (length xs)) ys"
  by (induction xs arbitrary: i) (auto simp: consecutive_Cons algebra_simps, simp_all add: consecutive_def)

lemma log_ok_consecutive: "log_ok n \<longleftrightarrow> log n \<noteq> [] \<and> consecutive (logOffset n) (log n)"
  by (simp add: log_ok_def consecutive_def)

text \<open>When the request's point of agreement is one of the node's.\<close>

definition agrees :: "AppendEntriesRequest \<Rightarrow> 'sm RaftNode \<Rightarrow> bool" where
  "agrees req n \<longleftrightarrow> PrevLogIndex req = 0 \<or>
     PrevLogIndex req < logOffset n \<and> PrevLogIndex req = lastSnapshotIndex n \<and> PrevLogTerm req = lastSnapshotTerm n \<or>
     map_option Term (getLogEntry (PrevLogIndex req) n) = Some (PrevLogTerm req)"

lemma check_prev_agrees: "log_ok n \<Longrightarrow> check_prev req n = None \<longleftrightarrow> agrees req n"
  by (auto simp: check_prev_def agrees_def log_ok_get Let_def)

definition merged_log :: "AppendEntriesRequest \<Rightarrow> 'sm RaftNode \<Rightarrow> LogEntry list" where
  "merged_log req n =
     (let i = PrevLogIndex req + 1
      in take (nat (i - logOffset n)) (log n) @
         merge_entries (drop (nat (i - logOffset n)) (log n)) (drop (nat (logOffset n - i)) (Entries req)))"

lemma append_loop_merged:
  assumes "log_ok n" "0 \<le> logOffset n" "0 \<le> PrevLogIndex req" "consecutive (PrevLogIndex req + 1) (Entries req)" "agrees req n"
  shows "append_loop (Entries req) (PrevLogIndex req + 1) n = n\<lparr>log := merged_log req n\<rparr>"
    and "log_ok (n\<lparr>log := merged_log req n\<rparr>)"
    and "\<forall>k < length (Entries req). logOffset n \<le> PrevLogIndex req + 1 + int k \<longrightarrow>
      map_option Term (getLogEntry (PrevLogIndex req + 1 + int k) (n\<lparr>log := merged_log req n\<rparr>)) = Some (Term (Entries req ! k))"
proof -
  define i where "i = PrevLogIndex req + 1"
  define p q where "p = nat (i - logOffset n)" and "q = nat (logOffset n - i)"
  note last = log_ok_last [OF assms(1)]
  have "0 < int (length (log n))" using assms(1) by (simp add: log_ok_def)
  then have i: "i \<le> lastLogIndex n + 1"
    using assms(1,2,5) last unfolding agrees_def i_def log_ok_get [OF assms(1)] by (auto split: if_splits simp del: of_nat_0_less_iff)
  have p: "p \<le> length (log n)" using i last by (simp add: p_def)
  have m: "merged_log req n = take p (log n) @ merge_entries (drop p (log n)) (drop q (Entries req))"
    by (simp add: merged_log_def i_def p_def q_def Let_def)
  show "append_loop (Entries req) (PrevLogIndex req + 1) n = n\<lparr>log := merged_log req n\<rparr>"
    using append_loop_log [OF assms(1,4) i [unfolded i_def]] by (simp add: merged_log_def Let_def)
  have cl: "log n \<noteq> []" "consecutive (logOffset n) (take p (log n) @ drop p (log n))"
    using assms(1) by (simp_all add: log_ok_consecutive)
  have "consecutive (i + int q) (drop q (Entries req))" if "q \<le> length (Entries req)"
    using assms(4) consecutive_append [of i "take q (Entries req)" "drop q (Entries req)"] that by (simp add: i_def min.absorb2)
  then have "consecutive (logOffset n + int p) (drop q (Entries req))"
    by (cases "q \<le> length (Entries req)") (auto simp: p_def q_def consecutive_def max_def split: if_splits)
  then have "consecutive (logOffset n) (merged_log req n)"
    using cl(2) p unfolding m consecutive_append by (auto simp: min_def intro: merge_entries_index)
  moreover have "merged_log req n \<noteq> []"
    using cl(1) p merge_entries_terms [of 0 "drop q (Entries req)" "drop p (log n)"] unfolding m
    by (cases "drop q (Entries req)"; cases "p = 0") auto
  ultimately show ok: "log_ok (n\<lparr>log := merged_log req n\<rparr>)" by (simp add: log_ok_consecutive)
  show "\<forall>k < length (Entries req). logOffset n \<le> PrevLogIndex req + 1 + int k \<longrightarrow>
      map_option Term (getLogEntry (PrevLogIndex req + 1 + int k) (n\<lparr>log := merged_log req n\<rparr>)) = Some (Term (Entries req ! k))"
  proof (intro allI impI)
    fix k assume k: "k < length (Entries req)" "logOffset n \<le> PrevLogIndex req + 1 + int k"
    have q: "q \<le> k" using k(2) by (simp add: q_def i_def)
    have pos: "nat (PrevLogIndex req + 1 + int k - logOffset n) = p + (k - q)"
      using k(2) q by (auto simp: p_def q_def i_def nat_diff_distrib' nat_eq_iff)
    have t: "k - q < length (merge_entries (drop p (log n)) (drop q (Entries req)))"
      "Term (merge_entries (drop p (log n)) (drop q (Entries req)) ! (k - q)) = Term (Entries req ! k)"
      using merge_entries_terms [of "k - q" "drop q (Entries req)" "drop p (log n)"] k(1) q by (simp_all add: diff_less_mono)
    have len: "length (take p (log n)) = p" using p by simp
    have "merged_log req n ! (p + (k - q)) = merge_entries (drop p (log n)) (drop q (Entries req)) ! (k - q)"
      "p + (k - q) < length (merged_log req n)"
      using t len by (simp_all add: m nth_append del: length_take)
    then show "map_option Term (getLogEntry (PrevLogIndex req + 1 + int k) (n\<lparr>log := merged_log req n\<rparr>)) = Some (Term (Entries req ! k))"
      using k(2) pos t(2) by (auto simp: getLogEntry_def Let_def nat_le_iff)
  qed
qed

subsection \<open>Commitment by a quorum\<close>

definition committable :: "'sm RaftNode \<Rightarrow> int \<Rightarrow> bool" where
  "committable n i \<longleftrightarrow> commitIndex n < i \<and> i \<le> lastLogIndex n \<and>
     map_option Term (getLogEntry i n) = Some (currentTerm n) \<and> Quorum (config n) \<le> match_count (config n) i n"

lemma commit_step_static:
  "joint n = None \<Longrightarrow> commit_step i n =
     (if map_option Term (getLogEntry i n) = Some (currentTerm n) \<and> Quorum (config n) \<le> match_count (config n) i n
      then n\<lparr>commitIndex := i, commitReady := True\<rparr> else n)"
  by (auto simp: commit_step_def notifyApply_def split: option.splits)

lemma commit_fields [simp]:
  "getLogEntry i (n\<lparr>commitIndex := c, commitReady := b\<rparr>) = getLogEntry i n"
  "match_count C i (n\<lparr>commitIndex := c, commitReady := b\<rparr>) = match_count C i n"
  "lastLogIndex (n\<lparr>commitIndex := c, commitReady := b\<rparr>) = lastLogIndex n"
  by (simp_all add: getLogEntry_def match_count_def lastLogIndex_def Let_def)

lemma fold_commit_step:
  assumes "joint n = None"
  defines "good \<equiv> \<lambda>i. map_option Term (getLogEntry i n) = Some (currentTerm n) \<and> Quorum (config n) \<le> match_count (config n) i n"
  shows "fold commit_step is n =
    (if filter good is = [] then n else n\<lparr>commitIndex := last (filter good is), commitReady := True\<rparr>)"
proof (induction "is" rule: rev_induct)
  case (snoc i "is")
  have step: "commit_step i m = (if good i then m\<lparr>commitIndex := i, commitReady := True\<rparr> else m)"
    if "m = n \<or> m = n\<lparr>commitIndex := c, commitReady := True\<rparr>" for m c
    using that assms(1) by (elim disjE) (simp_all add: commit_step_static good_def del: map_option_eq_Some)
  show ?case
    using snoc step [of n] step [of "n\<lparr>commitIndex := last (filter good is), commitReady := True\<rparr>" "last (filter good is)"]
    by simp
qed simp

lemma updateCommitIndex_static:
  assumes "state n = Leader" "joint n = None"
  shows "commitIndex (updateCommitIndex n) =
      (if \<exists>i. committable n i then Max {i. committable n i} else commitIndex n)"
    and "finite {i. committable n i}"
proof -
  let ?good = "\<lambda>i. map_option Term (getLogEntry i n) = Some (currentTerm n) \<and> Quorum (config n) \<le> match_count (config n) i n"
  let ?is = "filter ?good [commitIndex n + 1..lastLogIndex n]"
  have set: "set ?is = {i. committable n i}" by (auto simp: committable_def)
  then show "finite {i. committable n i}" by (metis List.finite_set)
  have upd: "updateCommitIndex n = (if ?is = [] then n else n\<lparr>commitIndex := last ?is, commitReady := True\<rparr>)"
    using assms(1) fold_commit_step [OF assms(2), of "[commitIndex n + 1..lastLogIndex n]"]
    by (simp only: updateCommitIndex_def if_False not_True_eq_False simp_thms)
  have none: "?is = [] \<longleftrightarrow> \<not> (\<exists>i. committable n i)"
    unfolding set_empty [symmetric] set by simp
  show "commitIndex (updateCommitIndex n) =
      (if \<exists>i. committable n i then Max {i. committable n i} else commitIndex n)"
  proof (cases "\<exists>i. committable n i")
    case True
    have "sorted ?is" by (rule sorted_wrt_filter) simp
    moreover have ne: "?is \<noteq> []" using True none by blast
    ultimately have "last ?is = Max {i. committable n i}" unfolding set [symmetric] by (rule sorted_last_Max)
    then have "commitIndex (updateCommitIndex n) = Max {i. committable n i}" unfolding upd if_not_P [OF ne] by simp
    with True show ?thesis by (simp only: if_True)
  next
    case False
    then have "?is = []" using none by simp
    with False show ?thesis unfolding upd by simp
  qed
qed

subsection \<open>Properties\<close>


definition example_node :: "unit RaftNode" where
  "example_node = NewRaftNode ''a'' DefaultRaftConfig () [''a'', ''b'', ''c''] 0"

definition example_entry :: LogEntry where
  "example_entry = \<lparr>Term = 1, Index = 1, entryType = LogEntryNormal, Command = ''x''\<rparr>"

definition example_append :: AppendEntriesRequest where
  "example_append = \<lparr>aeTerm = 1, aeLeaderID = ''b'', PrevLogIndex = 0, PrevLogTerm = 0,
     Entries = [example_entry], LeaderCommit = 1\<rparr>"

lemmas example_node_simps = example_node_def NewRaftNode_def appendEntry_def

lemma example_node_fields:
  "log example_node = [\<lparr>Term = 0, Index = 0, entryType = LogEntryNormal, Command = ''''\<rparr>]"
  "logOffset example_node = 0" "commitIndex example_node = 0" "currentTerm example_node = 0" "joint example_node = None"
  "id example_node = ''a''" "config example_node = NewConfiguration [''a'', ''b'', ''c'']"
  by (simp_all add: example_node_simps)

lemma example_append_fields:
  "aeTerm example_append = 1" "PrevLogIndex example_append = 0" "Entries example_append = [example_entry]"
  "LeaderCommit example_append = 1" "Term example_entry = 1" "Index example_entry = 1"
  by (simp_all add: example_append_def example_entry_def)

lemmas example_fields = example_node_fields example_append_fields




text \<open>
  Two defects of the follower. A request whose entries end below the commit index while its leader's
  commit index is above it moves the commit index back. And after a snapshot was installed the log is
  empty, the entry at the offset is missing, and every later request with a previous index at or above
  the offset is refused: replication to that follower has ended.
\<close>

lemma commit_index_moves_back:
  "commitIndex (snd (HandleAppendEntries (example_append\<lparr>Entries := [], LeaderCommit := 2\<rparr>)
     (snd (HandleAppendEntries example_append example_node)))) = 0"
  by code_simp

lemma snapshot_ends_replication:
  assumes "HandleInstallSnapshot M req n = (reply, n')" "lastSnapshotIndex n < lastSnapshotIndex n'"
    and "HandleAppendEntries areq n' = (areply, n'')" "PrevLogIndex areq \<noteq> 0" "logOffset n' \<le> PrevLogIndex areq"
  shows "\<not> Success areply \<and> log n'' = []"
proof -
  have "log n' = []"
    using assms(1,2) by (auto simp: HandleInstallSnapshot_def Let_def observe_term_def split: if_splits prod.splits option.splits)
  define n1 n2 where "n1 = observe_term (aeTerm areq) n'" and "n2 = heard_leader areq n1"
  have l: "log n1 = []" "log n2 = []" "logOffset n2 = logOffset n'"
    using \<open>log n' = []\<close> by (auto simp: n1_def n2_def heard_leader_def observe_term_def)
  then have "check_prev areq n2 \<noteq> None"
    using assms(4,5) by (auto simp: check_prev_def getLogEntry_def Let_def)
  then show ?thesis
    using assms(3) l unfolding HandleAppendEntries_def Let_def n1_def [symmetric] n2_def [symmetric]
    by (auto split: if_splits)
qed

end
