(* ===== verification/Raftsys.thy ===== *)
theory Raftsys
  imports Raft
begin

section \<open>Raft: the cluster and its elections\<close>

text \<open>
  The in-memory transport and the cluster of \<open>raftlog.go\<close>, and the system they form: the nodes, the vote
  requests and replies in flight, and every handler of a node as a step that may be taken at any moment.
  Requests and replies may be delayed, repeated or lost.

  Two history variables are kept for the proofs: the ballots cast and the nodes that became leader of a
  term. The main result is the election safety of the protocol for a fixed membership, under two
  conditions on the schedule which the code does not enforce; for each of them a run that breaks it and
  has two leaders in one term is evaluated.
\<close>

subsection \<open>The in-memory state machine\<close>

text \<open>
  \<open>MemoryStateMachine\<close>, a map from strings to strings. Its snapshots are written and read by \<open>encoding/gob\<close>, which
  is a parameter: an encoder that may fail and a decoder that may fail.
\<close>

type_synonym store = "(string, string) fmap"

definition NewMemoryStateMachine :: store where
  "NewMemoryStateMachine = fmempty"

definition mem_Apply :: "LogEntry \<Rightarrow> store \<Rightarrow> string option \<times> store" where
  "mem_Apply entry m =
     (None, if entryType entry \<noteq> LogEntryNormal then m else fmupd (Command entry) (Command entry) m)"

definition mem_ApplySnapshot :: "(string \<Rightarrow> (string, store) result) \<Rightarrow> Snapshot \<Rightarrow> store \<Rightarrow> string option \<times> store" where
  "mem_ApplySnapshot decode snapshot m =
     (if snapData snapshot = '''' then (None, fmempty)
      else case decode (snapData snapshot) of Inl err \<Rightarrow> (Some err, m) | Inr d \<Rightarrow> (None, d))"

definition mem_Snapshot :: "(store \<Rightarrow> (string, string) result) \<Rightarrow> store \<Rightarrow> (string, string) result" where
  "mem_Snapshot encode m = encode m"

definition mem_Get :: "string \<Rightarrow> store \<Rightarrow> string \<times> bool" where
  "mem_Get key m = (case fmlookup m key of None \<Rightarrow> ('''', False) | Some v \<Rightarrow> (v, True))"

definition mem_Count :: "store \<Rightarrow> nat" where
  "mem_Count m = fcard (fmdom m)"

definition memory_machine ::
    "(store \<Rightarrow> (string, string) result) \<Rightarrow> (string \<Rightarrow> (string, store) result) \<Rightarrow> store StateMachine" where
  "memory_machine encode decode =
     \<lparr>smApply = mem_Apply, smApplySnapshot = mem_ApplySnapshot decode, smSnapshot = mem_Snapshot encode\<rparr>"

subsection \<open>The transport and the cluster\<close>

text \<open>The transport's map from identifiers to nodes is a set here: a node is registered under its own identifier.\<close>

record MemoryTransport =
  tnodes :: "string fset"
  closed :: bool

definition NewMemoryTransport :: MemoryTransport where
  "NewMemoryTransport = \<lparr>tnodes = {||}, closed = False\<rparr>"

definition RegisterNode :: "string \<Rightarrow> MemoryTransport \<Rightarrow> MemoryTransport" where
  "RegisterNode i t = t\<lparr>tnodes := finsert i (tnodes t)\<rparr>"

definition UnregisterNode :: "string \<Rightarrow> MemoryTransport \<Rightarrow> MemoryTransport" where
  "UnregisterNode i t = t\<lparr>tnodes := tnodes t |-| {|i|}\<rparr>"

definition transport_Close :: "MemoryTransport \<Rightarrow> MemoryTransport" where
  "transport_Close t = t\<lparr>closed := True, tnodes := {||}\<rparr>"

record 'sm Cluster =
  nodes :: "(string, 'sm RaftNode) fmap"
  transport :: MemoryTransport

definition getNode :: "string \<Rightarrow> 'sm Cluster \<Rightarrow> 'sm RaftNode option" where
  "getNode i c =
     (if closed (transport c) then None
      else if i |\<in>| tnodes (transport c) then fmlookup (nodes c) i else None)"

definition send :: "('sm RaftNode \<Rightarrow> 'reply \<times> 'sm RaftNode) \<Rightarrow> string \<Rightarrow> 'sm Cluster \<Rightarrow> (raft_error, 'reply) result \<times> 'sm Cluster" where
  "send handle target c =
     (if closed (transport c) then (Inl ErrTransportClosed, c)
      else case getNode target c of
             None \<Rightarrow> (Inl ErrNodeNotFound, c)
           | Some n \<Rightarrow> let (reply, n') = handle n in (Inr reply, c\<lparr>nodes := fmupd target n' (nodes c)\<rparr>))"

definition SendRequestVote :: "string \<Rightarrow> RequestVoteRequest \<Rightarrow> 'sm Cluster \<Rightarrow> (raft_error, RequestVoteReply) result \<times> 'sm Cluster" where
  "SendRequestVote target req = send (HandleRequestVote req) target"

definition SendAppendEntries :: "string \<Rightarrow> AppendEntriesRequest \<Rightarrow> 'sm Cluster \<Rightarrow> (raft_error, AppendEntriesReply) result \<times> 'sm Cluster" where
  "SendAppendEntries target req = send (HandleAppendEntries req) target"

definition SendInstallSnapshot ::
    "'sm StateMachine \<Rightarrow> string \<Rightarrow> InstallSnapshotRequest \<Rightarrow> 'sm Cluster \<Rightarrow> (raft_error, InstallSnapshotReply) result \<times> 'sm Cluster" where
  "SendInstallSnapshot M target req = send (HandleInstallSnapshot M req) target"

definition NewCluster :: "string list \<Rightarrow> RaftConfig \<Rightarrow> 'sm \<Rightarrow> int \<Rightarrow> (raft_error, 'sm Cluster) result" where
  "NewCluster nodeIDs c s now =
     (if nodeIDs = [] then Inl ErrEmptyConfig
      else Inr \<lparr>nodes = fold (\<lambda>i. fmupd i (NewRaftNode i c s nodeIDs now)) nodeIDs fmempty,
                transport = NewMemoryTransport\<rparr>)"

definition GetNode :: "string \<Rightarrow> 'sm Cluster \<Rightarrow> 'sm RaftNode option" where
  "GetNode i c = fmlookup (nodes c) i"

definition cluster_NodeIDs :: "'sm Cluster \<Rightarrow> string list" where
  "cluster_NodeIDs c = sorted_list_of_fset (fmdom (nodes c))"

definition NodeCount :: "'sm Cluster \<Rightarrow> nat" where
  "NodeCount c = fcard (fmdom (nodes c))"

text \<open>\<open>Leader\<close> with the order in which the map is iterated.\<close>

definition cluster_Leader :: "string list \<Rightarrow> 'sm Cluster \<Rightarrow> string option" where
  "cluster_Leader order c =
     find (\<lambda>i. case fmlookup (nodes c) i of None \<Rightarrow> False | Some n \<Rightarrow> state n = Leader) order"

text \<open>Starting a node registers it with the transport, stopping it removes it.\<close>

definition start_node :: "string \<Rightarrow> 'sm Cluster \<Rightarrow> 'sm Cluster option" where
  "start_node i c =
     (case fmlookup (nodes c) i of
        None \<Rightarrow> None
      | Some n \<Rightarrow>
          if running n then Some c
          else map_option (\<lambda>n'. c\<lparr>nodes := fmupd i n' (nodes c), transport := RegisterNode i (transport c)\<rparr>) (Start n))"

definition stop_node :: "string \<Rightarrow> 'sm Cluster \<Rightarrow> 'sm Cluster option" where
  "stop_node i c =
     (case fmlookup (nodes c) i of
        None \<Rightarrow> None
      | Some n \<Rightarrow>
          if stopped n then Some c
          else Some (c\<lparr>nodes := fmupd i (Stop n) (nodes c), transport := UnregisterNode i (transport c)\<rparr>))"

definition cluster_Start :: "'sm Cluster \<Rightarrow> 'sm Cluster option" where
  "cluster_Start c = fold (\<lambda>i r. Option.bind r (start_node i)) (cluster_NodeIDs c) (Some c)"

definition cluster_Stop :: "'sm Cluster \<Rightarrow> 'sm Cluster option" where
  "cluster_Stop c =
     map_option (\<lambda>c'. c'\<lparr>transport := transport_Close (transport c')\<rparr>)
       (fold (\<lambda>i r. Option.bind r (stop_node i)) (cluster_NodeIDs c) (Some c))"

text \<open>
  \<open>AddNode\<close> and \<open>RemoveNode\<close> of the cluster. The new node is created with the identifiers of the nodes
  before it; \<^const>\<open>None\<close> is the panic of its \<open>Start\<close>.
\<close>

definition cluster_AddNode ::
    "string list \<Rightarrow> int \<Rightarrow> string \<Rightarrow> 'sm \<Rightarrow> 'sm Cluster \<Rightarrow> (raft_error option \<times> 'sm Cluster) option" where
  "cluster_AddNode order now i s c =
     (if i |\<in>| fmdom (nodes c) then Some (Some ErrNodeExists, c)
      else case cluster_Leader order c of
        None \<Rightarrow> Some (Some ErrNotLeader, c)
      | Some l \<Rightarrow>
          case fmlookup (nodes c) l of
            None \<Rightarrow> Some (Some ErrNotLeader, c)
          | Some leader \<Rightarrow>
              let node = NewRaftNode i (cfg leader) s (cluster_NodeIDs c) now
              in case start_node i (c\<lparr>nodes := fmupd i node (nodes c)\<rparr>) of
                   None \<Rightarrow> None
                 | Some c1 \<Rightarrow>
                     Some (case AddNode i leader of
                       (Some err, leader') \<Rightarrow>
                         (Some err, c1\<lparr>nodes := fmdrop i (fmupd l leader' (nodes c1)),
                                       transport := UnregisterNode i (transport c1)\<rparr>)
                     | (None, leader') \<Rightarrow> (None, c1\<lparr>nodes := fmupd l leader' (nodes c1)\<rparr>)))"

definition cluster_RemoveNode :: "string list \<Rightarrow> string \<Rightarrow> 'sm Cluster \<Rightarrow> raft_error option \<times> 'sm Cluster" where
  "cluster_RemoveNode order i c =
     (case cluster_Leader order c of
        None \<Rightarrow> (Some ErrNotLeader, c)
      | Some l \<Rightarrow>
          case fmlookup (nodes c) l of
            None \<Rightarrow> (Some ErrNotLeader, c)
          | Some leader \<Rightarrow>
              case RemoveNode i leader of
                (Some err, leader') \<Rightarrow> (Some err, c\<lparr>nodes := fmupd l leader' (nodes c)\<rparr>)
              | (None, leader') \<Rightarrow>
                  let c1 = c\<lparr>nodes := fmupd l leader' (nodes c)\<rparr>
                  in (None, case stop_node i c1 of None \<Rightarrow> c1 | Some c2 \<Rightarrow> c2\<lparr>nodes := fmdrop i (nodes c2)\<rparr>))"

subsection \<open>The system\<close>

text \<open>
  What a node does without the votes of an election: the handlers, the ends of the heartbeat goroutines, the apply
  loop and the calls of a client.
\<close>

datatype op =
    Append AppendEntriesRequest
  | AppendReply string AppendEntriesReply
  | Install InstallSnapshotRequest
  | InstallReply string InstallSnapshotReply
  | Prepare int int string
  | SnapshotReturned
  | HeartbeatsEnd
  | ApplyRound
  | ProposeCommand string
  | Compact int

fun node_op :: "'sm StateMachine \<Rightarrow> op \<Rightarrow> 'sm RaftNode \<Rightarrow> 'sm RaftNode" where
  "node_op M (Append req) n = snd (HandleAppendEntries req n)"
| "node_op M (AppendReply target reply) n = handleAppendEntriesReply target reply n"
| "node_op M (Install req) n = snd (HandleInstallSnapshot M req n)"
| "node_op M (InstallReply target reply) n = handleInstallSnapshotReply target reply n"
| "node_op M (Prepare t commit target) n = snd (heartbeat_prepare t commit target n)"
| "node_op M SnapshotReturned n = snapshot_returned n"
| "node_op M HeartbeatsEnd n = sendHeartbeats_end n"
| "node_op M ApplyRound n = applyLoop_round M n"
| "node_op M (ProposeCommand command) n = snd (Propose command n)"
| "node_op M (Compact index) n = snd (CompactLog index n)"

datatype act =
    Timeout string
  | Campaign string
  | VoteRequest string RequestVoteRequest
  | VoteReply int string string RequestVoteReply
  | Local string op
  | StartNode string
  | StopNode string

record 'sm system =
  cluster :: "'sm Cluster"
  requests :: "(string \<times> RequestVoteRequest) list"
  replies :: "(int \<times> string \<times> string \<times> RequestVoteReply) list"
  ballots :: "(int \<times> string \<times> string) set"
  elected :: "(int \<times> string) set"

abbreviation node :: "'sm system \<Rightarrow> string \<Rightarrow> 'sm RaftNode option" where
  "node s i \<equiv> fmlookup (nodes (cluster s)) i"

definition put :: "string \<Rightarrow> 'sm RaftNode \<Rightarrow> 'sm system \<Rightarrow> 'sm system" where
  "put i n s = s\<lparr>cluster := (cluster s)\<lparr>nodes := fmupd i n (nodes (cluster s))\<rparr>,
     elected := (if state n = Leader then insert (currentTerm n, i) (elected s) else elected s)\<rparr>"

text \<open>
  One step. \<open>Campaign\<close> is \<open>startElection\<close>, which reads the node again after \<open>handleElectionTimeout\<close> has released
  the mutex. A vote request and its reply belong to one goroutine of \<open>startElection\<close>, which keeps the
  term of the request.
\<close>

fun sys_act :: "'sm StateMachine \<Rightarrow> act \<Rightarrow> 'sm system \<Rightarrow> 'sm system option" where
  "sys_act M (Timeout i) s =
     map_option (\<lambda>n. let n' = handleElectionTimeout n
        in (put i n' s)\<lparr>ballots := (if state n = Leader \<or> \<not> running n then ballots s
                                    else insert (currentTerm n', i, i) (ballots s))\<rparr>) (node s i)"
| "sys_act M (Campaign i) s = map_option (\<lambda>n. s\<lparr>requests := requests s @ startElection n\<rparr>) (node s i)"
| "sys_act M (VoteRequest target req) s =
     (if (target, req) \<in> set (requests s)
      then case SendRequestVote target req (cluster s) of
             (Inl err, c) \<Rightarrow> Some s
           | (Inr reply, c) \<Rightarrow>
               Some (s\<lparr>cluster := c, replies := replies s @ [(rvTerm req, CandidateID req, target, reply)],
                       ballots := (if VoteGranted reply then insert (rvrTerm reply, target, CandidateID req) (ballots s)
                                   else ballots s)\<rparr>)
      else None)"
| "sys_act M (VoteReply t candidate voter reply) s =
     (if (t, candidate, voter, reply) \<in> set (replies s)
      then map_option (\<lambda>n. put candidate (handleRequestVoteReply t voter reply n) s) (node s candidate)
      else None)"
| "sys_act M (Local i x) s = map_option (\<lambda>n. put i (node_op M x n) s) (node s i)"
| "sys_act M (StartNode i) s = map_option (\<lambda>c. s\<lparr>cluster := c\<rparr>) (start_node i (cluster s))"
| "sys_act M (StopNode i) s = map_option (\<lambda>c. s\<lparr>cluster := c\<rparr>) (stop_node i (cluster s))"

fun sys_run :: "'sm StateMachine \<Rightarrow> act list \<Rightarrow> 'sm system \<Rightarrow> 'sm system option" where
  "sys_run M [] s = Some s"
| "sys_run M (a # as) s = Option.bind (sys_act M a s) (sys_run M as)"

definition new_system :: "'sm Cluster \<Rightarrow> 'sm system" where
  "new_system c = \<lparr>cluster = c, requests = [], replies = [], ballots = {}, elected = {}\<rparr>"

text \<open>
  The schedules of the election theorem: no vote request of a term is delivered to the leader of that
  term; a vote reply reaches its candidate in the term of the request; a snapshot carries no
  configuration but the cluster's.
\<close>

fun ordinary :: "Configuration \<Rightarrow> act \<Rightarrow> 'sm system \<Rightarrow> bool" where
  "ordinary C (VoteRequest target req) s \<longleftrightarrow>
     (case node s target of None \<Rightarrow> True | Some n \<Rightarrow> \<not> (state n = Leader \<and> rvTerm req = currentTerm n))"
| "ordinary C (VoteReply t candidate voter reply) s \<longleftrightarrow>
     (case node s candidate of None \<Rightarrow> True | Some n \<Rightarrow> state n = Candidate \<longrightarrow> currentTerm n = t)"
| "ordinary C (Local i (Install req)) s \<longleftrightarrow> isConfig req = None \<or> isConfig req = Some C"
| "ordinary C a s \<longleftrightarrow> True"

inductive reachable_sys :: "'sm StateMachine \<Rightarrow> Configuration \<Rightarrow> 'sm system \<Rightarrow> 'sm system \<Rightarrow> bool"
  for M C s0 where
  start: "reachable_sys M C s0 s0"
| step: "reachable_sys M C s0 s \<Longrightarrow> ordinary C a s \<Longrightarrow> sys_act M a s = Some s' \<Longrightarrow> reachable_sys M C s0 s'"

subsection \<open>What the other handlers do to the election\<close>

text \<open>
  A node's part in elections: its term, role, vote and the votes it has. Every operation of
  \<^const>\<open>node_op\<close> leaves it alone or makes the node a follower without a vote, in a later term or,
  for a candidate, in the same one.
\<close>

definition static :: "Configuration \<Rightarrow> string \<Rightarrow> 'sm RaftNode \<Rightarrow> bool" where
  "static C i n \<longleftrightarrow> id n = i \<and> config n = C \<and> joint n = None"

definition core :: "'sm RaftNode \<Rightarrow> NodeState \<times> int \<times> string \<times> string fset" where
  "core n = (state n, currentTerm n, votedFor n, votesReceived n)"

definition steps_down :: "'sm RaftNode \<Rightarrow> 'sm RaftNode \<Rightarrow> bool" where
  "steps_down n n' \<longleftrightarrow> state n' = Follower \<and> votedFor n' = '''' \<and>
     (currentTerm n < currentTerm n' \<or> currentTerm n = currentTerm n' \<and> state n = Candidate)"

definition settles :: "Configuration \<Rightarrow> string \<Rightarrow> 'sm RaftNode \<Rightarrow> 'sm RaftNode \<Rightarrow> bool" where
  "settles C i n n' \<longleftrightarrow> static C i n' \<and> (core n' = core n \<or> steps_down n n')"

named_theorems settle_intros \<open>operations that settle\<close>

lemma settlesI: "static C i n' \<Longrightarrow> core n' = core n \<Longrightarrow> settles C i n n'"
  by (simp add: settles_def)

lemma becomeFollower_settles [settle_intros]:
  "static C i n \<Longrightarrow> currentTerm n < t \<or> currentTerm n = t \<and> state n = Candidate \<Longrightarrow> settles C i n (becomeFollower t n)"
  by (auto simp: settles_def steps_down_def static_def)

lemma observe_term_settles [settle_intros]: "static C i n \<Longrightarrow> settles C i n (observe_term t n)"
  by (auto simp: observe_term_def intro: settle_intros settlesI)

lemma settles_same:
  "settles C i n n1 \<Longrightarrow> static C i n1 \<longrightarrow> static C i n2 \<Longrightarrow> core n2 = core n1 \<Longrightarrow> settles C i n n2"
  by (auto simp: settles_def steps_down_def core_def)

lemma append_loop_core:
  "core (append_loop es k n) = core n \<and> (static C i n \<longrightarrow> static C i (append_loop es k n))"
proof (induction es k n rule: append_loop.induct)
  case (2 entry es insertIdx n)
  have "core (appendEntry entry (truncateLog insertIdx n)) = core n" "core (appendEntry entry n) = core n"
    "static C i n \<Longrightarrow> static C i (appendEntry entry (truncateLog insertIdx n))" "static C i n \<Longrightarrow> static C i (appendEntry entry n)"
    by (auto simp: core_def static_def appendEntry_def truncateLog_def Let_def)
  with 2 show ?case by (auto split: option.splits)
qed simp

lemma follow_commit_core:
  "core (follow_commit req n) = core n \<and> (static C i n \<longrightarrow> static C i (follow_commit req n))"
  by (auto simp: follow_commit_def notifyApply_def core_def static_def Let_def)

lemma heard_leader_settles:
  assumes "static C i n" "settles C i n n1" "currentTerm n1 \<le> aeTerm req" "n1 = observe_term (aeTerm req) n"
  shows "settles C i n (heard_leader req n1)"
  using assms by (auto simp: heard_leader_def settles_def steps_down_def static_def core_def observe_term_def)

lemma HandleAppendEntries_settles [settle_intros]:
  assumes "static C i n"
  shows "settles C i n (snd (HandleAppendEntries req n))"
proof -
  define n1 where "n1 = observe_term (aeTerm req) n"
  have n1: "settles C i n n1" unfolding n1_def by (intro settle_intros assms)
  have "settles C i n (heard_leader req n1)" if "\<not> aeTerm req < currentTerm n1"
    using heard_leader_settles [OF assms n1 _ n1_def] that by simp
  then have "settles C i n (follow_commit req (append_loop es k (heard_leader req n1)))" if "\<not> aeTerm req < currentTerm n1" for es k
    using that append_loop_core [of es k] follow_commit_core [of req] by (metis settles_same)
  then show ?thesis
    using n1 \<open>\<not> aeTerm req < currentTerm n1 \<Longrightarrow> settles C i n (heard_leader req n1)\<close>
    unfolding HandleAppendEntries_def Let_def n1_def [symmetric] by (auto split: option.splits)
qed

lemma updateCommitIndex_core:
  assumes "static C i n"
  shows "core (updateCommitIndex n) = core n \<and> static C i (updateCommitIndex n)"
proof -
  have "joint n = None" using assms by (simp add: static_def)
  from fold_commit_step [OF this, of "[commitIndex n + 1..lastLogIndex n]"] show ?thesis
    using assms by (auto simp: updateCommitIndex_def core_def static_def)
qed

lemma handleAppendEntriesReply_settles [settle_intros]:
  assumes "static C i n"
  shows "settles C i n (handleAppendEntriesReply target reply n)"
proof -
  have "checkConfigProgress n' = n'" if "static C i n'" for n' :: "'a RaftNode"
    using that by (simp add: checkConfigProgress_def static_def)
  moreover have "core (updateCommitIndex (n\<lparr>matchIndex := a, nextIndex := b\<rparr>)) = core n \<and>
      static C i (updateCommitIndex (n\<lparr>matchIndex := a, nextIndex := b\<rparr>))" for a b
    using updateCommitIndex_core [of C i "n\<lparr>matchIndex := a, nextIndex := b\<rparr>"] assms by (auto simp: core_def static_def)
  ultimately show ?thesis
    using assms becomeFollower_settles [OF assms, of "aerTerm reply"]
    by (auto simp: handleAppendEntriesReply_def Let_def intro!: settlesI) (auto simp: static_def core_def)
qed

lemma HandleInstallSnapshot_settles [settle_intros]:
  assumes "static C i n" "isConfig req = None \<or> isConfig req = Some C"
  shows "settles C i n (snd (HandleInstallSnapshot M req n))"
proof -
  define n1 where "n1 = observe_term (isTerm req) n"
  have n1: "settles C i n n1" unfolding n1_def by (intro settle_intros assms)
  show ?thesis
    unfolding HandleInstallSnapshot_def Let_def n1_def [symmetric]
    using n1 assms(2)
    by (auto split: option.splits prod.splits intro!: settles_same [OF n1] simp: static_def core_def)
qed

lemma applyLoop_round_core:
  "core (applyLoop_round M n) = core n \<and> (static C i n \<longrightarrow> static C i (applyLoop_round M n))"
proof -
  have "core (fold (apply_step M) js n) = core n \<and> (static C i n \<longrightarrow> static C i (fold (apply_step M) js n))" for js
    by (induction js arbitrary: n) (auto simp: apply_step_def core_def static_def Let_def split_beta split: option.splits)
  then show ?thesis by (auto simp: applyLoop_round_def applyCommitted_def)
qed

lemma handleInstallSnapshotReply_settles [settle_intros]:
  "static C i n \<Longrightarrow> settles C i n (handleInstallSnapshotReply target reply n)"
  using becomeFollower_settles [of C i n "isrTerm reply"]
  by (auto simp: handleInstallSnapshotReply_def intro!: settlesI) (auto simp: static_def core_def)

lemma applyLoop_round_settles [settle_intros]: "static C i n \<Longrightarrow> settles C i n (applyLoop_round M n)"
  using applyLoop_round_core [of M n C i] by (auto intro: settlesI)

lemma quiet_settles [settle_intros]:
  assumes "static C i n"
  shows "settles C i n (snd (heartbeat_prepare t commit target n))" "settles C i n (snapshot_returned n)"
    "settles C i n (sendHeartbeats_end n)" "settles C i n (snd (Propose command n))" "settles C i n (snd (CompactLog index n))"
  by (rule settlesI; use assms in \<open>auto simp: static_def core_def heartbeat_prepare_def snapshot_returned_def
      sendHeartbeats_end_def Propose_def CompactLog_def appendEntry_def Let_def split: option.splits\<close>)+

lemma node_op_settles:
  assumes "static C i n" "\<And>req. x = Install req \<Longrightarrow> isConfig req = None \<or> isConfig req = Some C"
  shows "settles C i n (node_op M x n)"
  using assms by (cases x) (simp_all add: settle_intros)

subsection \<open>The invariant of elections\<close>

text \<open>
  One voter \<open>i\<close> with the ballots \<open>B\<close> it has cast and the terms \<open>E\<close> it has led. A node votes twice in a term only by
  giving up its own candidacy in between, so that one of the votes is for itself and it never leads the term.
\<close>

definition voter_ok :: "string \<Rightarrow> (int \<times> string) set \<Rightarrow> int set \<Rightarrow> 'sm RaftNode \<Rightarrow> bool" where
  "voter_ok i B E n \<longleftrightarrow>
     (\<forall>(T, c) \<in> B. T \<le> currentTerm n \<and> c \<noteq> '''') \<and>
     (\<forall>c. (currentTerm n, c) \<in> B \<longrightarrow> votedFor n = c \<or> state n = Leader \<or> state n = Follower \<and> c = i) \<and>
     (state n = Candidate \<longrightarrow> votedFor n = i) \<and>
     (\<forall>T \<in> E. T < currentTerm n \<or> T = currentTerm n \<and> state n = Leader) \<and>
     (\<forall>T c d. (T, c) \<in> B \<and> (T, d) \<in> B \<and> c \<noteq> d \<longrightarrow>
        (c = i \<or> d = i) \<and> T \<notin> E \<and> (T < currentTerm n \<or> T = currentTerm n \<and> state n = Follower))"

definition tally_ok :: "Configuration \<Rightarrow> string \<Rightarrow> (int \<times> string \<times> string) set \<Rightarrow> 'sm RaftNode \<Rightarrow> bool" where
  "tally_ok C i bs n \<longleftrightarrow>
     (state n \<noteq> Follower \<longrightarrow> (\<forall>v. v |\<in>| votesReceived n \<longrightarrow> v |\<in>| Nodes C \<and> (currentTerm n, v, i) \<in> bs))"

abbreviation cast_by :: "string \<Rightarrow> (int \<times> string \<times> string) set \<Rightarrow> (int \<times> string) set" where
  "cast_by i bs \<equiv> {(T, c). (T, i, c) \<in> bs}"

abbreviation led_by :: "string \<Rightarrow> (int \<times> string) set \<Rightarrow> int set" where
  "led_by i el \<equiv> {T. (T, i) \<in> el}"

definition node_ok :: "Configuration \<Rightarrow> 'sm system \<Rightarrow> string \<Rightarrow> 'sm RaftNode \<Rightarrow> bool" where
  "node_ok C s i n \<longleftrightarrow> static C i n \<and> voter_ok i (cast_by i (ballots s)) (led_by i (elected s)) n \<and>
     tally_ok C i (ballots s) n \<and> (state n = Leader \<longrightarrow> (currentTerm n, i) \<in> elected s)"

definition has_quorum :: "Configuration \<Rightarrow> (int \<times> string \<times> string) set \<Rightarrow> int \<Rightarrow> string \<Rightarrow> bool" where
  "has_quorum C bs T i \<longleftrightarrow>
     (\<exists>Q. Q |\<subseteq>| Nodes C \<and> Quorum C \<le> fcard Q \<and> (\<forall>v. v |\<in>| Q \<longrightarrow> (T, v, i) \<in> bs))"

definition sys_inv :: "Configuration \<Rightarrow> 'sm system \<Rightarrow> bool" where
  "sys_inv C s \<longleftrightarrow>
     '''' |\<notin>| Nodes C \<and> fmdom (nodes (cluster s)) = Nodes C \<and>
     (\<forall>i n. node s i = Some n \<longrightarrow> node_ok C s i n) \<and>
     (\<forall>T i. (T, i) \<in> elected s \<longrightarrow> has_quorum C (ballots s) T i) \<and>
     (\<forall>T c v r. VoteGranted r \<longrightarrow> (T, c, v, r) \<in> set (replies s) \<longrightarrow> v |\<in>| Nodes C \<and> (T, v, c) \<in> ballots s) \<and>
     (\<forall>t req. (t, req) \<in> set (requests s) \<longrightarrow> CandidateID req \<noteq> '''')"

lemma has_quorum_mono: "has_quorum C bs T i \<Longrightarrow> bs \<subseteq> bs' \<Longrightarrow> has_quorum C bs' T i"
  by (auto simp: has_quorum_def)

lemma tally_ok_mono: "tally_ok C i bs n \<Longrightarrow> bs \<subseteq> bs' \<Longrightarrow> tally_ok C i bs' n"
  by (auto simp: tally_ok_def)

lemma voter_cong:
  "state n' = state n \<Longrightarrow> currentTerm n' = currentTerm n \<Longrightarrow> votedFor n' = votedFor n \<Longrightarrow>
   voter_ok i B E n' = voter_ok i B E n"
  by (simp add: voter_ok_def)

lemma voter_settles: "voter_ok i B E n \<Longrightarrow> settles C i n n' \<Longrightarrow> voter_ok i B E n'"
  unfolding settles_def
  by (elim conjE disjE) (fastforce simp: core_def voter_ok_def, fastforce simp: steps_down_def voter_ok_def)

lemma voter_grant:
  assumes "voter_ok i B E n" "votedFor n = '''' \<or> votedFor n = c" "state n \<noteq> Leader" "c \<noteq> ''''" "i \<noteq> ''''"
  shows "voter_ok i (insert (currentTerm n, c) B) E (resetElectionTimer (n\<lparr>votedFor := c\<rparr>))"
  using assms by (cases "state n") (fastforce simp: voter_ok_def)+

lemma voter_candidate:
  assumes "voter_ok i B E n" "i \<noteq> ''''" "currentTerm n' = currentTerm n + 1" "state n' = Candidate" "votedFor n' = i"
  shows "voter_ok i (insert (currentTerm n + 1, i) B) E n'"
  using assms by (fastforce simp: voter_ok_def)

lemma voter_win:
  assumes "voter_ok i B E n" "state n = Candidate" "currentTerm n' = currentTerm n" "state n' = Leader"
  shows "voter_ok i B (insert (currentTerm n) E) n'"
  using assms by (fastforce simp: voter_ok_def)

lemma put_inv:
  assumes inv: "sys_inv C s" and "node s i = Some n" "static C i n'" "bs \<supseteq> ballots s"
    and "\<And>T v c. (T, v, c) \<in> bs \<Longrightarrow> v \<noteq> i \<Longrightarrow> (T, v, c) \<in> ballots s"
    and "voter_ok i (cast_by i bs) (led_by i (elected (put i n' s))) n'" "tally_ok C i bs n'"
    and "state n' = Leader \<Longrightarrow> (currentTerm n', i) \<in> elected s \<or> Quorum C \<le> fcard (votesReceived n')"
  shows "sys_inv C ((put i n' s)\<lparr>ballots := bs\<rparr>)"
proof -
  have "node_ok C ((put i n' s)\<lparr>ballots := bs\<rparr>) j m" if "node (put i n' s) j = Some m" for j m
  proof (cases "j = i")
    case True
    then show ?thesis using assms that by (cases "state n' = Leader") (simp_all add: node_ok_def put_def)
  next
    case False
    then have "node_ok C s j m" using that inv by (simp add: sys_inv_def put_def)
    moreover have "cast_by j bs = cast_by j (ballots s)" "led_by j (elected (put i n' s)) = led_by j (elected s)"
      using False assms(4,5) by (auto simp: put_def)
    ultimately show ?thesis
      using tally_ok_mono [OF _ assms(4)] unfolding node_ok_def by (auto simp: put_def)
  qed
  moreover have "has_quorum C bs T j" if "(T, j) \<in> elected (put i n' s)" for T j
  proof (cases "(T, j) \<in> elected s")
    case True
    then show ?thesis using inv has_quorum_mono [OF _ assms(4)] by (simp add: sys_inv_def)
  next
    case False
    with that have "state n' = Leader" "T = currentTerm n'" "j = i" by (auto simp: put_def split: if_splits)
    with False assms(7,8) show ?thesis
      by (auto simp: has_quorum_def tally_ok_def intro!: exI [of _ "votesReceived n'"])
  qed
  moreover have "i |\<in>| Nodes C" using inv assms(2) by (auto simp: sys_inv_def intro: fmdomI)
  ultimately show ?thesis
    using inv assms(4) unfolding sys_inv_def by (auto simp: put_def)
qed

lemma put_settles:
  assumes "sys_inv C s" "node s i = Some n" "settles C i n n'"
  shows "sys_inv C (put i n' s)"
proof -
  have n: "node_ok C s i n" using assms(1,2) by (simp add: sys_inv_def)
  have led: "elected (put i n' s) = elected s"
    using assms(3) n by (auto simp: put_def settles_def steps_down_def core_def node_ok_def)
  have "tally_ok C i (ballots s) n'"
    using assms(3) n by (auto simp: settles_def steps_down_def core_def node_ok_def tally_ok_def)
  then have "sys_inv C ((put i n' s)\<lparr>ballots := ballots s\<rparr>)"
    using n assms(3) voter_settles [OF _ assms(3)]
    by (intro put_inv [OF assms(1,2)]) (auto simp: led node_ok_def settles_def core_def steps_down_def)
  then show ?thesis by (simp add: put_def)
qed

lemma checkElectionWin_outcome:
  assumes "static C i n" "state n = Candidate"
  shows "checkElectionWin n = n \<or>
    state (checkElectionWin n) = Leader \<and> Quorum C \<le> fcard (votesReceived n) \<and>
    currentTerm (checkElectionWin n) = currentTerm n \<and> votesReceived (checkElectionWin n) = votesReceived n \<and>
    static C i (checkElectionWin n)"
  using assms by (auto simp: checkElectionWin_def static_def win_def becomeLeader_def Let_def)

lemma tally_put:
  assumes "sys_inv C s" "node s i = Some n" "static C i n'" "state n' = Candidate" "bs \<supseteq> ballots s"
    and "\<And>T v c. (T, v, c) \<in> bs \<Longrightarrow> v \<noteq> i \<Longrightarrow> (T, v, c) \<in> ballots s"
    and "voter_ok i (cast_by i bs) (led_by i (elected s)) n'" "tally_ok C i bs n'"
  shows "sys_inv C ((put i (checkElectionWin n') s)\<lparr>ballots := bs\<rparr>)"
  using checkElectionWin_outcome [OF assms(3,4)]
proof
  assume "checkElectionWin n' = n'"
  then show ?thesis using assms(4,7,8) by (intro put_inv [OF assms(1,2) _ assms(5,6)]) (simp_all add: assms(3) put_def)
next
  let ?w = "checkElectionWin n'"
  assume w: "state ?w = Leader \<and> Quorum C \<le> fcard (votesReceived n') \<and> currentTerm ?w = currentTerm n' \<and>
    votesReceived ?w = votesReceived n' \<and> static C i ?w"
  then have "led_by i (elected (put i ?w s)) = insert (currentTerm n') (led_by i (elected s))"
    by (auto simp: put_def)
  with w assms(4,8) voter_win [OF assms(7,4), of ?w] show ?thesis
    by (intro put_inv [OF assms(1,2) _ assms(5,6)]) (simp_all add: tally_ok_def)
qed

lemma timeout_inv:
  assumes "sys_inv C s" "node s i = Some n"
  shows "sys_inv C ((put i (handleElectionTimeout n) s)\<lparr>ballots := (if state n = Leader \<or> \<not> running n then ballots s
           else insert (currentTerm (handleElectionTimeout n), i, i) (ballots s))\<rparr>)"
proof (cases "state n = Leader \<or> \<not> running n")
  case True
  have "static C i n" using assms by (simp add: sys_inv_def node_ok_def)
  with True put_settles [OF assms settlesI] show ?thesis by (simp add: handleElectionTimeout_def put_def)
next
  case False
  define n1 where "n1 = resetElectionTimer (n\<lparr>state := Candidate, currentTerm := currentTerm n + 1, votedFor := id n,
          votesReceived := {|id n|}, leaderID := ''''\<rparr>)"
  let ?bs = "insert (currentTerm n + 1, i, i) (ballots s)"
  have n: "node_ok C s i n" and i: "i |\<in>| Nodes C" "i \<noteq> ''''"
    using assms by (auto simp: sys_inv_def intro: fmdomI)
  then have n1: "state n1 = Candidate" "currentTerm n1 = currentTerm n + 1" "votedFor n1 = i" "static C i n1" "votesReceived n1 = {|i|}"
    by (auto simp: n1_def node_ok_def static_def)
  have h: "handleElectionTimeout n = checkElectionWin n1"
    using False by (simp add: handleElectionTimeout_def becomeCandidate_def n1_def)
  have t: "currentTerm (checkElectionWin n1) = currentTerm n + 1"
    using checkElectionWin_outcome [OF n1(4,1)] n1(2) by auto
  have "cast_by i ?bs = insert (currentTerm n + 1, i) (cast_by i (ballots s))" by auto
  then have "voter_ok i (cast_by i ?bs) (led_by i (elected s)) n1"
    using voter_candidate [OF _ i(2) n1(2,1,3)] n by (simp add: node_ok_def)
  then have "sys_inv C ((put i (checkElectionWin n1) s)\<lparr>ballots := ?bs\<rparr>)"
    using n1 i by (intro tally_put [OF assms]) (auto simp: tally_ok_def)
  with False show ?thesis by (simp add: h t)
qed

lemma vote_reply_inv:
  assumes "sys_inv C s" "node s i = Some n" "(t, i, voter, reply) \<in> set (replies s)"
    and "state n = Candidate \<longrightarrow> currentTerm n = t"
  shows "sys_inv C (put i (handleRequestVoteReply t voter reply n) s)"
proof -
  have n: "node_ok C s i n" using assms by (simp add: sys_inv_def)
  then have st: "static C i n" by (simp add: node_ok_def)
  define n1 where "n1 = (if VoteGranted reply then n\<lparr>votesReceived := finsert voter (votesReceived n)\<rparr> else n)"
  consider "handleRequestVoteReply t voter reply n = n"
    | "currentTerm n < rvrTerm reply" "handleRequestVoteReply t voter reply n = becomeFollower (rvrTerm reply) n"
    | "state n = Candidate" "handleRequestVoteReply t voter reply n = checkElectionWin n1"
    unfolding handleRequestVoteReply_def n1_def
    by (cases "state n = Candidate"; cases "currentTerm n < rvrTerm reply"; cases "rvrTerm reply < t") auto
  then show ?thesis
  proof cases
    case 3
    have v: "VoteGranted reply \<Longrightarrow> voter |\<in>| Nodes C \<and> (t, voter, i) \<in> ballots s"
      using assms(1,3) by (auto simp: sys_inv_def)
    have n1: "static C i n1" "state n1 = Candidate" "currentTerm n1 = currentTerm n" "votedFor n1 = votedFor n"
      using st 3(1) by (auto simp: n1_def static_def)
    have "voter_ok i (cast_by i (ballots s)) (led_by i (elected s)) n1"
      using n voter_cong [of n1 n] n1 3(1) by (simp add: node_ok_def)
    moreover have "tally_ok C i (ballots s) n1"
      using n v assms(4) 3(1) by (auto simp: n1_def node_ok_def tally_ok_def)
    ultimately have "sys_inv C ((put i (checkElectionWin n1) s)\<lparr>ballots := ballots s\<rparr>)"
      using n1 by (intro tally_put [OF assms(1,2)]) auto
    then show ?thesis by (simp add: 3(2) put_def)
  qed (auto intro!: put_settles [OF assms(1,2)] settlesI becomeFollower_settles st)
qed

lemma HandleRequestVote_outcome:
  assumes "static C i n" "HandleRequestVote req n = (reply, n')"
  shows "\<not> VoteGranted reply \<and> settles C i n n' \<or>
    VoteGranted reply \<and> rvrTerm reply = rvTerm req \<and>
    (\<exists>n1. settles C i n n1 \<and> n1 = observe_term (rvTerm req) n \<and> currentTerm n1 = rvTerm req \<and>
       (votedFor n1 = '''' \<or> votedFor n1 = CandidateID req) \<and>
       n' = resetElectionTimer (n1\<lparr>votedFor := CandidateID req\<rparr>))"
proof -
  define n1 where "n1 = observe_term (rvTerm req) n"
  have "settles C i n n1" unfolding n1_def by (intro settle_intros assms(1))
  moreover have "rvTerm req \<le> currentTerm n1" by (simp add: n1_def observe_term_def)
  ultimately show ?thesis
    using assms(2) unfolding HandleRequestVote_def Let_def n1_def [symmetric] by (auto split: if_splits)
qed

lemma vote_request_put:
  assumes "sys_inv C s" "node s i = Some n" "(i, req) \<in> set (requests s)" "HandleRequestVote req n = (reply, n')"
    and "\<not> (state n = Leader \<and> rvTerm req = currentTerm n)"
  shows "elected (put i n' s) = elected s \<and>
    sys_inv C ((put i n' s)\<lparr>ballots := (if VoteGranted reply then insert (rvrTerm reply, i, CandidateID req) (ballots s) else ballots s)\<rparr>)"
proof -
  have n: "node_ok C s i n" and i: "i \<noteq> ''''" and c: "CandidateID req \<noteq> ''''"
    using assms(1-3) by (auto simp: sys_inv_def intro: fmdomI)
  then have st: "static C i n" by (simp add: node_ok_def)
  consider (refused) "\<not> VoteGranted reply" "settles C i n n'"
    | (granted) n1 where "VoteGranted reply" "rvrTerm reply = rvTerm req" "settles C i n n1"
        "n1 = observe_term (rvTerm req) n" "currentTerm n1 = rvTerm req"
        "votedFor n1 = '''' \<or> votedFor n1 = CandidateID req" "n' = resetElectionTimer (n1\<lparr>votedFor := CandidateID req\<rparr>)"
    using HandleRequestVote_outcome [OF st assms(4)] by blast
  then show ?thesis
  proof cases
    case refused
    note set = this(2)
    moreover have "elected (put i n' s) = elected s"
      using set n by (auto simp: put_def settles_def steps_down_def core_def node_ok_def)
    ultimately show ?thesis using put_settles [OF assms(1,2) set] refused(1) by (simp add: put_def)
  next
    case granted
    note g = this(1,2) and n1 = this(3-)
    let ?bs = "insert (rvTerm req, i, CandidateID req) (ballots s)"
    have nl: "state n1 \<noteq> Leader" using n1(2,3) assms(5) by (auto simp: observe_term_def split: if_splits)
    then have led: "elected (put i n' s) = elected s" by (simp add: n1(5) put_def)
    have "voter_ok i (cast_by i (ballots s)) (led_by i (elected s)) n1"
      using n voter_settles [OF _ n1(1)] by (simp add: node_ok_def)
    from voter_grant [OF this n1(4) nl c i]
    have "voter_ok i (insert (rvTerm req, CandidateID req) (cast_by i (ballots s))) (led_by i (elected s)) n'"
      by (simp add: n1(3,5))
    moreover have "cast_by i ?bs = insert (rvTerm req, CandidateID req) (cast_by i (ballots s))" by auto
    moreover have "tally_ok C i ?bs n'"
      using n n1(1,5) nl by (auto simp: settles_def steps_down_def core_def node_ok_def tally_ok_def)
    moreover have "static C i n'" using n1(1,5) by (simp add: settles_def static_def)
    ultimately have "sys_inv C ((put i n' s)\<lparr>ballots := ?bs\<rparr>)"
      using nl n1(5) led by (intro put_inv [OF assms(1,2)]) (auto simp: led)
    with g led show ?thesis by simp
  qed
qed

lemma send_some:
  assumes "send h target c = (Inr reply, c')"
  obtains n n' where "fmlookup (nodes c) target = Some n" "h n = (reply, n')" "c' = c\<lparr>nodes := fmupd target n' (nodes c)\<rparr>"
  using assms by (auto simp: send_def getNode_def split: if_splits option.splits prod.splits)

lemma reply_inv:
  assumes "sys_inv C s" "VoteGranted r \<Longrightarrow> v |\<in>| Nodes C \<and> (T, v, c) \<in> ballots s"
  shows "sys_inv C (s\<lparr>replies := replies s @ [(T, c, v, r)]\<rparr>)"
  using assms by (auto simp: sys_inv_def node_ok_def)

lemma vote_request_inv:
  assumes "sys_inv C s" "ordinary C (VoteRequest target req) s" "sys_act M (VoteRequest target req) s = Some s'"
  shows "sys_inv C s'"
proof (cases "s' = s")
  case False
  with assms(3) obtain reply c where r: "(target, req) \<in> set (requests s)"
    and snd: "send (HandleRequestVote req) target (cluster s) = (Inr reply, c)"
    and s': "s' = s\<lparr>cluster := c, replies := replies s @ [(rvTerm req, CandidateID req, target, reply)],
      ballots := (if VoteGranted reply then insert (rvrTerm reply, target, CandidateID req) (ballots s) else ballots s)\<rparr>"
    by (auto simp: SendRequestVote_def split: if_splits prod.splits sum.splits)
  from snd obtain n n' where n: "node s target = Some n" "HandleRequestVote req n = (reply, n')"
    and c: "c = (cluster s)\<lparr>nodes := fmupd target n' (nodes (cluster s))\<rparr>"
    by (rule send_some)
  have ord: "\<not> (state n = Leader \<and> rvTerm req = currentTerm n)" using assms(2) n(1) by simp
  have st: "static C target n" "target |\<in>| Nodes C"
    using assms(1) n(1) by (auto simp: sys_inv_def node_ok_def intro: fmdomI)
  let ?t = "(put target n' s)\<lparr>ballots := (if VoteGranted reply then insert (rvrTerm reply, target, CandidateID req) (ballots s) else ballots s)\<rparr>"
  have "sys_inv C ?t" "elected (put target n' s) = elected s"
    using vote_request_put [OF assms(1) n(1) r n(2) ord] by auto
  moreover have "VoteGranted reply \<Longrightarrow> rvrTerm reply = rvTerm req"
    using HandleRequestVote_outcome [OF st(1) n(2)] by auto
  moreover have "s' = ?t\<lparr>replies := replies ?t @ [(rvTerm req, CandidateID req, target, reply)]\<rparr>"
    using \<open>elected (put target n' s) = elected s\<close> unfolding s' c by (simp add: put_def)
  ultimately show ?thesis using st(2) by (simp only:) (rule reply_inv, auto)
qed (use assms in simp)

text \<open>Starting and stopping touch neither the election nor the history.\<close>

lemma cluster_only_inv:
  assumes "sys_inv C s" "node s i = Some n" "static C i n'" "core n' = core n"
    "nodes c = fmupd i n' (nodes (cluster s))"
  shows "sys_inv C (s\<lparr>cluster := c\<rparr>)"
proof -
  have "elected (put i n' s) = elected s"
    using assms(1,2,4) by (auto simp: put_def core_def sys_inv_def node_ok_def)
  then have "sys_inv C (s\<lparr>cluster := c\<rparr>) = sys_inv C (put i n' s)"
    using assms(5) by (simp add: sys_inv_def node_ok_def put_def split del: if_split)
  with put_settles [OF assms(1,2) settlesI [OF assms(3,4)]] show ?thesis by simp
qed

lemma start_stop_inv:
  assumes "sys_inv C s" "start_node i (cluster s) = Some c \<or> stop_node i (cluster s) = Some c"
  shows "sys_inv C (s\<lparr>cluster := c\<rparr>)"
proof (cases "c = cluster s")
  case False
  from assms(2) obtain n where "node s i = Some n" by (auto simp: start_node_def stop_node_def split: option.splits)
  moreover from this False assms(2) obtain n' where "Start n = Some n' \<or> n' = Stop n" "nodes c = fmupd i n' (nodes (cluster s))"
    by (auto simp: start_node_def stop_node_def split: if_splits; metis)
  ultimately obtain n n' where n: "node s i = Some n" "Start n = Some n' \<or> n' = Stop n"
    "nodes c = fmupd i n' (nodes (cluster s))" by blast
  moreover have "static C i n" using assms(1) n(1) by (simp add: sys_inv_def node_ok_def)
  moreover from this have "static C i n'" "core n' = core n"
    using n(2) by (auto simp: Start_def Stop_def static_def core_def randomElectionTimeout_def nextRand_def Let_def split: if_splits)
  ultimately show ?thesis using cluster_only_inv [OF assms(1)] by blast
qed (use assms in simp)

theorem cluster_act_inv:
  assumes "sys_inv C s" "ordinary C a s" "sys_act M a s = Some s'"
  shows "sys_inv C s'"
proof (cases a)
  case (Timeout i)
  then show ?thesis using assms(1,3) timeout_inv [OF assms(1)] by (auto simp: Let_def)
next
  case (Campaign i)
  then show ?thesis
    using assms by (fastforce simp: sys_inv_def node_ok_def static_def startElection_def intro: fmdomI)
next
  case (VoteReply t candidate voter reply)
  then show ?thesis using assms(2,3) vote_reply_inv [OF assms(1)] by (auto split: if_splits)
next
  case (Local i x)
  then obtain n where n: "node s i = Some n" "s' = put i (node_op M x n) s" using assms(3) by auto
  then have "static C i n" using assms(1) by (simp add: sys_inv_def node_ok_def)
  with Local assms(2) n show ?thesis
    by (auto intro!: put_settles [OF assms(1)] node_op_settles)
next
  case (VoteRequest target req)
  then show ?thesis using assms vote_request_inv by blast
next
  case (StartNode i)
  then show ?thesis using assms(3) start_stop_inv [OF assms(1), of i] by auto
next
  case (StopNode i)
  then show ?thesis using assms(3) start_stop_inv [OF assms(1), of i] by auto
qed

lemma fold_fmupd_lookup:
  "fmlookup (fold (\<lambda>i. fmupd i (f i)) is m) j = (if j \<in> set is then Some (f j) else fmlookup m j)"
  by (induction "is" arbitrary: m) auto

lemma new_system_inv:
  assumes "NewCluster ids cf m0 now = Inr c" "'''' \<notin> set ids"
  shows "sys_inv (NewConfiguration ids) (new_system c)"
proof -
  have l: "fmlookup (nodes c) i = (if i \<in> set ids then Some (NewRaftNode i cf m0 ids now) else None)" for i
    using assms(1) by (auto simp: NewCluster_def fold_fmupd_lookup split: if_splits)
  then have "fmdom (nodes c) = Nodes (NewConfiguration ids)"
    by (auto simp: fset_eq_iff fmlookup_dom_iff NewConfiguration_def fset_of_list.rep_eq split: if_splits)
  with l assms(2) show ?thesis
    by (auto simp: sys_inv_def new_system_def node_ok_def static_def voter_ok_def tally_ok_def NewRaftNode_def
        appendEntry_def NewConfiguration_def fset_of_list.rep_eq split: if_splits)
qed

lemma reachable_sys_inv: "reachable_sys M C s0 s \<Longrightarrow> sys_inv C s0 \<Longrightarrow> sys_inv C s"
  by (induction rule: reachable_sys.induct) (auto intro: cluster_act_inv)

lemma quorums_meet:
  assumes "P |\<subseteq>| Nodes C" "Q |\<subseteq>| Nodes C" "Quorum C \<le> fcard P" "Quorum C \<le> fcard Q"
  obtains v where "v |\<in>| P" "v |\<in>| Q"
proof -
  have "fcard P + fcard Q = fcard (P |\<union>| Q) + fcard (P |\<inter>| Q)" by (rule fcard_funion_finter)
  moreover have "fcard (P |\<union>| Q) \<le> fcard (Nodes C)" using assms(1,2) by (intro fcard_mono) auto
  ultimately have "fcard (P |\<inter>| Q) \<noteq> 0" using assms(3,4) unfolding Quorum_def Size_def by linarith
  then have "P |\<inter>| Q \<noteq> {||}" by (metis fcard_fempty)
  with that show thesis by blast
qed

lemma one_leader_per_term:
  assumes "sys_inv C s" "(T, i) \<in> elected s" "(T, j) \<in> elected s"
  shows "i = j"
proof (rule ccontr)
  assume ne: "i \<noteq> j"
  from assms obtain P Q where q: "P |\<subseteq>| Nodes C" "Q |\<subseteq>| Nodes C" "Quorum C \<le> fcard P" "Quorum C \<le> fcard Q"
    and b: "\<And>v. v |\<in>| P \<Longrightarrow> (T, v, i) \<in> ballots s" "\<And>v. v |\<in>| Q \<Longrightarrow> (T, v, j) \<in> ballots s"
    unfolding sys_inv_def has_quorum_def by meson
  from q obtain v where v: "v |\<in>| P" "v |\<in>| Q" by (rule quorums_meet)
  then have "v |\<in>| fmdom (nodes (cluster s))" using q(1) assms(1) by (auto simp: sys_inv_def)
  then obtain n where "node s v = Some n" by (auto simp: fmlookup_dom_iff)
  then have "voter_ok v (cast_by v (ballots s)) (led_by v (elected s)) n"
    using assms(1) by (simp add: sys_inv_def node_ok_def)
  with ne b(1) [OF v(1)] b(2) [OF v(2)] have "(i = v \<or> j = v) \<and> (T, v) \<notin> elected s"
    by (auto simp: voter_ok_def)
  with assms(2,3) show False by auto
qed

subsection \<open>Election safety\<close>

text \<open>
  C31. Election safety of a cluster with fixed members, over all interleavings of timeouts, vote requests and
  replies, append requests, snapshots, proposals, starts and stops: at most one node ever becomes
  leader of a term, and no two nodes lead the same term at once. The schedules are those of \<open>ordinary\<close>:
  a vote request of a term is not delivered to that term's leader, and a vote reply is not handled by its
  candidate in a later candidacy.
\<close>

theorem election_safety:
  assumes "NewCluster ids cf m0 now = Inr c" "'''' \<notin> set ids"
    and "reachable_sys M (NewConfiguration ids) (new_system c) s"
  shows "((T, i) \<in> elected s \<and> (T, j) \<in> elected s \<longrightarrow> i = j) \<and>
    (node s i = Some m \<and> node s j = Some n \<and> state m = Leader \<and> state n = Leader \<and> currentTerm m = currentTerm n \<longrightarrow> i = j)"
proof -
  have inv: "sys_inv (NewConfiguration ids) s"
    using reachable_sys_inv [OF assms(3)] new_system_inv [OF assms(1,2)] by simp
  moreover have "(currentTerm m, i) \<in> elected s" if "node s i = Some m" "state m = Leader" for i m
    using inv that by (simp add: sys_inv_def node_ok_def)
  ultimately show ?thesis using one_leader_per_term by metis
qed

text \<open>A run of steps, each of which is an ordinary one, reaches its last state.\<close>

fun ordinary_run :: "'sm StateMachine \<Rightarrow> Configuration \<Rightarrow> act list \<Rightarrow> 'sm system \<Rightarrow> bool" where
  "ordinary_run M C [] s \<longleftrightarrow> True"
| "ordinary_run M C (a # as) s \<longleftrightarrow>
     ordinary C a s \<and> (case sys_act M a s of None \<Rightarrow> False | Some s' \<Rightarrow> ordinary_run M C as s')"

lemma ordinary_run_reachable:
  "ordinary_run M C as s \<Longrightarrow> sys_run M as s = Some s' \<Longrightarrow> reachable_sys M C s0 s \<Longrightarrow> reachable_sys M C s0 s'"
  by (induction as arbitrary: s) (auto split: option.splits intro: reachable_sys.step)

definition example_machine :: "unit StateMachine" where
  "example_machine = \<lparr>smApply = (\<lambda>_ u. (None, u)), smApplySnapshot = (\<lambda>_ u. (None, u)), smSnapshot = (\<lambda>_. Inr [])\<rparr>"

definition three_nodes :: "unit system" where
  "three_nodes = (case NewCluster [''a'', ''b'', ''c''] DefaultRaftConfig () 0 of
     Inr c \<Rightarrow> new_system c | Inl err \<Rightarrow> new_system \<lparr>nodes = fmempty, transport = NewMemoryTransport\<rparr>)"

definition vote_request :: "int \<Rightarrow> string \<Rightarrow> RequestVoteRequest" where
  "vote_request t candidate =
     \<lparr>rvTerm = t, CandidateID = candidate, LastLogIndex = 0, LastLogTerm = 0, IsConfig = False\<rparr>"

definition granted :: "int \<Rightarrow> RequestVoteReply" where
  "granted t = \<lparr>rvrTerm = t, VoteGranted = True\<rparr>"

definition a_wins :: "act list" where
  "a_wins = [StartNode ''a'', StartNode ''b'', StartNode ''c'', Timeout ''a'', Campaign ''a'',
     VoteRequest ''b'' (vote_request 1 ''a''), VoteReply 1 ''a'' ''b'' (granted 1)]"

lemma a_wins_run:
  "ordinary_run example_machine (NewConfiguration [''a'', ''b'', ''c'']) a_wins three_nodes"
  "map_option elected (sys_run example_machine a_wins three_nodes) = Some {(1, ''a'')}"
  by code_simp+

theorem election_safety_witness:
  "\<exists>c s. NewCluster [''a'', ''b'', ''c''] DefaultRaftConfig () 0 = Inr c \<and>
     reachable_sys example_machine (NewConfiguration [''a'', ''b'', ''c'']) (new_system c) s \<and>
     (1, ''a'') \<in> elected s \<and> (1, ''b'') \<notin> elected s"
proof -
  obtain c where c: "NewCluster [''a'', ''b'', ''c''] DefaultRaftConfig () 0 = Inr c" by (simp add: NewCluster_def)
  obtain s where s: "sys_run example_machine a_wins (new_system c) = Some s" "elected s = {(1, ''a'')}"
    using a_wins_run(2) by (auto simp: three_nodes_def c)
  have "reachable_sys example_machine (NewConfiguration [''a'', ''b'', ''c'']) (new_system c) s"
    using a_wins_run(1) s(1) by (intro ordinary_run_reachable [OF _ s(1) start]) (simp add: three_nodes_def c)
  from c this s(2) election_safety [OF c _ this, of 1 "''a''" "''b''"] show ?thesis by auto
qed

text \<open>
  Without the first condition: node \<open>a\<close>, elected in term 1 by \<open>b\<close>, has cleared its vote on becoming leader
  and, still leading, votes for the candidate \<open>c\<close> of the same term. Two nodes lead term 1.
\<close>

lemma leader_votes_again:
  "map_option (\<lambda>s. (elected s, map_option state (node s ''a''), map_option state (node s ''c'')))
     (sys_run example_machine
        (a_wins @ [Timeout ''c'', Campaign ''c'', VoteRequest ''a'' (vote_request 1 ''c''), VoteReply 1 ''c'' ''a'' (granted 1)])
        three_nodes) = Some ({(1, ''a''), (1, ''c'')}, Some Leader, Some Leader)"
  by code_simp

text \<open>
  Without the second: the vote \<open>b\<close> gave \<open>a\<close> in term 1 arrives when \<open>a\<close> is a candidate of term 2 and is counted there, while
  \<open>b\<close> votes for \<open>c\<close> in term 2. Two nodes lead term 2.
\<close>

lemma stale_vote_counted:
  "map_option (\<lambda>s. (elected s, map_option state (node s ''a''), map_option state (node s ''c'')))
     (sys_run example_machine
        [StartNode ''a'', StartNode ''b'', StartNode ''c'', Timeout ''a'', Campaign ''a'', VoteRequest ''b'' (vote_request 1 ''a''),
         Timeout ''a'', VoteReply 1 ''a'' ''b'' (granted 1), Timeout ''c'', Timeout ''c'', Campaign ''c'',
         VoteRequest ''b'' (vote_request 2 ''c''), VoteReply 2 ''c'' ''b'' (granted 2)]
        three_nodes) = Some ({(2, ''a''), (2, ''c'')}, Some Leader, Some Leader)"
  by code_simp

subsection \<open>Transfer of a snapshot\<close>


definition example_store :: store where
  "example_store = snd (mem_Apply example_entry NewMemoryStateMachine)"

definition example_encode :: "store \<Rightarrow> (string, string) result" where
  "example_encode m = (if mem_Get ''x'' m = (''x'', True) \<and> mem_Count m = 1 then Inr ''x'' else Inl ''unsupported'')"

definition example_decode :: "string \<Rightarrow> (string, store) result" where
  "example_decode d = (if d = ''x'' then Inr example_store else Inl ''unsupported'')"


end
