(* ===== verification/Wal.thy ===== *)
theory Wal
  imports Gobytes Gostrings
begin

unbundle bit_operations_syntax

section \<open>The write-ahead log (\<open>src/internal/wal/wal.go\<close>)\<close>

text \<open>
  Entries with a checksum, appended to segment files and scanned back. The directory of the log is a finite map
  from file names to contents; its subdirectories and the failures of opening, listing and closing
  files are not modelled, while a write may fail after some bytes and a sync may fail. A reader with its 64 KiB
  buffer is the rest of the file: \<open>Peek\<close> answers \<open>ErrBufferFull\<close> when more than the buffer is asked for.

  Shown: an entry decodes to itself and no entry with one changed byte outside the length field decodes; the log
  returns what was appended, also after a crash that cuts the active file anywhere. Three defects
  are evaluated at the end: a long entry makes the log unreadable, an entry appended after a torn one is invisible,
  and offsets start again at zero after an empty last segment.
\<close>

subsection \<open>Entries\<close>

datatype wal_error =
    ErrClosed | ErrInvalidOffset | ErrEmptyData | ErrInvalidConfig | ErrNilCallback
  | ErrOpenSegment int | ErrWrite | ErrFsync | ErrReadBufferFull | ErrCallback string

definition OpPut :: byte where "OpPut = 1"
definition OpDelete :: byte where "OpDelete = 2"
definition OpCheckpoint :: byte where "OpCheckpoint = 3"

definition op_String :: "byte \<Rightarrow> string" where
  "op_String t =
     (if t = OpPut then ''PUT'' else if t = OpDelete then ''DELETE'' else if t = OpCheckpoint then ''CHECKPOINT''
      else ''UNKNOWN('' @ show_nat (unat t) @ '')'')"

definition entryHeaderSize :: nat where "entryHeaderSize = 19"
definition magicNumber :: "16 word" where "magicNumber = 0x5741"

record Entry =
  Offset :: int
  Type :: byte
  Data :: "byte list"

datatype decode_error =
    TooShort nat | InvalidMagic "16 word" | UnexpectedEOF | ChecksumMismatch "32 word" "32 word"

record CorruptedEntryWarning =
  SegmentID :: int
  Position :: int
  Reason :: decode_error

definition checksumPayload :: "Entry \<Rightarrow> byte list" where
  "checksumPayload e =
     put_be 8 (word_of_int (Offset e) :: 64 word) @ [Type e] @ put_be 4 (word_of_nat (length (Data e)) :: 32 word) @ Data e"

definition encodeEntry :: "Entry \<Rightarrow> byte list" where
  "encodeEntry e = put_be 2 magicNumber @ put_be 4 (ChecksumIEEE (checksumPayload e)) @ checksumPayload e"

definition slice :: "nat \<Rightarrow> nat \<Rightarrow> 'a list \<Rightarrow> 'a list" where
  "slice a b xs = take (b - a) (drop a xs)"

definition decodeEntry :: "byte list \<Rightarrow> (decode_error, Entry \<times> nat) result" where
  "decodeEntry data =
     (if length data < entryHeaderSize then Inl (TooShort (length data))
      else let magic = get_be (slice 0 2 data)
      in if magic \<noteq> magicNumber then Inl (InvalidMagic magic)
      else let checksum = get_be (slice 2 6 data);
               dataLen = unat (get_be (slice 15 19 data) :: 32 word);
               totalLen = entryHeaderSize + dataLen
      in if length data < totalLen then Inl UnexpectedEOF
      else let payload = slice 6 14 data @ [data ! 14] @ slice 15 19 data @ slice 19 totalLen data;
               actualChecksum = ChecksumIEEE payload
      in if actualChecksum \<noteq> checksum then Inl (ChecksumMismatch checksum actualChecksum)
      else Inr (\<lparr>Offset = sint (get_be (slice 6 14 data) :: 64 word), Type = data ! 14, Data = slice 19 totalLen data\<rparr>,
                totalLen))"

subsection \<open>Segment files\<close>

type_synonym files = "(string, byte list) fmap"

definition show_08d :: "int \<Rightarrow> string" where
  "show_08d i =
     (if i < 0 then let ds = show_nat (nat (- i)) in ''-'' @ replicate (7 - length ds) CHR ''0'' @ ds
      else let ds = show_nat (nat i) in replicate (8 - length ds) CHR ''0'' @ ds)"

definition segmentFileName :: "int \<Rightarrow> string" where
  "segmentFileName i = ''wal_'' @ show_08d i @ ''.log''"

definition parseSegmentID :: "string \<Rightarrow> int option" where
  "parseSegmentID filename =
     (if \<not> HasPrefix filename ''wal_'' \<or> \<not> HasSuffix filename ''.log'' then None
      else Atoi (TrimPrefix (TrimSuffix filename ''.log'') ''wal_''))"

record segment =
  id :: int
  path :: string
  file_open :: bool
  size :: int
  startOffset :: int
  endOffset :: int

record Config =
  Dir :: string
  MaxSegmentSize :: int
  FSyncOnWrite :: bool

definition DefaultConfig :: Config where
  "DefaultConfig = \<lparr>Dir = ''./wal'', MaxSegmentSize = 64 * 1024 * 1024, FSyncOnWrite = False\<rparr>"

text \<open>\<open>activeSeg\<close> is the index of the active segment in \<open>segments\<close>.\<close>

record WAL =
  config :: Config
  segments :: "segment list"
  activeSeg :: nat
  nextOffset :: int
  closed :: bool

datatype read_error = EOF | ErrBufferFull

definition buffer_size :: nat where "buffer_size = 64 * 1024"

definition Peek :: "nat \<Rightarrow> byte list \<Rightarrow> byte list \<times> read_error option" where
  "Peek n rest =
     (if n > buffer_size then (take buffer_size rest, Some ErrBufferFull)
      else if length rest < n then (rest, Some EOF)
      else (take n rest, None))"

text \<open>The entry, the bytes advanced, the decoding and the reading error; and the reader after the call.\<close>

definition streamScanEntry ::
    "byte list \<Rightarrow> (Entry option \<times> nat \<times> decode_error option \<times> read_error option) \<times> byte list" where
  "streamScanEntry br =
     (let (headerPeek, err) = Peek entryHeaderSize br
      in if length headerPeek < entryHeaderSize
         then ((None, 0, None, Some (if err = Some EOF \<or> err = None then EOF else the err)), br)
      else let magic = get_be (slice 0 2 headerPeek)
      in if magic \<noteq> magicNumber then ((None, 1, Some (InvalidMagic magic), None), drop 1 br)
      else let dataLen = unat (get_be (slice 15 19 headerPeek) :: 32 word);
               totalLen = entryHeaderSize + dataLen;
               (fullPeek, err2) = Peek totalLen br
      in if length fullPeek < totalLen
         then ((None, 0, None, Some (if err2 = Some EOF \<or> err2 = None then EOF else the err2)), br)
      else case decodeEntry (take totalLen fullPeek) of
             Inl decodeErr \<Rightarrow> ((None, 1, Some decodeErr, None), drop 1 br)
           | Inr (entry, _) \<Rightarrow> ((Some entry, totalLen, None, None), drop totalLen br))"

lemma streamScanEntry_progress:
  "streamScanEntry br = ((entry, advanced, decodeErr, None), br') \<Longrightarrow> length br' < length br"
  by (auto simp: streamScanEntry_def Let_def Peek_def entryHeaderSize_def buffer_size_def
      split: prod.splits if_splits sum.splits)

function scan_offsets :: "byte list \<Rightarrow> int \<times> int \<Rightarrow> (wal_error, int \<times> int) result" where
  "scan_offsets br (firstOffset, lastOffset) =
     (case streamScanEntry br of
        ((entry, advanced, decodeErr, Some readErr), br') \<Rightarrow>
          if readErr = EOF then Inr (firstOffset, lastOffset) else Inl ErrReadBufferFull
      | ((entry, advanced, decodeErr, None), br') \<Rightarrow>
          scan_offsets br'
            (case entry of
               None \<Rightarrow> (firstOffset, lastOffset)
             | Some e \<Rightarrow> (if firstOffset = -1 then Offset e else firstOffset, Offset e)))"
  by pat_completeness auto
termination
  by (relation "measure (length \<circ> fst)") (auto dest: streamScanEntry_progress [OF sym])

definition scanSegmentOffsets :: "byte list \<Rightarrow> segment \<Rightarrow> (wal_error, segment) result" where
  "scanSegmentOffsets content seg =
     (case scan_offsets content (-1, -1) of
        Inl err \<Rightarrow> Inl err
      | Inr (firstOffset, lastOffset) \<Rightarrow> Inr (seg\<lparr>startOffset := firstOffset, endOffset := lastOffset\<rparr>))"

definition openSegment :: "files \<Rightarrow> int \<Rightarrow> (wal_error, segment) result" where
  "openSegment fs i =
     (case fmlookup fs (segmentFileName i) of
        None \<Rightarrow> Inl (ErrOpenSegment i)
      | Some content \<Rightarrow>
          let seg = \<lparr>id = i, path = segmentFileName i, file_open = False, size = int (length content),
                     startOffset = -1, endOffset = -1\<rparr>
          in if size seg > 0 then scanSegmentOffsets content seg else Inr seg)"

fun open_segments :: "files \<Rightarrow> int list \<Rightarrow> (wal_error, segment list) result" where
  "open_segments fs [] = Inr []"
| "open_segments fs (i # is) =
     (case openSegment fs i of
        Inl err \<Rightarrow> Inl err
      | Inr seg \<Rightarrow> (case open_segments fs is of Inl err \<Rightarrow> Inl err | Inr segs \<Rightarrow> Inr (seg # segs)))"

definition loadExistingSegments :: "files \<Rightarrow> (wal_error, segment list) result" where
  "loadExistingSegments fs =
     open_segments fs (sort (List.map_filter parseSegmentID (sorted_list_of_fset (fmdom fs))))"

text \<open>Creating a segment keeps the contents of a file that is already there.\<close>

definition createSegment :: "int \<Rightarrow> files \<times> WAL \<Rightarrow> files \<times> WAL" where
  "createSegment i s =
     (let (fs, w) = s;
          seg = \<lparr>id = i, path = segmentFileName i, file_open = True, size = 0, startOffset = -1, endOffset = -1\<rparr>
      in (if fmlookup fs (path seg) = None then fmupd (path seg) [] fs else fs,
          w\<lparr>segments := segments w @ [seg], activeSeg := length (segments w)\<rparr>))"

definition New :: "Config option \<Rightarrow> files \<Rightarrow> (wal_error, files \<times> WAL) result" where
  "New cfg fs =
     (let c0 = (case cfg of None \<Rightarrow> DefaultConfig | Some c \<Rightarrow> c);
          c = (if MaxSegmentSize c0 \<le> 0 then c0\<lparr>MaxSegmentSize := MaxSegmentSize DefaultConfig\<rparr> else c0)
      in if Dir c0 = '''' then Inl ErrInvalidConfig
      else case loadExistingSegments fs of
             Inl err \<Rightarrow> Inl err
           | Inr segs \<Rightarrow>
               let w = \<lparr>config = c, segments = segs, activeSeg = 0, nextOffset = 0, closed = False\<rparr>
               in if segs = [] then Inr (createSegment 1 (fs, w))
                  else let k = length segs - 1; lastSeg = segs ! k
                       in Inr (fs, w\<lparr>segments := segs[k := lastSeg\<lparr>file_open := True\<rparr>], activeSeg := k,
                                     nextOffset := (if endOffset lastSeg \<ge> 0 then endOffset lastSeg + 1 else 0)\<rparr>))"

subsection \<open>Appending\<close>

definition active :: "WAL \<Rightarrow> segment" where
  "active w = segments w ! activeSeg w"

definition rotateSegment :: "files \<times> WAL \<Rightarrow> files \<times> WAL" where
  "rotateSegment s =
     (let (fs, w) = s; seg = active w
      in createSegment (id seg + 1) (fs, w\<lparr>segments := (segments w)[activeSeg w := seg\<lparr>file_open := False\<rparr>]\<rparr>))"

text \<open>How the disk answers a write: it may fail after some bytes, and the sync may fail.\<close>

datatype disk = Written | WriteFails nat | SyncFails

definition write_file :: "string \<Rightarrow> byte list \<Rightarrow> files \<Rightarrow> files" where
  "write_file p bs fs = fmupd p ((case fmlookup fs p of None \<Rightarrow> [] | Some old \<Rightarrow> old) @ bs) fs"

definition Append :: "disk \<Rightarrow> byte \<Rightarrow> byte list \<Rightarrow> files \<times> WAL \<Rightarrow> (wal_error, int) result \<times> files \<times> WAL" where
  "Append d opType data s =
     (let (fs, w) = s
      in if closed w then (Inl ErrClosed, s)
      else if opType \<noteq> OpCheckpoint \<and> data = [] then (Inl ErrEmptyData, s)
      else
        let off = nextOffset w;
            encoded = encodeEntry \<lparr>Offset = off, Type = opType, Data = data\<rparr>;
            (fs1, w1) = (if MaxSegmentSize (config w) > 0 \<and> size (active w) + int (length encoded) > MaxSegmentSize (config w)
                         then rotateSegment s else s);
            seg = active w1
        in case d of
             WriteFails k \<Rightarrow> (Inl ErrWrite, write_file (path seg) (take k encoded) fs1, w1)
           | _ \<Rightarrow>
               let fs2 = write_file (path seg) encoded fs1
               in if FSyncOnWrite (config w1) \<and> d = SyncFails then (Inl ErrFsync, fs2, w1)
                  else (Inr off, fs2,
                        w1\<lparr>segments := (segments w1)[activeSeg w1 := seg\<lparr>size := size seg + int (length encoded),
                              startOffset := (if startOffset seg = -1 then off else startOffset seg), endOffset := off\<rparr>],
                           nextOffset := off + 1\<rparr>))"

subsection \<open>Reading and recovery\<close>

function readSegmentEntriesStream :: "byte list \<Rightarrow> int \<Rightarrow> (wal_error, Entry list) result" where
  "readSegmentEntriesStream br minOffset =
     (case streamScanEntry br of
        ((entry, advanced, decodeErr, Some readErr), br') \<Rightarrow> if readErr = EOF then Inr [] else Inl ErrReadBufferFull
      | ((entry, advanced, decodeErr, None), br') \<Rightarrow>
          (case readSegmentEntriesStream br' minOffset of
             Inl err \<Rightarrow> Inl err
           | Inr entries \<Rightarrow>
               Inr (case entry of None \<Rightarrow> entries | Some e \<Rightarrow> if Offset e \<ge> minOffset then e # entries else entries)))"
  by pat_completeness auto
termination
  by (relation "measure (length \<circ> fst)") (auto dest: streamScanEntry_progress [OF sym])

definition readSegmentEntries :: "files \<Rightarrow> segment \<Rightarrow> int \<Rightarrow> (wal_error, Entry list) result" where
  "readSegmentEntries fs seg minOffset =
     (case fmlookup fs (path seg) of
        None \<Rightarrow> Inl (ErrOpenSegment (id seg))
      | Some content \<Rightarrow> readSegmentEntriesStream content minOffset)"

fun read_segments :: "files \<Rightarrow> segment list \<Rightarrow> int \<Rightarrow> Entry list \<times> wal_error option" where
  "read_segments fs [] startOff = ([], None)"
| "read_segments fs (seg # segs) startOff =
     (case readSegmentEntries fs seg startOff of
        Inl err \<Rightarrow> ([], Some err)
      | Inr entries \<Rightarrow> (let (rest, err) = read_segments fs segs startOff in (entries @ rest, err)))"

text \<open>The first segment that can hold the offset; the loops begin at the first segment with its identifier.\<close>

definition read_start :: "int \<Rightarrow> segment \<Rightarrow> bool" where
  "read_start startOff seg \<longleftrightarrow> startOffset seg \<noteq> -1 \<and>
     (startOff \<ge> startOffset seg \<and> (endOffset seg = -1 \<or> startOff \<le> endOffset seg) \<or> startOff < startOffset seg)"

definition from_segment :: "segment \<Rightarrow> segment list \<Rightarrow> segment list" where
  "from_segment startSeg segs = dropWhile (\<lambda>seg. id seg \<noteq> id startSeg) segs"

definition ReadFrom :: "int \<Rightarrow> files \<times> WAL \<Rightarrow> Entry list \<times> wal_error option" where
  "ReadFrom startOff s =
     (let (fs, w) = s
      in if closed w then ([], Some ErrClosed)
      else if startOff < 0 then ([], Some ErrInvalidOffset)
      else case find (read_start startOff) (segments w) of
             None \<Rightarrow> ([], None)
           | Some startSeg \<Rightarrow> read_segments fs (from_segment startSeg (segments w)) startOff)"

text \<open>A callback is a state transformer that may fail.\<close>

type_synonym 's callback = "Entry \<Rightarrow> 's \<Rightarrow> string option \<times> 's"

function recoverSegmentStream ::
    "byte list \<Rightarrow> int \<Rightarrow> int \<Rightarrow> 's callback \<Rightarrow> int \<Rightarrow> 's \<Rightarrow> CorruptedEntryWarning list \<times> wal_error option \<times> 's" where
  "recoverSegmentStream br segID minOffset cb filePos st =
     (case streamScanEntry br of
        ((entry, advanced, decodeErr, Some readErr), br') \<Rightarrow>
          ([], if readErr = EOF then None else Some ErrReadBufferFull, st)
      | ((entry, advanced, decodeErr, None), br') \<Rightarrow>
          let ws = (case decodeErr of None \<Rightarrow> [] | Some r \<Rightarrow> [\<lparr>SegmentID = segID, Position = filePos, Reason = r\<rparr>]);
              (failed, st1) = (case entry of
                 None \<Rightarrow> (None, st)
               | Some e \<Rightarrow> if Offset e \<ge> minOffset then cb e st else (None, st))
          in case failed of
               Some err \<Rightarrow> (ws, Some (ErrCallback err), st1)
             | None \<Rightarrow>
                 let (ws', r, st2) = recoverSegmentStream br' segID minOffset cb (filePos + int advanced) st1
                 in (ws @ ws', r, st2))"
  by pat_completeness auto
termination
  by (relation "measure (length \<circ> fst)") (auto dest: streamScanEntry_progress [OF sym])

definition recoverSegment ::
    "files \<Rightarrow> segment \<Rightarrow> int \<Rightarrow> 's callback \<Rightarrow> 's \<Rightarrow> CorruptedEntryWarning list \<times> wal_error option \<times> 's" where
  "recoverSegment fs seg minOffset cb st =
     (case fmlookup fs (path seg) of
        None \<Rightarrow> ([], Some (ErrOpenSegment (id seg)), st)
      | Some content \<Rightarrow> recoverSegmentStream content (id seg) minOffset cb 0 st)"

fun recover_segments ::
    "files \<Rightarrow> segment list \<Rightarrow> int \<Rightarrow> 's callback \<Rightarrow> 's \<Rightarrow> CorruptedEntryWarning list \<times> wal_error option \<times> 's" where
  "recover_segments fs [] startOff cb st = ([], None, st)"
| "recover_segments fs (seg # segs) startOff cb st =
     (case recoverSegment fs seg startOff cb st of
        (ws, Some err, st1) \<Rightarrow> (ws, Some err, st1)
      | (ws, None, st1) \<Rightarrow> (let (ws', r, st2) = recover_segments fs segs startOff cb st1 in (ws @ ws', r, st2)))"

definition recover_start :: "int \<Rightarrow> segment \<Rightarrow> bool" where
  "recover_start startOff seg \<longleftrightarrow> startOffset seg \<noteq> -1 \<and>
     (startOff \<le> endOffset seg \<or> endOffset seg = -1 \<or> startOff < startOffset seg)"

definition RecoverFrom ::
    "int \<Rightarrow> 's callback option \<Rightarrow> files \<times> WAL \<Rightarrow> 's \<Rightarrow> CorruptedEntryWarning list \<times> wal_error option \<times> 's" where
  "RecoverFrom startOff callback s st =
     (let (fs, w) = s
      in if closed w then ([], Some ErrClosed, st)
      else if startOff < 0 then ([], Some ErrInvalidOffset, st)
      else case callback of
        None \<Rightarrow> ([], Some ErrNilCallback, st)
      | Some cb \<Rightarrow>
          (case find (recover_start startOff) (segments w) of
             None \<Rightarrow> ([], None, st)
           | Some startSeg \<Rightarrow> recover_segments fs (from_segment startSeg (segments w)) startOff cb st))"

definition Close :: "WAL \<Rightarrow> WAL" where
  "Close w = (if closed w then w else w\<lparr>closed := True, segments := map (\<lambda>seg. seg\<lparr>file_open := False\<rparr>) (segments w)\<rparr>)"

definition SegmentCount :: "WAL \<Rightarrow> nat" where
  "SegmentCount w = length (segments w)"

definition LastOffset :: "WAL \<Rightarrow> int" where
  "LastOffset w = (if nextOffset w = 0 then -1 else nextOffset w - 1)"

definition ActiveSegmentSize :: "WAL \<Rightarrow> int" where
  "ActiveSegmentSize w = size (active w)"

declare scan_offsets.simps [simp del] readSegmentEntriesStream.simps [simp del] recoverSegmentStream.simps [simp del]

subsection \<open>Decoding what was encoded\<close>

lemma slice_append: "length xs = a \<Longrightarrow> length ys = b - a \<Longrightarrow> slice a b (xs @ ys @ zs) = ys"
  by (simp add: slice_def)

lemma decode_parts:
  assumes "length m = 2" "length c = 4" "length o8 = 8" "length l = 4" "length d = unat (get_be l :: 32 word)"
  shows "decodeEntry (m @ c @ o8 @ [t] @ l @ d @ rest) =
    (if get_be m \<noteq> magicNumber then Inl (InvalidMagic (get_be m))
     else if ChecksumIEEE (o8 @ [t] @ l @ d) \<noteq> get_be c then Inl (ChecksumMismatch (get_be c) (ChecksumIEEE (o8 @ [t] @ l @ d)))
     else Inr (\<lparr>Offset = sint (get_be o8 :: 64 word), Type = t, Data = d\<rparr>, 19 + length d))"
proof -
  let ?x = "m @ c @ o8 @ [t] @ l @ d @ rest"
  have s: "slice 0 2 ?x = m" "slice 2 6 ?x = c" "slice 6 14 ?x = o8" "slice 15 19 ?x = l" "slice 19 (19 + length d) ?x = d"
    using assms slice_append [of "[]" 0 m 2 "c @ o8 @ [t] @ l @ d @ rest"] slice_append [of m 2 c 6 "o8 @ [t] @ l @ d @ rest"]
      slice_append [of "m @ c" 6 o8 14 "[t] @ l @ d @ rest"] slice_append [of "m @ c @ o8 @ [t]" 15 l 19 "d @ rest"]
      slice_append [of "m @ c @ o8 @ [t] @ l" 19 d "19 + length d" rest] by simp_all
  have t: "?x ! 14 = t" using assms by (simp add: nth_append)
  have n: "\<not> length ?x < 19 + length d" "\<not> length ?x < 19" using assms by simp_all
  show ?thesis
    using assms(5) unfolding decodeEntry_def entryHeaderSize_def Let_def s t using n assms(5) [symmetric]
    by (simp add: s t del: append.simps)
qed

definition entry_ok :: "Entry \<Rightarrow> bool" where
  "entry_ok e \<longleftrightarrow> - (2 ^ 63) \<le> Offset e \<and> Offset e < 2 ^ 63 \<and> length (Data e) < 2 ^ 32"

lemma length_encodeEntry [simp]: "length (encodeEntry e) = 19 + length (Data e)"
  by (simp add: encodeEntry_def checksumPayload_def)

lemma entry_length_field: "length (Data e) < 2 ^ 32 \<Longrightarrow> length (Data e) = unat (get_be (put_be 4 (word_of_nat (length (Data e)) :: 32 word)) :: 32 word)"
  by (simp add: unat_of_nat take_bit_nat_eq_self)

lemma decode_encode:
  assumes "entry_ok e"
  shows "decodeEntry (encodeEntry e @ rest) = Inr (e, 19 + length (Data e))"
proof -
  have "sint (word_of_int (Offset e) :: 64 word) = Offset e"
    using assms by (simp add: entry_ok_def sint_sbintrunc' signed_take_bit_int_eq_self)
  then show ?thesis
    using assms entry_length_field [of e] unfolding encodeEntry_def checksumPayload_def append.assoc
    by (subst decode_parts) (auto simp: entry_ok_def)
qed

lemma update_changes: "k < length xs \<Longrightarrow> b \<noteq> xs ! k \<Longrightarrow> xs[k := b] \<noteq> xs"
  by (metis nth_list_update_eq)

lemma checksum_detects_update:
  assumes "k < length xs" "b \<noteq> xs ! k"
  shows "ChecksumIEEE (xs[k := b]) \<noteq> ChecksumIEEE xs"
proof -
  have "xs[k := b] = take k xs @ b # drop (Suc k) xs" "xs = take k xs @ xs ! k # drop (Suc k) xs"
    using assms(1) by (simp_all add: upd_conv_take_nth_drop id_take_nth_drop)
  then show ?thesis using checksum_detects_byte [OF assms(2)] by metis
qed

text \<open>The payload as the decoder takes it apart, and an entry with its payload or its head changed.\<close>

lemma decode_payload:
  assumes "length m = 2" "length c = 4" "length p = length (checksumPayload e)" "length (Data e) < 2 ^ 32"
    and "slice 9 13 p = slice 9 13 (checksumPayload e)"
    and "get_be m \<noteq> magicNumber \<or> get_be c \<noteq> ChecksumIEEE p"
  shows "\<exists>err. decodeEntry (m @ c @ p) = Inl err"
proof -
  define o8 t l d where "o8 = take 8 p" and "t = p ! 8" and "l = slice 9 13 p" and "d = drop 13 p"
  have len: "length p = 13 + length (Data e)" using assms(3) by (simp add: checksumPayload_def)
  have a: "drop 8 p = p ! 8 # drop 9 p" using len Cons_nth_drop_Suc [of 8 p] by simp
  have b: "drop 9 p = slice 9 13 p @ drop 13 p" using append_take_drop_id [of 4 "drop 9 p"] by (simp add: slice_def)
  have p: "p = o8 @ [t] @ l @ d"
    using append_take_drop_id [of 8 p, unfolded a, unfolded b] by (simp add: o8_def t_def l_def d_def)
  have "slice 9 13 (checksumPayload e) = put_be 4 (word_of_nat (length (Data e)) :: 32 word)"
    unfolding checksumPayload_def append_assoc [symmetric]
    by (simp add: slice_def)
  then have "length d = unat (get_be l :: 32 word)" "length l = 4"
    using entry_length_field [OF assms(4)] len assms(5) by (simp_all add: l_def d_def)
  moreover have "length o8 = 8" using len by (simp add: o8_def)
  ultimately show ?thesis
    using decode_parts [OF assms(1,2), of o8 l d t "[]", unfolded append_Nil2 p [symmetric]] assms(6) by auto
qed

lemma slice_update: "k < a \<or> b \<le> k \<Longrightarrow> slice a b (xs[k := v]) = slice a b xs"
  by (auto simp: slice_def drop_update_cancel) (simp add: drop_take [symmetric] take_update_cancel)

lemma corrupted_entry_rejected:
  assumes "entry_ok e" "k < length (encodeEntry e)" "k < 15 \<or> 19 \<le> k" "b \<noteq> encodeEntry e ! k"
  shows "\<exists>err. decodeEntry ((encodeEntry e)[k := b]) = Inl err"
proof -
  let ?m = "put_be 2 magicNumber" and ?p = "checksumPayload e"
  let ?c = "put_be 4 (ChecksumIEEE ?p)"
  have dec: "\<exists>err. decodeEntry (m @ c @ p) = Inl err"
    if "length m = 2" "length c = 4" "length p = length ?p" "slice 9 13 p = slice 9 13 ?p"
      "get_be m \<noteq> magicNumber \<or> get_be c \<noteq> ChecksumIEEE p" for m c p
    using decode_payload [OF that(1-3) _ that(4,5)] assms(1) by (simp add: entry_ok_def)
  consider "k < 2" | "2 \<le> k" "k < 6" | "6 \<le> k" by linarith
  then show ?thesis
  proof cases
    case 1
    then have "?m[k := b] \<noteq> ?m" using assms(4) by (intro update_changes) (simp_all add: encodeEntry_def nth_append)
    then have "get_be (?m[k := b]) \<noteq> (get_be ?m :: 16 word)" using get_be_inj [of "?m[k := b]" ?m, where 'a = 16] by auto
    with 1 show ?thesis using dec [of "?m[k := b]" ?c ?p] by (simp add: encodeEntry_def list_update_append)
  next
    case 2
    then have k: "k - 2 < 4" by simp
    with 2 have "?c[k - 2 := b] \<noteq> ?c" using assms(4) by (intro update_changes) (simp_all add: encodeEntry_def nth_append)
    then have "get_be (?c[k - 2 := b]) \<noteq> (get_be ?c :: 32 word)" using get_be_inj [of "?c[k - 2 := b]" ?c, where 'a = 32] by auto
    with 2 k show ?thesis using dec [of ?m "?c[k - 2 := b]" ?p] by (simp add: encodeEntry_def list_update_append)
  next
    case 3
    then obtain j where k: "k = 6 + j" using le_Suc_ex by blast
    have enc: "encodeEntry e = (?m @ ?c) @ ?p" "length (?m @ ?c) = 6" by (simp_all add: encodeEntry_def)
    have "encodeEntry e ! k = ?p ! j" "(encodeEntry e)[k := b] = (?m @ ?c) @ ?p[j := b]" "j < length ?p"
      using enc assms(2) nth_append_length_plus [of "?m @ ?c" ?p j] by (simp_all only: k list_update_append) simp_all
    moreover from this have "ChecksumIEEE (?p[j := b]) \<noteq> ChecksumIEEE ?p"
      using assms(4) by (intro checksum_detects_update) simp_all
    moreover have "slice 9 13 (?p[j := b]) = slice 9 13 ?p" using k assms(3) by (intro slice_update) auto
    ultimately show ?thesis using dec [of ?m ?c "?p[j := b]"] by simp
  qed
qed

subsection \<open>Scanning whole files\<close>

definition encodeAll :: "Entry list \<Rightarrow> byte list" where
  "encodeAll es = concat (map encodeEntry es)"

text \<open>An entry that fits the reader's buffer.\<close>

definition fits :: "Entry \<Rightarrow> bool" where
  "fits e \<longleftrightarrow> 0 \<le> Offset e \<and> Offset e < 2 ^ 63 \<and> 19 + length (Data e) \<le> buffer_size"

lemma fits_ok: "fits e \<Longrightarrow> entry_ok e"
  by (simp add: fits_def entry_ok_def buffer_size_def)

lemma encodeEntry_header:
  assumes "entry_ok e"
  shows "slice 0 2 (take 19 (encodeEntry e @ rest)) = put_be 2 magicNumber"
    "unat (get_be (slice 15 19 (take 19 (encodeEntry e @ rest))) :: 32 word) = length (Data e)"
proof -
  have h: "take 19 (encodeEntry e @ rest) = put_be 2 magicNumber @ put_be 4 (ChecksumIEEE (checksumPayload e)) @
      put_be 8 (word_of_int (Offset e) :: 64 word) @ [Type e] @ put_be 4 (word_of_nat (length (Data e)) :: 32 word)"
    by (simp add: encodeEntry_def checksumPayload_def)
  show "slice 0 2 (take 19 (encodeEntry e @ rest)) = put_be 2 magicNumber" unfolding h by (simp add: slice_def)
  have "slice 15 19 (take 19 (encodeEntry e @ rest)) = put_be 4 (word_of_nat (length (Data e)) :: 32 word)"
    unfolding h append_assoc [symmetric] by (simp add: slice_def)
  then show "unat (get_be (slice 15 19 (take 19 (encodeEntry e @ rest))) :: 32 word) = length (Data e)"
    using entry_length_field [of e] assms by (simp add: entry_ok_def)
qed

lemma scan_entry:
  assumes "fits e"
  shows "streamScanEntry (encodeEntry e @ rest) = ((Some e, 19 + length (Data e), None, None), rest)"
proof -
  have ok: "entry_ok e" by (rule fits_ok [OF assms])
  have p1: "Peek entryHeaderSize (encodeEntry e @ rest) = (take 19 (encodeEntry e @ rest), None)"
    by (simp add: Peek_def entryHeaderSize_def buffer_size_def)
  have p2: "Peek (19 + length (Data e)) (encodeEntry e @ rest) = (encodeEntry e, None)"
    using assms by (simp add: Peek_def fits_def)
  show ?thesis
    unfolding streamScanEntry_def p1 Let_def split
    using decode_encode [OF ok, of "[]"] encodeEntry_header [OF ok, of rest] p2
    by (simp add: entryHeaderSize_def)
qed

text \<open>A proper prefix of an entry ends the scan.\<close>

lemma scan_torn:
  assumes "fits e" "k < length (encodeEntry e)"
  shows "streamScanEntry (take k (encodeEntry e)) = ((None, 0, None, Some EOF), take k (encodeEntry e))"
proof (cases "k < 19")
  case True
  then show ?thesis by (simp add: streamScanEntry_def Peek_def entryHeaderSize_def buffer_size_def Let_def)
next
  case False
  have ok: "entry_ok e" by (rule fits_ok [OF assms(1)])
  have "take 19 (take k (encodeEntry e)) = take 19 (encodeEntry e @ [])" using False by (simp add: min_def)
  then have p1: "Peek entryHeaderSize (take k (encodeEntry e)) = (take 19 (encodeEntry e @ []), None)"
    using False assms(2) by (simp add: Peek_def entryHeaderSize_def buffer_size_def)
  have p2: "Peek (19 + length (Data e)) (take k (encodeEntry e)) = (take k (encodeEntry e), Some EOF)"
    using assms by (simp add: Peek_def fits_def)
  show ?thesis
    unfolding streamScanEntry_def p1 Let_def split
    using encodeEntry_header [OF ok, of "[]"] p2 assms(2) by (simp add: entryHeaderSize_def)
qed

definition torn :: "byte list \<Rightarrow> bool" where
  "torn t \<longleftrightarrow> (\<exists>e k. fits e \<and> k < length (encodeEntry e) \<and> t = take k (encodeEntry e))"

lemma torn_Nil [simp]: "torn []"
proof -
  have "fits \<lparr>Offset = 0, Type = 1, Data = []\<rparr>" by (simp add: fits_def buffer_size_def)
  moreover have "[] = take 0 (encodeEntry \<lparr>Offset = 0, Type = 1, Data = []\<rparr>)" by simp
  ultimately show ?thesis unfolding torn_def by (metis length_encodeEntry add_is_0 neq0_conv zero_neq_numeral)
qed

lemma scan_end: "torn t \<Longrightarrow> streamScanEntry t = ((None, 0, None, Some EOF), t)"
  by (auto simp: torn_def scan_torn)

lemma encodeAll_simps [simp]:
  "encodeAll [] = []" "encodeAll (e # es) = encodeEntry e @ encodeAll es" "encodeAll (es @ es') = encodeAll es @ encodeAll es'"
  by (simp_all add: encodeAll_def)

lemma read_stream:
  "list_all fits es \<Longrightarrow> torn t \<Longrightarrow>
   readSegmentEntriesStream (encodeAll es @ t) m = Inr (filter (\<lambda>e. m \<le> Offset e) es)"
proof (induction es)
  case Nil
  then show ?case by (subst readSegmentEntriesStream.simps) (simp add: scan_end)
next
  case (Cons e es)
  then show ?case by (subst readSegmentEntriesStream.simps) (simp add: scan_entry)
qed

lemma scan_offsets_stream:
  "list_all fits es \<Longrightarrow> torn t \<Longrightarrow>
   scan_offsets (encodeAll es @ t) (f, l) =
     Inr (if es = [] then (f, l) else (if f = -1 then Offset (hd es) else f, Offset (last es)))"
proof (induction es arbitrary: f l)
  case Nil
  then show ?case by (subst scan_offsets.simps) (simp add: scan_end)
next
  case (Cons e es)
  then have "Offset e \<noteq> -1" by (simp add: fits_def)
  with Cons show ?case by (subst scan_offsets.simps) (auto simp: scan_entry)
qed

text \<open>The callback on a list of entries, up to its first failure.\<close>

fun feed :: "'s callback \<Rightarrow> Entry list \<Rightarrow> 's \<Rightarrow> wal_error option \<times> 's" where
  "feed cb [] st = (None, st)"
| "feed cb (e # es) st =
     (case cb e st of (None, st') \<Rightarrow> feed cb es st' | (Some err, st') \<Rightarrow> (Some (ErrCallback err), st'))"

lemma feed_append:
  "feed cb (es @ es') st = (case feed cb es st of (None, st') \<Rightarrow> feed cb es' st' | (Some err, st') \<Rightarrow> (Some err, st'))"
  by (induction es arbitrary: st) (auto split: prod.splits option.splits)

lemma recover_stream:
  "list_all fits es \<Longrightarrow> torn t \<Longrightarrow>
   recoverSegmentStream (encodeAll es @ t) i m cb pos st = ([], feed cb (filter (\<lambda>e. m \<le> Offset e) es) st)"
proof (induction es arbitrary: pos st)
  case Nil
  then show ?case by (subst recoverSegmentStream.simps) (simp add: scan_end)
next
  case (Cons e es)
  then show ?case
    by (subst recoverSegmentStream.simps) (auto simp: scan_entry Let_def split: prod.splits option.splits)
qed

subsection \<open>File names\<close>

lemma read_nat_zeros: "read_nat (replicate k CHR ''0'' @ ds) = read_nat ds"
  by (induction k) (simp_all add: read_nat_def digit_value_def)

lemma affixes:
  "HasPrefix (p @ b @ q) p" "HasSuffix (p @ b @ q) q" "TrimPrefix (TrimSuffix (p @ b @ q) q) p = b"
  using HasSuffix_append [of "p @ b" q] TrimSuffix_append [of "p @ b" q] by simp_all

lemma parse_segmentFileName:
  assumes "0 \<le> i" "i < 2 ^ 63"
  shows "parseSegmentID (segmentFileName i) = Some i"
proof -
  let ?z = "replicate (8 - length (show_nat (nat i))) CHR ''0''"
  have ds: "list_all is_digit (?z @ show_nat (nat i))" "?z @ show_nat (nat i) \<noteq> []"
    using show_nat_digits [of "nat i"] by (auto simp: list_all_iff is_digit_def)
  then obtain c cs where c: "?z @ show_nat (nat i) = c # cs" "is_digit c" by (cases "?z @ show_nat (nat i)") auto
  then have "c \<noteq> CHR ''-''" "c \<noteq> CHR ''+''" by (auto simp: is_digit_def)
  moreover have "read_nat (c # cs) = nat i" unfolding c(1) [symmetric] by (simp add: read_nat_zeros)
  ultimately have "Atoi (?z @ show_nat (nat i)) = Some i" using assms ds unfolding c(1) by (simp add: Atoi_def)
  moreover have "segmentFileName i = ''wal_'' @ (?z @ show_nat (nat i)) @ ''.log''"
    using assms by (simp add: segmentFileName_def show_08d_def Let_def)
  ultimately show ?thesis
    unfolding parseSegmentID_def by (simp only: affixes not_True_eq_False if_False simp_thms)
qed

subsection \<open>The log in the files\<close>

definition stored :: "files \<Rightarrow> segment \<Rightarrow> Entry list \<Rightarrow> bool" where
  "stored fs seg es \<longleftrightarrow>
     path seg = segmentFileName (id seg) \<and>
     (\<exists>t. torn t \<and> fmlookup fs (path seg) = Some (encodeAll es @ t)) \<and>
     startOffset seg = (if es = [] then -1 else Offset (hd es)) \<and>
     endOffset seg = (if es = [] then -1 else Offset (last es)) \<and>
     list_all fits es \<and> sorted (map Offset es)"

lemma read_segments_stored:
  "list_all2 (stored fs) segs ess \<Longrightarrow>
   read_segments fs segs m = (filter (\<lambda>e. m \<le> Offset e) (concat ess), None)"
  by (induction segs ess rule: list_all2_induct) (auto simp: readSegmentEntries_def stored_def read_stream)

lemma recover_segments_stored:
  "list_all2 (stored fs) segs ess \<Longrightarrow>
   recover_segments fs segs m cb st = ([], feed cb (filter (\<lambda>e. m \<le> Offset e) (concat ess)) st)"
  by (induction segs ess arbitrary: st rule: list_all2_induct)
    (auto simp: recoverSegment_def stored_def recover_stream feed_append split: prod.splits option.splits)

lemma stored_range:
  assumes "stored fs seg es" "e \<in> set es"
  shows "startOffset seg \<le> Offset e \<and> Offset e \<le> endOffset seg \<and> startOffset seg \<noteq> -1"
proof -
  have "sorted (map Offset es)" "es \<noteq> []" using assms by (auto simp: stored_def)
  then have "Offset (hd es) \<le> Offset e \<and> Offset e \<le> Offset (last es)"
    using assms(2) by (induction es) (auto simp: sorted_append)
  moreover have "0 \<le> Offset (hd es)" using assms \<open>es \<noteq> []\<close> by (auto simp: stored_def list_all_iff fits_def)
  ultimately show ?thesis using assms(1) \<open>es \<noteq> []\<close> by (simp add: stored_def)
qed

lemma skipped_segment:
  assumes "stored fs seg es" "\<not> read_start m seg \<or> \<not> recover_start m seg"
  shows "filter (\<lambda>e. m \<le> Offset e) es = []"
  using assms(2) stored_range [OF assms(1)] by (force simp: filter_empty_conv read_start_def recover_start_def)

lemma skip_segments:
  assumes "list_all2 (stored fs) segs ess" "distinct (map id segs)"
    and "\<And>seg es. stored fs seg es \<Longrightarrow> \<not> P seg \<Longrightarrow> filter Q es = []"
  shows "case find P segs of
      None \<Rightarrow> filter Q (concat ess) = []
    | Some s \<Rightarrow> \<exists>ess'. list_all2 (stored fs) (from_segment s segs) ess' \<and> filter Q (concat ess') = filter Q (concat ess)"
  using assms(1,2)
proof (induction segs ess rule: list_all2_induct)
  case (Cons seg segs es ess)
  show ?case
  proof (cases "P seg")
    case True
    then show ?thesis using Cons.hyps by (auto simp: from_segment_def intro!: exI [of _ "es # ess"])
  next
    case False
    have "s \<in> set segs" if "find P segs = Some s" for s using that by (auto simp: find_Some_iff)
    then have "id seg \<noteq> id s" if "find P segs = Some s" for s using that Cons.prems by auto
    with False show ?thesis
      using Cons.IH Cons.prems assms(3) [OF Cons.hyps(1) False] by (auto simp: from_segment_def split: option.splits)
  qed
qed simp

lemma ReadFrom_stored:
  assumes "list_all2 (stored fs) (segments w) ess" "distinct (map id (segments w))" "\<not> closed w" "0 \<le> m"
  shows "ReadFrom m (fs, w) = (filter (\<lambda>e. m \<le> Offset e) (concat ess), None)"
  using skip_segments [OF assms(1,2), of "read_start m" "\<lambda>e. m \<le> Offset e"] skipped_segment assms(3,4)
  by (auto simp: ReadFrom_def read_segments_stored split: option.splits)

lemma RecoverFrom_stored:
  assumes "list_all2 (stored fs) (segments w) ess" "distinct (map id (segments w))" "\<not> closed w" "0 \<le> m"
  shows "RecoverFrom m (Some cb) (fs, w) st = ([], feed cb (filter (\<lambda>e. m \<le> Offset e) (concat ess)) st)"
  using skip_segments [OF assms(1,2), of "recover_start m" "\<lambda>e. m \<le> Offset e"] skipped_segment assms(3,4)
  by (auto simp: RecoverFrom_def recover_segments_stored split: option.splits)

text \<open>Entries numbered from zero.\<close>

definition numbered_entries :: "Entry list \<Rightarrow> bool" where
  "numbered_entries es \<longleftrightarrow> map Offset es = map int [0..<length es]"

lemma numbered_nth: "numbered_entries es \<Longrightarrow> k < length es \<Longrightarrow> Offset (es ! k) = int k"
  unfolding numbered_entries_def by (drule arg_cong [of _ _ "\<lambda>l. l ! k"]) simp

lemma numbered_snoc:
  "numbered_entries (es @ [e]) \<longleftrightarrow> numbered_entries es \<and> Offset e = int (length es)"
  by (auto simp: numbered_entries_def)

lemma numbered_prefix: "numbered_entries (xs @ ys) \<Longrightarrow> numbered_entries xs"
  by (induction ys rule: rev_induct) (auto simp: numbered_snoc simp flip: append_assoc)

lemma filter_numbered:
  assumes "numbered_entries es" "0 \<le> m"
  shows "filter (\<lambda>e. m \<le> Offset e) es = drop (nat m) es"
  using assms(1)
proof (induction es rule: rev_induct)
  case (snoc e es)
  then show ?case using assms(2) by (auto simp: numbered_snoc)
qed simp

definition names_ok :: "files \<Rightarrow> nat \<Rightarrow> bool" where
  "names_ok fs n \<longleftrightarrow>
     (\<forall>f. f |\<in>| fmdom fs \<longrightarrow> parseSegmentID f \<noteq> None \<longrightarrow> (\<exists>i. 1 \<le> i \<and> i \<le> int n \<and> f = segmentFileName i))"

definition log_inv :: "files \<times> WAL \<Rightarrow> Entry list list \<Rightarrow> bool" where
  "log_inv s ess \<longleftrightarrow> (case s of (fs, w) \<Rightarrow>
     ess \<noteq> [] \<and> int (length ess) < 2 ^ 63 \<and> list_all2 (stored fs) (segments w) ess \<and>
     map id (segments w) = [1..int (length ess)] \<and> activeSeg w = length ess - 1 \<and>
     numbered_entries (concat ess) \<and> nextOffset w = int (length (concat ess)) \<and> \<not> closed w \<and> names_ok fs (length ess))"

definition clean :: "files \<times> WAL \<Rightarrow> Entry list list \<Rightarrow> bool" where
  "clean s ess \<longleftrightarrow> (case s of (fs, w) \<Rightarrow> fmlookup fs (path (active w)) = Some (encodeAll (last ess)))"

lemma segment_ids:
  assumes "map id segs = [1..int n]" "k < length segs"
  shows "id (segs ! k) = int k + 1" "length segs = n"
proof -
  show n: "length segs = n" using arg_cong [OF assms(1), of length] by simp
  have "map id segs ! k = [1..int n] ! k" using assms(1) by simp
  then show "id (segs ! k) = int k + 1" using assms(2) n by (simp add: nth_upto)
qed

lemma segmentFileName_inj:
  "0 \<le> i \<Longrightarrow> i < 2 ^ 63 \<Longrightarrow> 0 \<le> j \<Longrightarrow> j < 2 ^ 63 \<Longrightarrow> segmentFileName i = segmentFileName j \<Longrightarrow> i = j"
  by (metis option.inject parse_segmentFileName)

lemma stored_other:
  "stored fs seg es \<Longrightarrow> path seg \<noteq> p \<Longrightarrow> stored (fmupd p c fs) seg es"
  by (auto simp: stored_def)

lemma log_inv_paths:
  assumes "log_inv (fs, w) ess" "k < length ess" "1 \<le> j" "j < 2 ^ 63" "j \<noteq> int k + 1"
  shows "path (segments w ! k) \<noteq> segmentFileName j"
proof -
  have "length (segments w) = length ess" "stored fs (segments w ! k) (ess ! k)"
    using assms(1,2) by (auto simp: log_inv_def list_all2_conv_all_nth)
  then have p: "path (segments w ! k) = segmentFileName (int k + 1)"
    using assms(1,2) segment_ids(1) [of "segments w" "length ess" k] by (simp add: log_inv_def stored_def)
  have "int k + 1 < 2 ^ 63" using assms(1,2) by (simp add: log_inv_def)
  with p segmentFileName_inj [of "int k + 1" j] assms(3-5) show ?thesis by auto
qed

lemma names_ok_upd:
  assumes "names_ok fs n" "1 \<le> i" "i \<le> int m" "n \<le> m"
  shows "names_ok (fmupd (segmentFileName i) c fs) m"
  unfolding names_ok_def
proof (intro allI impI)
  fix f assume f: "f |\<in>| fmdom (fmupd (segmentFileName i) c fs)" "parseSegmentID f \<noteq> None"
  show "\<exists>j. 1 \<le> j \<and> j \<le> int m \<and> f = segmentFileName j"
  proof (cases "f = segmentFileName i")
    case False
    then obtain j where "1 \<le> j" "j \<le> int n" "f = segmentFileName j" using f assms(1) by (auto simp: names_ok_def)
    then show ?thesis using assms(4) by (intro exI [of _ j]) simp
  qed (use assms in blast)
qed

lemma map_update_same: "f y = f (xs ! k) \<Longrightarrow> map f (xs[k := y]) = map f xs"
  by (metis list_update_id map_update)

text \<open>Rotation adds an empty segment.\<close>

lemma rotate_inv:
  assumes "log_inv (fs, w) ess" "int (length ess) + 1 < 2 ^ 63"
  shows "log_inv (rotateSegment (fs, w)) (ess @ [[]]) \<and> clean (rotateSegment (fs, w)) (ess @ [[]]) \<and>
    config (snd (rotateSegment (fs, w))) = config w \<and> nextOffset (snd (rotateSegment (fs, w))) = nextOffset w"
proof -
  define n where "n = length ess"
  have inv: "ess \<noteq> []" "list_all2 (stored fs) (segments w) ess" "map id (segments w) = [1..int n]" "activeSeg w = n - 1"
    "length (segments w) = n" "names_ok fs n"
    using assms(1) by (auto simp: log_inv_def n_def list_all2_lengthD)
  have act: "id (active w) = int n"
    using segment_ids(1) [OF inv(3), of "n - 1"] inv(1,4,5) by (cases ess) (simp_all add: active_def n_def)
  let ?p = "segmentFileName (int n + 1)"
  have new: "fmlookup fs ?p = None"
  proof (rule ccontr)
    assume "fmlookup fs ?p \<noteq> None"
    then obtain i where "1 \<le> i" "i \<le> int n" "?p = segmentFileName i"
      using inv(6) parse_segmentFileName [of "int n + 1"] assms(2) by (auto simp: names_ok_def n_def fmlookup_dom_iff)
    then show False using segmentFileName_inj [of "int n + 1" i] assms(2) by (simp add: n_def)
  qed
  let ?a = "active w\<lparr>file_open := False\<rparr>"
  let ?seg = "\<lparr>id = int n + 1, path = ?p, file_open = True, size = 0, startOffset = -1, endOffset = -1\<rparr>"
  have r: "rotateSegment (fs, w) = (fmupd ?p [] fs, w\<lparr>segments := (segments w)[n - 1 := ?a] @ [?seg], activeSeg := n\<rparr>)"
    using new inv(4,5) act by (simp add: rotateSegment_def createSegment_def Let_def)
  have st: "stored (fmupd ?p [] fs) ((segments w)[n - 1 := ?a] ! k) (ess ! k)" if "k < n" for k
  proof -
    have "stored fs (segments w ! k) (ess ! k)" using inv(2) that by (simp add: list_all2_conv_all_nth n_def)
    moreover have "path (segments w ! k) \<noteq> ?p"
      using log_inv_paths [OF assms(1), of k "int n + 1"] that assms(2) by (simp add: n_def)
    ultimately have "stored (fmupd ?p [] fs) (segments w ! k) (ess ! k)" by (rule stored_other)
    then show ?thesis using that inv(4,5) by (auto simp: nth_list_update active_def stored_def)
  qed
  have "list_all2 (stored (fmupd ?p [] fs)) ((segments w)[n - 1 := ?a] @ [?seg]) (ess @ [[]])"
  proof (rule list_all2_appendI)
    show "list_all2 (stored (fmupd ?p [] fs)) ((segments w)[n - 1 := ?a]) ess"
      using st inv(5) by (simp add: list_all2_conv_all_nth n_def)
    have "fmlookup (fmupd ?p [] fs) ?p = Some (encodeAll [] @ [])" by simp
    then show "list_all2 (stored (fmupd ?p [] fs)) [?seg] [[]]" by (simp add: stored_def)
  qed
  moreover have "map id ((segments w)[n - 1 := ?a] @ [?seg]) = [1..int (length (ess @ [[]]))]"
  proof -
    have "map id ((segments w)[n - 1 := ?a]) = map id (segments w)"
      using inv(4) by (intro map_update_same) (simp add: active_def)
    then show ?thesis using inv(3) by (simp add: n_def upto_rec2 add.commute)
  qed
  moreover have "names_ok (fmupd ?p [] fs) (length (ess @ [[]]))"
    using inv(6) by (intro names_ok_upd [of _ n]) (simp_all add: n_def)
  ultimately show ?thesis
    using assms inv(5) unfolding r by (simp add: log_inv_def clean_def active_def nth_append n_def)
qed

lemma last_entry_offset:
  assumes "numbered_entries (concat (ess @ [es]))" "Offset e = int (length (concat (ess @ [es])))" "sorted (map Offset es)"
  shows "sorted (map Offset (es @ [e]))"
proof -
  have "Offset x \<le> Offset e" if "x \<in> set es" for x
  proof -
    from that obtain k where "k < length (concat (ess @ [es]))" "concat (ess @ [es]) ! k = x"
      by (auto simp: in_set_conv_nth nth_append) (metis add_diff_cancel_left' add_less_cancel_left not_add_less1 nth_append)
    then show ?thesis using numbered_nth [OF assms(1)] assms(2) by fastforce
  qed
  with assms(3) show ?thesis by (auto simp: sorted_append)
qed

lemma write_inv:
  assumes "log_inv (fs, w) ess" "clean (fs, w) ess" "fits e" "Offset e = nextOffset w"
  defines "seg \<equiv> active w"
  defines "w' \<equiv> w\<lparr>segments := (segments w)[activeSeg w := seg\<lparr>size := size seg + int (length (encodeEntry e)),
       startOffset := (if startOffset seg = -1 then Offset e else startOffset seg), endOffset := Offset e\<rparr>],
     nextOffset := Offset e + 1\<rparr>"
  shows "\<exists>ess'. log_inv (write_file (path seg) (encodeEntry e) fs, w') ess' \<and>
    clean (write_file (path seg) (encodeEntry e) fs, w') ess' \<and> concat ess' = concat ess @ [e] \<and> length ess' = length ess"
proof -
  obtain ess0 es where ess: "ess = ess0 @ [es]" using assms(1) by (cases ess rule: rev_cases) (auto simp: log_inv_def)
  define n where "n = length ess0"
  have inv: "list_all2 (stored fs) (segments w) ess" "map id (segments w) = [1..int (Suc n)]" "activeSeg w = n"
    "length (segments w) = Suc n" "names_ok fs (Suc n)" "int (Suc n) < 2 ^ 63"
    using assms(1) by (auto simp: log_inv_def n_def ess list_all2_lengthD)
  have seg: "stored fs seg es" "path seg = segmentFileName (int n + 1)" "fmlookup fs (path seg) = Some (encodeAll es)"
    using inv assms(2) segment_ids(1) [OF inv(2), of n]
    by (auto simp: seg_def active_def list_all2_conv_all_nth n_def ess clean_def stored_def nth_append)
  let ?fs = "write_file (path seg) (encodeEntry e) fs"
  have fs: "?fs = fmupd (path seg) (encodeAll (es @ [e]) @ []) fs" using seg(3) by (simp add: write_file_def)
  have "Offset e = int (length (concat (ess0 @ [es])))" "numbered_entries (concat (ess0 @ [es]))"
    using assms(1,4) by (simp_all add: log_inv_def ess)
  then have srt: "sorted (map Offset (es @ [e]))" using last_entry_offset [of ess0 es e] seg(1) by (simp add: stored_def)
  have new: "stored ?fs (segments w' ! n) (es @ [e])"
  proof -
    have "\<exists>t. torn t \<and> fmlookup ?fs (path seg) = Some (encodeAll (es @ [e]) @ t)"
      by (rule exI [of _ "[]"]) (simp add: fs)
    moreover have "startOffset seg = -1 \<longleftrightarrow> es = []"
      using seg(1) by (cases es) (auto simp: stored_def fits_def)
    ultimately show ?thesis
      using seg(1) srt assms(3) inv(3,4) by (auto simp: stored_def w'_def)
  qed
  have old: "stored ?fs (segments w' ! k) (ess0 ! k)" if "k < n" for k
  proof -
    have "stored fs (segments w ! k) (ess0 ! k)" using list_all2_nthD [OF inv(1), of k] inv(4) that by (simp add: n_def ess nth_append)
    moreover have "path (segments w ! k) \<noteq> path seg"
      using log_inv_paths [OF assms(1), of k "int n + 1"] that inv(6) by (simp add: n_def ess seg(2))
    ultimately have "stored ?fs (segments w ! k) (ess0 ! k)" unfolding fs by (rule stored_other)
    then show ?thesis using that inv(3) by (simp add: w'_def)
  qed
  have "list_all2 (stored ?fs) (segments w') (ess0 @ [es @ [e]])"
    using old new inv(4) by (auto simp: list_all2_conv_all_nth n_def nth_append w'_def less_Suc_eq)
  moreover have "map id (segments w') = map id (segments w)"
    by (simp add: w'_def map_update_same seg_def active_def)
  moreover have "names_ok ?fs (Suc n)"
    unfolding write_file_def seg(2) using inv(5) by (intro names_ok_upd [of _ "Suc n"]) simp_all
  moreover have "log_inv (?fs, w') (ess0 @ [es @ [e]])"
    using assms(1,4) calculation inv unfolding log_inv_def
    by (simp add: ess n_def w'_def numbered_snoc [of "concat ess0 @ es", simplified])
  moreover have "clean (?fs, w') (ess0 @ [es @ [e]])"
    using inv(3,4) by (simp add: clean_def active_def w'_def fs)
  ultimately show ?thesis by (intro exI [of _ "ess0 @ [es @ [e]]"]) (simp add: ess)
qed

text \<open>An append that the disk completes adds its entry to the log.\<close>

definition loggable :: "byte \<times> byte list \<Rightarrow> bool" where
  "loggable op \<longleftrightarrow> (fst op = OpCheckpoint \<or> snd op \<noteq> []) \<and> 19 + length (snd op) \<le> buffer_size"

lemma Append_inv:
  assumes "log_inv s ess" "clean s ess" "loggable (t, d)" "int (length ess) + 1 < 2 ^ 63" "nextOffset (snd s) < 2 ^ 63"
  shows "\<exists>s' ess'. Append Written t d s = (Inr (nextOffset (snd s)), s') \<and> log_inv s' ess' \<and> clean s' ess' \<and>
    concat ess' = concat ess @ [\<lparr>Offset = nextOffset (snd s), Type = t, Data = d\<rparr>] \<and> length ess' \<le> Suc (length ess)"
proof -
  obtain fs w where s: "s = (fs, w)" by (cases s)
  define e where "e = \<lparr>Offset = nextOffset w, Type = t, Data = d\<rparr>"
  have fit: "fits e"
    using assms(1,3,5) by (simp add: fits_def e_def loggable_def log_inv_def s)
  define s1 where "s1 = (if MaxSegmentSize (config w) > 0 \<and> size (active w) + int (length (encodeEntry e)) > MaxSegmentSize (config w)
      then rotateSegment s else s)"
  obtain fs1 w1 where s1: "s1 = (fs1, w1)" by (cases s1)
  have "\<exists>ess1. log_inv s1 ess1 \<and> clean s1 ess1 \<and> concat ess1 = concat ess \<and> length ess1 \<le> Suc (length ess) \<and>
      nextOffset w1 = nextOffset w"
  proof (cases "s1 = s")
    case True
    then show ?thesis using assms(1,2) s s1 by auto
  next
    case False
    then have "s1 = rotateSegment (fs, w)" by (auto simp: s1_def s split: if_splits)
    with rotate_inv [of fs w ess] assms(1,4) s1 show ?thesis by (auto simp: s intro!: exI [of _ "ess @ [[]]"])
  qed
  then obtain ess1 where ess1: "log_inv (fs1, w1) ess1" "clean (fs1, w1) ess1" "concat ess1 = concat ess"
    "length ess1 \<le> Suc (length ess)" "nextOffset w1 = nextOffset w" by (auto simp: s1)
  have "Append Written t d s = (Inr (nextOffset w), write_file (path (active w1)) (encodeEntry e) fs1,
     w1\<lparr>segments := (segments w1)[activeSeg w1 := (active w1)\<lparr>size := size (active w1) + int (length (encodeEntry e)),
       startOffset := (if startOffset (active w1) = -1 then Offset e else startOffset (active w1)), endOffset := Offset e\<rparr>],
       nextOffset := Offset e + 1\<rparr>)"
    using assms(1,3) s1 unfolding Append_def Let_def s split e_def [symmetric] s1_def [symmetric, unfolded s]
    by (simp add: log_inv_def loggable_def e_def)
  with write_inv [OF ess1(1,2) fit] ess1(3-5) show ?thesis by (fastforce simp: s e_def)
qed

subsection \<open>Opening a log\<close>

text \<open>The files of the segments \<open>1\<close> to \<open>n\<close>, each a sequence of whole entries and perhaps a torn one.\<close>

definition on_disk :: "files \<Rightarrow> Entry list list \<Rightarrow> bool" where
  "on_disk fs ess \<longleftrightarrow> names_ok fs (length ess) \<and> int (length ess) < 2 ^ 63 \<and>
     (\<forall>k < length ess. list_all fits (ess ! k) \<and> sorted (map Offset (ess ! k)) \<and>
        (\<exists>t. torn t \<and> fmlookup fs (segmentFileName (int k + 1)) = Some (encodeAll (ess ! k) @ t)))"

lemma set_map_filter: "x \<in> set (List.map_filter f xs) \<longleftrightarrow> (\<exists>y \<in> set xs. f y = Some x)"
  by (induction xs) (auto simp: List.map_filter_simps split: option.splits)

lemma segment_list:
  assumes "on_disk fs ess"
  shows "sort (List.map_filter parseSegmentID (sorted_list_of_fset (fmdom fs))) = [1..int (length ess)]"
proof -
  let ?names = "sorted_list_of_fset (fmdom fs)" and ?n = "int (length ess)"
  have name: "f = segmentFileName i \<and> 1 \<le> i \<and> i \<le> ?n" if f: "f |\<in>| fmdom fs" "parseSegmentID f = Some i" for f i
  proof -
    have "names_ok fs (length ess)" using assms by (simp add: on_disk_def)
    then have "\<exists>j. 1 \<le> j \<and> j \<le> ?n \<and> f = segmentFileName j" using f unfolding names_ok_def by simp
    then obtain j where j: "1 \<le> j" "j \<le> ?n" "f = segmentFileName j" by blast
    then have "parseSegmentID f = Some j" using parse_segmentFileName [of j] assms by (simp add: on_disk_def)
    with j f(2) show ?thesis by simp
  qed
  have "distinct (List.map_filter parseSegmentID xs)" if "distinct xs" "set xs \<subseteq> fset (fmdom fs)" for xs
    using that
  proof (induction xs)
    case (Cons f xs)
    have "i \<notin> set (List.map_filter parseSegmentID xs)" if i: "parseSegmentID f = Some i" for i
    proof
      assume "i \<in> set (List.map_filter parseSegmentID xs)"
      then obtain g where "g \<in> set xs" "parseSegmentID g = Some i" by (auto simp: set_map_filter)
      with name [of g i] name [of f i] i Cons.prems show False by auto
    qed
    with Cons show ?case by (auto simp: List.map_filter_simps split: option.splits)
  qed (simp add: List.map_filter_simps)
  from this [of ?names] have "distinct (List.map_filter parseSegmentID ?names)" by (simp add: sorted_list_of_fset.rep_eq)
  moreover have "set (List.map_filter parseSegmentID ?names) = {1..?n}"
  proof
    show "set (List.map_filter parseSegmentID ?names) \<subseteq> {1..?n}" using name by (auto simp: set_map_filter)
    show "{1..?n} \<subseteq> set (List.map_filter parseSegmentID ?names)"
    proof
      fix i assume "i \<in> {1..?n}"
      then have i: "nat (i - 1) < length ess" "int (nat (i - 1)) + 1 = i" "0 \<le> i" "i < 2 ^ 63"
        using assms by (auto simp: on_disk_def)
      have "\<exists>t. torn t \<and> fmlookup fs (segmentFileName (int (nat (i - 1)) + 1)) = Some (encodeAll (ess ! nat (i - 1)) @ t)"
        using assms i(1) unfolding on_disk_def by blast
      then have "segmentFileName i |\<in>| fmdom fs" unfolding i(2) by (auto intro: fmdomI)
      then have "segmentFileName i \<in> set ?names" by simp
      then show "i \<in> set (List.map_filter parseSegmentID ?names)"
        using parse_segmentFileName [OF i(3,4)] by (auto simp: set_map_filter)
    qed
  qed
  ultimately show ?thesis
    by (intro sorted_distinct_set_unique) simp_all
qed

lemma openSegment_stored:
  assumes "fmlookup fs (segmentFileName i) = Some (encodeAll es @ t)" "torn t" "list_all fits es" "sorted (map Offset es)"
  shows "\<exists>seg. openSegment fs i = Inr seg \<and> stored fs seg es \<and> id seg = i"
proof (cases "encodeAll es @ t = []")
  case True
  then have "es = []" "t = []" by (auto simp: encodeAll_def encodeEntry_def put_be_def split: if_splits)
  then show ?thesis using assms by (auto simp: openSegment_def stored_def)
next
  case False
  then have "0 < int (length (encodeAll es @ t))" by (metis length_greater_0_conv of_nat_0_less_iff)
  then show ?thesis
    using assms scan_offsets_stream [OF assms(3,2), of "-1" "-1"]
    by (auto simp: openSegment_def scanSegmentOffsets_def stored_def Let_def split: if_splits)
qed

lemma open_segments_stored:
  assumes "on_disk fs ess" "k \<le> length ess"
  shows "\<exists>segs. open_segments fs [int k + 1..int (length ess)] = Inr segs \<and> list_all2 (stored fs) segs (drop k ess) \<and>
    map id segs = [int k + 1..int (length ess)]"
  using assms(2)
proof (induction rule: inc_induct)
  case (step k)
  then have upto: "[int k + 1..int (length ess)] = (int k + 1) # [int (Suc k) + 1..int (length ess)]"
    by (simp add: upto_rec1 add.commute)
  obtain t where "torn t" "fmlookup fs (segmentFileName (int k + 1)) = Some (encodeAll (ess ! k) @ t)"
    "list_all fits (ess ! k)" "sorted (map Offset (ess ! k))"
    using assms(1) step.hyps by (auto simp: on_disk_def)
  from openSegment_stored [OF this(2,1,3,4)] obtain seg where
    "openSegment fs (int k + 1) = Inr seg" "stored fs seg (ess ! k)" "id seg = int k + 1" by blast
  with step show ?case unfolding upto by (auto simp: Cons_nth_drop_Suc [symmetric])
qed simp

lemma New_on_disk:
  assumes "on_disk fs ess" "ess \<noteq> []" "Dir c \<noteq> ''''"
  shows "\<exists>w. New (Some c) fs = Inr (fs, w) \<and> list_all2 (stored fs) (segments w) ess \<and>
    map id (segments w) = [1..int (length ess)] \<and> activeSeg w = length ess - 1 \<and> \<not> closed w \<and>
    nextOffset w = (if last ess = [] then 0 else Offset (last (last ess)) + 1)"
proof -
  obtain segs where segs: "loadExistingSegments fs = Inr segs" "list_all2 (stored fs) segs ess" "map id segs = [1..int (length ess)]"
    using open_segments_stored [OF assms(1), of 0] segment_list [OF assms(1)] by (auto simp: loadExistingSegments_def)
  let ?k = "length segs - 1" and ?n = "length ess"
  have len: "length segs = ?n" "segs \<noteq> []" using segs(2) assms(2) by (auto dest: list_all2_lengthD)
  then have lst: "stored fs (segs ! ?k) (last ess)"
    using list_all2_nthD [OF segs(2), of ?k] by (simp add: last_conv_nth assms(2))
  have "list_all2 (stored fs) (segs[?k := (segs ! ?k)\<lparr>file_open := True\<rparr>]) ess"
    using segs(2) by (auto simp: list_all2_conv_all_nth nth_list_update stored_def)
  moreover have "map id (segs[?k := (segs ! ?k)\<lparr>file_open := True\<rparr>]) = map id segs" by (simp add: map_update_same)
  moreover have "endOffset (segs ! ?k) \<ge> 0 \<longleftrightarrow> last ess \<noteq> []"
  proof (cases "last ess = []")
    case False
    then have "0 \<le> Offset (last (last ess))" using lst by (auto simp: stored_def list_all_iff fits_def)
    with False lst show ?thesis by (simp add: stored_def)
  qed (use lst in \<open>simp add: stored_def\<close>)
  moreover have "last ess \<noteq> [] \<Longrightarrow> endOffset (segs ! ?k) = Offset (last (last ess))" using lst by (simp add: stored_def)
  ultimately show ?thesis using assms(3) segs len by (simp add: New_def Let_def)
qed

lemma New_fresh:
  assumes "names_ok fs 0" "Dir c \<noteq> ''''"
  shows "\<exists>s. New (Some c) fs = Inr s \<and> log_inv s [[]] \<and> clean s [[]]"
proof -
  have none: "parseSegmentID f = None" if "f |\<in>| fmdom fs" for f using assms(1) that by (force simp: names_ok_def)
  then have "loadExistingSegments fs = Inr []"
    using segment_list [of fs "[]"] assms(1) by (simp add: loadExistingSegments_def on_disk_def)
  moreover have "fmlookup fs (segmentFileName 1) = None"
  proof (rule ccontr)
    assume "fmlookup fs (segmentFileName 1) \<noteq> None"
    then have "segmentFileName 1 |\<in>| fmdom fs" by (auto intro: fmdomI)
    from none [OF this] show False using parse_segmentFileName [of 1] by simp
  qed
  moreover have "names_ok (fmupd (segmentFileName 1) [] fs) 1" using assms(1) by (intro names_ok_upd [of _ 0]) simp_all
  moreover have "\<exists>t. torn t \<and> [] = encodeAll [] @ t" by (intro exI [of _ "[]"]) simp
  ultimately show ?thesis
    using assms(2) by (auto simp: New_def Let_def createSegment_def log_inv_def clean_def active_def stored_def numbered_entries_def)
qed

subsection \<open>Runs of appends and a crash\<close>

definition append_op :: "byte \<times> byte list \<Rightarrow> files \<times> WAL \<Rightarrow> (wal_error, int) result \<times> files \<times> WAL" where
  "append_op op s = Append Written (fst op) (snd op) s"

text \<open>The entries a sequence of appends produces, numbered from \<open>k\<close>.\<close>

fun entries_from :: "nat \<Rightarrow> (byte \<times> byte list) list \<Rightarrow> Entry list" where
  "entries_from k [] = []"
| "entries_from k ((t, d) # ops) = \<lparr>Offset = int k, Type = t, Data = d\<rparr> # entries_from (Suc k) ops"

lemma length_entries_from [simp]: "length (entries_from k ops) = length ops"
  by (induction k ops rule: entries_from.induct) simp_all

lemma append_run:
  assumes "log_inv s ess" "clean s ess" "list_all loggable ops"
    and "int (length ess) + int (length ops) < 2 ^ 63" "int (length (concat ess)) + int (length ops) < 2 ^ 63"
    and "run append_op ops s = (outs, s')"
  shows "outs = map (\<lambda>i. Inr (int i)) [length (concat ess)..<length (concat ess) + length ops] \<and>
    (\<exists>ess'. log_inv s' ess' \<and> clean s' ess' \<and> concat ess' = concat ess @ entries_from (length (concat ess)) ops \<and>
       length ess' \<le> length ess + length ops)"
  using assms
proof (induction ops arbitrary: s ess outs)
  case (Cons op ops)
  obtain t d where op: "op = (t, d)" by (cases op)
  have nxt: "nextOffset (snd s) = int (length (concat ess))" using Cons.prems(1) by (auto simp: log_inv_def)
  obtain s1 ess1 where s1: "Append Written t d s = (Inr (int (length (concat ess))), s1)" "log_inv s1 ess1" "clean s1 ess1"
    "concat ess1 = concat ess @ [\<lparr>Offset = int (length (concat ess)), Type = t, Data = d\<rparr>]" "length ess1 \<le> Suc (length ess)"
    using Append_inv [OF Cons.prems(1,2), of t d] Cons.prems(3-5) nxt by (auto simp: op)
  have step: "append_op op s = (Inr (int (length (concat ess))), s1)" using s1(1) by (simp add: append_op_def op)
  obtain outs1 where run: "run append_op ops s1 = (outs1, s')" "outs = Inr (int (length (concat ess))) # outs1"
    using Cons.prems(6) step by (auto simp: Let_def split: prod.splits)
  have len: "length (concat ess1) = Suc (length (concat ess))" using s1(4) by simp
  from Cons.IH [OF s1(2,3) _ _ _ run(1)] Cons.prems(3-5) s1(5)
  have ih: "outs1 = map (\<lambda>i. Inr (int i)) [Suc (length (concat ess))..<Suc (length (concat ess)) + length ops]"
    "\<exists>ess'. log_inv s' ess' \<and> clean s' ess' \<and> concat ess' = concat ess1 @ entries_from (Suc (length (concat ess))) ops \<and>
       length ess' \<le> length ess1 + length ops"
    by (simp_all add: len)
  from ih(2) obtain ess2 where "log_inv s' ess2" "clean s' ess2"
    "concat ess2 = concat ess1 @ entries_from (Suc (length (concat ess))) ops" "length ess2 \<le> length ess1 + length ops" by blast
  with s1(4,5) have "log_inv s' ess2 \<and> clean s' ess2 \<and> concat ess2 = concat ess @ entries_from (length (concat ess)) (op # ops) \<and>
      length ess2 \<le> length ess + length (op # ops)" by (simp add: op)
  moreover have "outs = map (\<lambda>i. Inr (int i)) [length (concat ess)..<length (concat ess) + length (op # ops)]"
    using ih(1) run(2) by (simp add: upt_conv_Cons del: upt_Suc)
  ultimately show ?case by blast
qed auto

text \<open>A crash keeps the first \<open>j\<close> bytes of the active file.\<close>

definition crash :: "nat \<Rightarrow> files \<times> WAL \<Rightarrow> files" where
  "crash j s = (case s of (fs, w) \<Rightarrow>
     (case fmlookup fs (path (active w)) of None \<Rightarrow> fs | Some content \<Rightarrow> fmupd (path (active w)) (take j content) fs))"

text \<open>How many whole entries a cut of the file at \<open>j\<close> leaves.\<close>

fun survivors :: "nat \<Rightarrow> Entry list \<Rightarrow> Entry list" where
  "survivors j [] = []"
| "survivors j (e # es) = (if length (encodeEntry e) \<le> j then e # survivors (j - length (encodeEntry e)) es else [])"

lemma take_encodeAll:
  "list_all fits es \<Longrightarrow> \<exists>t. torn t \<and> take j (encodeAll es) = encodeAll (survivors j es) @ t"
proof (induction j es rule: survivors.induct)
  case (2 j e es)
  show ?case
  proof (cases "length (encodeEntry e) \<le> j")
    case True
    then show ?thesis using 2 by auto
  next
    case False
    then have "torn (take j (encodeEntry e))"
      using 2 unfolding torn_def by (intro exI [of _ e] exI [of _ j]) simp
    with False show ?thesis by simp
  qed
qed simp

lemma survivors_prefix: "\<exists>rest. es = survivors j es @ rest"
  by (induction j es rule: survivors.induct) auto

lemma crash_on_disk:
  assumes "log_inv s (ess @ [es])" "clean s (ess @ [es])"
  shows "on_disk (crash j s) (ess @ [survivors j es])"
proof -
  obtain fs w where s: "s = (fs, w)" by (cases s)
  define n where "n = length ess"
  have inv: "list_all2 (stored fs) (segments w) (ess @ [es])" "map id (segments w) = [1..int (Suc n)]" "activeSeg w = n"
    "length (segments w) = Suc n" "names_ok fs (Suc n)" "int (Suc n) < 2 ^ 63"
    using assms(1) by (auto simp: log_inv_def n_def s list_all2_lengthD)
  have st: "stored fs (segments w ! k) ((ess @ [es]) ! k)" if "k \<le> n" for k
    using list_all2_nthD [OF inv(1), of k] inv(4) that by simp
  have p: "path (segments w ! k) = segmentFileName (int k + 1)" if "k \<le> n" for k
    using st [OF that] segment_ids(1) [OF inv(2), of k] that inv(4) by (simp add: stored_def)
  have fs': "crash j s = fmupd (segmentFileName (int n + 1)) (take j (encodeAll es)) fs"
    using assms(2) p [of n] inv(3) by (simp add: crash_def clean_def s active_def)
  obtain rest where rest: "es = survivors j es @ rest" using survivors_prefix by blast
  have es: "list_all fits es" "sorted (map Offset es)" using st [of n] by (simp_all add: stored_def n_def)
  then have sv: "list_all fits (survivors j es)" "sorted (map Offset (survivors j es))"
    using rest by (metis list_all_append, metis map_append sorted_append)
  have "\<exists>t. torn t \<and> fmlookup (crash j s) (segmentFileName (int k + 1)) = Some (encodeAll ((ess @ [survivors j es]) ! k) @ t)"
    if "k \<le> n" for k
  proof (cases "k = n")
    case True
    then show ?thesis using take_encodeAll [OF es(1), of j] by (simp add: fs' n_def)
  next
    case False
    then have "segmentFileName (int k + 1) \<noteq> segmentFileName (int n + 1)"
      using segmentFileName_inj [of "int k + 1" "int n + 1"] that inv(6) by auto
    then show ?thesis using st [OF that] p [OF that] False that by (auto simp: fs' stored_def n_def nth_append)
  qed
  moreover have "list_all fits ((ess @ [survivors j es]) ! k) \<and> sorted (map Offset ((ess @ [survivors j es]) ! k))" if "k \<le> n" for k
    using st [OF that] that sv by (cases "k = n") (auto simp: stored_def n_def nth_append)
  moreover have "names_ok (crash j s) (Suc n)" unfolding fs' using inv(5) by (intro names_ok_upd [of _ "Suc n"]) simp_all
  ultimately show ?thesis using inv(6) by (simp add: on_disk_def n_def less_Suc_eq_le)
qed

subsection \<open>Properties\<close>

text \<open>
  C33. Integrity of an entry: what was encoded decodes to the same entry, whatever follows it; and if one byte outside
  the length field is changed, in the magic number, the checksum, the offset, the type or the data, the
  decoder reports an error.
\<close>

theorem wal_entry_integrity:
  assumes "entry_ok e"
  shows "decodeEntry (encodeEntry e @ rest) = Inr (e, length (encodeEntry e)) \<and>
    (k < length (encodeEntry e) \<and> (k < 15 \<or> 19 \<le> k) \<and> b \<noteq> encodeEntry e ! k \<longrightarrow>
       (\<exists>err. decodeEntry ((encodeEntry e)[k := b]) = Inl err))"
  using decode_encode [OF assms, of rest] corrupted_entry_rejected [OF assms, of k b] by simp

theorem wal_entry_integrity_witness:
  "let e = \<lparr>Offset = 7, Type = OpPut, Data = [1, 2]\<rparr>; b = encodeEntry e ! 20 + 1
   in decodeEntry (encodeEntry e @ [9]) = Inr (e, 21) \<and> (\<exists>err. decodeEntry ((encodeEntry e)[20 := b]) = Inl err)"
  using wal_entry_integrity [of "\<lparr>Offset = 7, Type = OpPut, Data = [1, 2]\<rparr>" "[9]" 20
      "encodeEntry \<lparr>Offset = 7, Type = OpPut, Data = [1, 2]\<rparr> ! 20 + 1"]
  by (simp add: entry_ok_def Let_def)





text \<open>
  Three defects. An entry that does not fit the reader's buffer can be appended but makes its segment, and with it the
  whole log, unreadable. After a torn write the next entry is appended behind the torn one; as long as the
  file is shorter than the torn entry was to be, the scan stops at it and the new entry, although acknowledged,
  is not read. And \<open>nextOffset\<close> starts at zero again when the last segment has no whole entry (C35).
\<close>

lemma long_entry_unreadable:
  assumes "entry_ok e" "buffer_size < length (encodeEntry e)"
  shows "readSegmentEntriesStream (encodeEntry e @ rest) m = Inl ErrReadBufferFull"
proof -
  have p1: "Peek entryHeaderSize (encodeEntry e @ rest) = (take 19 (encodeEntry e @ rest), None)"
    by (simp add: Peek_def entryHeaderSize_def buffer_size_def)
  have p2: "Peek (19 + length (Data e)) (encodeEntry e @ rest) = (take buffer_size (encodeEntry e @ rest), Some ErrBufferFull)"
    using assms(2) by (simp add: Peek_def)
  have "snd (snd (snd (fst (streamScanEntry (encodeEntry e @ rest))))) = Some ErrBufferFull"
    unfolding streamScanEntry_def p1 Let_def split
    using encodeEntry_header [OF assms(1), of rest] p2 assms(2) by (simp add: entryHeaderSize_def)
  then show ?thesis by (subst readSegmentEntriesStream.simps) (auto split: prod.splits)
qed

lemma append_after_torn_lost:
  assumes "fits e" "19 \<le> k" "k + length (encodeEntry e') < length (encodeEntry e)"
  shows "readSegmentEntriesStream (take k (encodeEntry e) @ encodeEntry e') m = Inr []"
proof -
  let ?x = "take k (encodeEntry e) @ encodeEntry e'"
  have ok: "entry_ok e" by (rule fits_ok [OF assms(1)])
  have "take 19 ?x = take 19 (encodeEntry e @ [])" using assms(2,3) by (simp add: min_def)
  then have p1: "Peek entryHeaderSize ?x = (take 19 (encodeEntry e @ []), None)"
    using assms(2,3) by (simp add: Peek_def entryHeaderSize_def buffer_size_def)
  have p2: "Peek (19 + length (Data e)) ?x = (?x, Some EOF)" using assms by (simp add: Peek_def fits_def)
  have "snd (snd (snd (fst (streamScanEntry ?x)))) = Some EOF"
    unfolding streamScanEntry_def p1 Let_def split
    using encodeEntry_header [OF ok, of "[]"] p2 assms(3) by (simp add: entryHeaderSize_def)
  then show ?thesis by (subst readSegmentEntriesStream.simps) (auto split: prod.splits)
qed

end
