(* ===== verification/Skiplist.thy ===== *)
theory Skiplist
  imports Prelude Complex_Main "HOL-Library.Monad_Syntax"
begin

section \<open>Offset lists (\<open>src/internal/skiplist/skiplist.go\<close>)\<close>

text \<open>
  A skip list over an explicit store: a node is reached by its address, \<^const>\<open>None\<close> of a forward pointer is \<open>nil\<close>, and
  reading through \<open>nil\<close> or outside a slice is a panic, \<^const>\<open>None\<close> of the result. The searching loops are partial
  functions. The key type is any linear order (\<open>cmp.Ordered\<close> without the \<open>NaN\<close> of floating-point keys).
  The random source is a sequence of coins, \<open>coin k\<close> telling whether the \<open>k\<close>-th number drawn is below \<open>p\<close>.

  Shown: the list never panics and answers every sequence of calls as a finite map does, whatever the coins; its levels
  are sublists of one another, and the highest level in use is not empty.
\<close>

subsection \<open>Configuration\<close>

text \<open>A \<open>float64\<close> as far as it is compared here; \<open>NaN\<close> compares false with everything.\<close>

datatype float64 = NaN | Num rat

definition float_le :: "float64 \<Rightarrow> rat \<Rightarrow> bool" where
  "float_le x r = (case x of NaN \<Rightarrow> False | Num q \<Rightarrow> q \<le> r)"

definition float_ge :: "float64 \<Rightarrow> rat \<Rightarrow> bool" where
  "float_ge x r = (case x of NaN \<Rightarrow> False | Num q \<Rightarrow> q \<ge> r)"

definition DefaultMaxLevel :: int where "DefaultMaxLevel = 32"
definition DefaultP :: float64 where "DefaultP = Num (1 / 4)"

record Config =
  MaxLevel :: int
  P :: float64
  RandomSource :: "(nat \<Rightarrow> bool) option"

definition DefaultConfig :: Config where
  "DefaultConfig = \<lparr>MaxLevel = DefaultMaxLevel, P = DefaultP, RandomSource = None\<rparr>"

datatype config_error = ErrMaxLevel int | ErrProbability float64

definition validate :: "Config \<Rightarrow> config_error option" where
  "validate c =
     (if MaxLevel c \<le> 0 then Some (ErrMaxLevel (MaxLevel c))
      else if float_le (P c) 0 \<or> float_ge (P c) 1 then Some (ErrProbability (P c))
      else None)"

subsection \<open>The list\<close>

record ('k, 'v) node =
  key :: 'k
  val :: 'v
  forward :: "nat option list"

record ('k, 'v) SkipList =
  heap :: "(nat, ('k, 'v) node) fmap"
  fresh :: nat
  header :: nat
  tail :: "nat option"
  level :: nat
  len :: int
  maxLevel :: nat
  coin :: "nat \<Rightarrow> bool"
  drawn :: nat

record RangeOptions =
  StartInclusive :: bool
  EndInclusive :: bool
  Limit :: int
  Offset :: int

definition DefaultRangeOptions :: RangeOptions where
  "DefaultRangeOptions = \<lparr>StartInclusive = True, EndInclusive = True, Limit = 0, Offset = 0\<rparr>"

definition WithStartInclusive :: "bool \<Rightarrow> RangeOptions \<Rightarrow> RangeOptions" where
  "WithStartInclusive v o1 = o1\<lparr>StartInclusive := v\<rparr>"

definition WithEndInclusive :: "bool \<Rightarrow> RangeOptions \<Rightarrow> RangeOptions" where
  "WithEndInclusive v o1 = o1\<lparr>EndInclusive := v\<rparr>"

definition WithLimit :: "int \<Rightarrow> RangeOptions \<Rightarrow> RangeOptions" where
  "WithLimit v o1 = o1\<lparr>Limit := v\<rparr>"

definition WithOffset :: "int \<Rightarrow> RangeOptions \<Rightarrow> RangeOptions" where
  "WithOffset v o1 = o1\<lparr>Offset := v\<rparr>"

text \<open>
  \<open>New\<close>, with the zero values of the key and value types and the coins of a source seeded by the clock.
\<close>

definition New :: "'k \<Rightarrow> 'v \<Rightarrow> (nat \<Rightarrow> bool) \<Rightarrow> Config option \<Rightarrow> (config_error, ('k, 'v) SkipList) result" where
  "New zeroK zeroV clock cfg0 =
     (let cfg = (case cfg0 of None \<Rightarrow> DefaultConfig | Some c \<Rightarrow> c)
      in case validate cfg of
           Some err \<Rightarrow> Inl err
         | None \<Rightarrow>
             Inr \<lparr>heap = fmupd 0 \<lparr>key = zeroK, val = zeroV, forward = replicate (nat (MaxLevel cfg)) None\<rparr> fmempty,
                  fresh = 1, header = 0, tail = None, level = 1, len = 0, maxLevel = nat (MaxLevel cfg),
                  coin = (case RandomSource cfg of None \<Rightarrow> clock | Some rng \<Rightarrow> rng), drawn = 0\<rparr>)"

definition SetRandomSeed :: "(nat \<Rightarrow> bool) \<Rightarrow> ('k, 'v) SkipList \<Rightarrow> ('k, 'v) SkipList" where
  "SetRandomSeed rng sl = sl\<lparr>coin := rng, drawn := 0\<rparr>"

function random_level :: "nat \<Rightarrow> ('k, 'v) SkipList \<Rightarrow> nat \<times> ('k, 'v) SkipList" where
  "random_level lvl sl =
     (if lvl < maxLevel sl
      then let sl' = sl\<lparr>drawn := drawn sl + 1\<rparr>
           in if coin sl (drawn sl) then random_level (lvl + 1) sl' else (lvl, sl')
      else (lvl, sl))"
  by auto
termination by (relation "measure (\<lambda>(lvl, sl). maxLevel sl - lvl)") auto

declare random_level.simps [simp del]

definition randomLevel :: "('k, 'v) SkipList \<Rightarrow> nat \<times> ('k, 'v) SkipList" where
  "randomLevel sl = random_level 1 sl"

text \<open>The forward pointer of a node at a level.\<close>

definition fwd :: "(nat, ('k, 'v) node) fmap \<Rightarrow> nat \<Rightarrow> nat \<Rightarrow> nat option option" where
  "fwd h x i =
     (case fmlookup h x of
        None \<Rightarrow> None
      | Some n \<Rightarrow> if i < length (forward n) then Some (forward n ! i) else None)"

definition set_fwd :: "nat \<Rightarrow> nat \<Rightarrow> nat option \<Rightarrow> (nat, ('k, 'v) node) fmap \<Rightarrow> (nat, ('k, 'v) node) fmap option" where
  "set_fwd x i v h =
     (case fmlookup h x of
        None \<Rightarrow> None
      | Some n \<Rightarrow> if i < length (forward n) then Some (fmupd x (n\<lparr>forward := (forward n)[i := v]\<rparr>) h) else None)"

text \<open>The inner loop of the searches: forward on level \<open>i\<close> while the next key is smaller.\<close>

partial_function (option) advance :: "(nat, ('k::linorder, 'v) node) fmap \<Rightarrow> nat \<Rightarrow> 'k \<Rightarrow> nat \<Rightarrow> nat option" where
  "advance h i k x =
     do { nxt \<leftarrow> fwd h x i;
          case nxt of
            None \<Rightarrow> Some x
          | Some y \<Rightarrow> do { n \<leftarrow> fmlookup h y; if key n < k then advance h i k y else Some x } }"

declare advance.simps [code]

text \<open>The outer loop from level \<open>i - 1\<close> down to zero, filling the update vector.\<close>

fun descend ::
    "(nat, ('k::linorder, 'v) node) fmap \<Rightarrow> 'k \<Rightarrow> nat \<Rightarrow> nat \<Rightarrow> nat option list \<Rightarrow> (nat \<times> nat option list) option" where
  "descend h k 0 x update = Some (x, update)"
| "descend h k (Suc i) x update = do { x' \<leftarrow> advance h i k x; descend h k i x' (update[i := Some x']) }"

definition find_update :: "'k::linorder \<Rightarrow> ('k, 'v) SkipList \<Rightarrow> (nat \<times> nat option list) option" where
  "find_update k sl = descend (heap sl) k (level sl) (header sl) (replicate (maxLevel sl) None)"

text \<open>The node after \<open>x\<close> on level zero, with its address.\<close>

definition next_node :: "(nat, ('k, 'v) node) fmap \<Rightarrow> nat \<Rightarrow> (nat \<times> ('k, 'v) node) option option" where
  "next_node h x =
     do { nxt \<leftarrow> fwd h x 0;
          case nxt of None \<Rightarrow> Some None | Some y \<Rightarrow> do { n \<leftarrow> fmlookup h y; Some (Some (y, n)) } }"

definition nth_opt :: "'a list \<Rightarrow> nat \<Rightarrow> 'a option" where
  "nth_opt xs i = (if i < length xs then Some (xs ! i) else None)"

definition entry_of :: "nat option list \<Rightarrow> nat \<Rightarrow> nat option" where
  "entry_of update i = do { u \<leftarrow> nth_opt update i; u }"

fun link :: "nat \<Rightarrow> nat option list \<Rightarrow> nat list \<Rightarrow> (nat, ('k, 'v) node) fmap \<Rightarrow> (nat, ('k, 'v) node) fmap option" where
  "link new update [] h = Some h"
| "link new update (i # is) h =
     do { u \<leftarrow> entry_of update i;
          nxt \<leftarrow> fwd h u i;
          h1 \<leftarrow> set_fwd new i nxt h;
          h2 \<leftarrow> set_fwd u i (Some new) h1;
          link new update is h2 }"

definition insert_new :: "'k::linorder \<Rightarrow> 'v \<Rightarrow> nat option list \<Rightarrow> ('k, 'v) SkipList \<Rightarrow> ('k, 'v) SkipList option" where
  "insert_new k v update sl =
     (let (lvl, sl1) = randomLevel sl;
          update1 = fold (\<lambda>i u. u[i := Some (header sl)]) [level sl..<lvl] update;
          new = fresh sl1;
          h0 = fmupd new \<lparr>key = k, val = v, forward = replicate lvl None\<rparr> (heap sl1)
      in do { h \<leftarrow> link new update1 [0..<lvl] h0;
              nxt \<leftarrow> fwd h new 0;
              Some (sl1\<lparr>heap := h, fresh := new + 1, level := (if lvl > level sl1 then lvl else level sl1),
                        tail := (if nxt = None then Some new else tail sl1), len := len sl1 + 1\<rparr>) })"

definition Insert :: "'k::linorder \<Rightarrow> 'v \<Rightarrow> ('k, 'v) SkipList \<Rightarrow> ('k, 'v) SkipList option" where
  "Insert k v sl =
     do { (x, update) \<leftarrow> find_update k sl;
          found \<leftarrow> next_node (heap sl) x;
          case found of
            None \<Rightarrow> insert_new k v update sl
          | Some (y, n) \<Rightarrow>
              if key n = k then Some (sl\<lparr>heap := fmupd y (n\<lparr>val := v\<rparr>) (heap sl)\<rparr>)
              else insert_new k v update sl }"

text \<open>The unlinking loop, which stops at the first level on which the node is not linked.\<close>

fun unlink :: "nat \<Rightarrow> nat option list \<Rightarrow> nat list \<Rightarrow> (nat, ('k, 'v) node) fmap \<Rightarrow> (nat, ('k, 'v) node) fmap option" where
  "unlink x update [] h = Some h"
| "unlink x update (i # is) h =
     do { u \<leftarrow> entry_of update i;
          nxt \<leftarrow> fwd h u i;
          if nxt \<noteq> Some x then Some h
          else do { after \<leftarrow> fwd h x i; h1 \<leftarrow> set_fwd u i after h; unlink x update is h1 } }"

fun lower :: "(nat, ('k, 'v) node) fmap \<Rightarrow> nat \<Rightarrow> nat \<Rightarrow> nat option" where
  "lower h x 0 = Some 0"
| "lower h x (Suc l) =
     (if l = 0 then Some (Suc l)
      else do { nxt \<leftarrow> fwd h x l; if nxt = None then lower h x l else Some (Suc l) })"

definition Delete :: "'k::linorder \<Rightarrow> ('k, 'v) SkipList \<Rightarrow> ('v option \<times> ('k, 'v) SkipList) option" where
  "Delete k sl =
     do { (x0, update) \<leftarrow> find_update k sl;
          found \<leftarrow> next_node (heap sl) x0;
          case found of
            None \<Rightarrow> Some (None, sl)
          | Some (x, n) \<Rightarrow>
              if key n \<noteq> k then Some (None, sl)
              else do { h \<leftarrow> unlink x update [0..<level sl] (heap sl);
                        lvl \<leftarrow> lower h (header sl) (level sl);
                        u0 \<leftarrow> entry_of update 0;
                        Some (Some (val n),
                              sl\<lparr>heap := h, level := lvl,
                                 tail := (if tail sl = Some x then (if u0 = header sl then None else Some u0) else tail sl),
                                 len := len sl - 1\<rparr>) } }"

text \<open>The result \<^const>\<open>None\<close> stands for the zero value and \<open>false\<close>.\<close>

definition Search :: "'k::linorder \<Rightarrow> ('k, 'v) SkipList \<Rightarrow> 'v option option" where
  "Search k sl =
     do { (x, _) \<leftarrow> descend (heap sl) k (level sl) (header sl) [];
          found \<leftarrow> next_node (heap sl) x;
          Some (case found of None \<Rightarrow> None | Some (_, n) \<Rightarrow> if key n = k then Some (val n) else None) }"

definition Contains :: "'k::linorder \<Rightarrow> ('k, 'v) SkipList \<Rightarrow> bool option" where
  "Contains k sl = map_option (\<lambda>r. r \<noteq> None) (Search k sl)"

text \<open>The loop of \<open>Range\<close> from a node on, with the number skipped and the number of results so far.\<close>

partial_function (option) range_loop ::
    "(nat, ('k::linorder, 'v) node) fmap \<Rightarrow> 'k \<Rightarrow> 'k \<Rightarrow> RangeOptions \<Rightarrow> nat option \<Rightarrow> int \<Rightarrow> int \<Rightarrow> ('k \<times> 'v) list option" where
  "range_loop h start end options x skipped n =
     (case x of
        None \<Rightarrow> Some []
      | Some y \<Rightarrow>
          do { nd \<leftarrow> fmlookup h y;
               if key nd > end then Some []
               else if (key nd = start \<and> \<not> StartInclusive options) \<or> (key nd = end \<and> \<not> EndInclusive options)
               then do { nxt \<leftarrow> fwd h y 0; range_loop h start end options nxt skipped n }
               else if skipped < Offset options
               then do { nxt \<leftarrow> fwd h y 0; range_loop h start end options nxt (skipped + 1) n }
               else if Limit options > 0 \<and> n + 1 \<ge> Limit options then Some [(key nd, val nd)]
               else do { nxt \<leftarrow> fwd h y 0;
                         rest \<leftarrow> range_loop h start end options nxt skipped (n + 1);
                         Some ((key nd, val nd) # rest) } })"

definition Range :: "'k::linorder \<Rightarrow> 'k \<Rightarrow> RangeOptions option \<Rightarrow> ('k, 'v) SkipList \<Rightarrow> ('k \<times> 'v) list option" where
  "Range start end opts sl =
     (let options = (case opts of None \<Rightarrow> DefaultRangeOptions | Some o1 \<Rightarrow> o1)
      in if start > end then Some []
         else do { (x, _) \<leftarrow> descend (heap sl) start (level sl) (header sl) [];
                   nxt \<leftarrow> fwd (heap sl) x 0;
                   range_loop (heap sl) start end options nxt 0 0 })"

partial_function (option) all_loop :: "(nat, ('k, 'v) node) fmap \<Rightarrow> nat option \<Rightarrow> ('k \<times> 'v) list option" where
  "all_loop h x =
     (case x of
        None \<Rightarrow> Some []
      | Some y \<Rightarrow>
          do { nd \<leftarrow> fmlookup h y; nxt \<leftarrow> fwd h y 0; rest \<leftarrow> all_loop h nxt; Some ((key nd, val nd) # rest) })"

declare range_loop.simps [code] all_loop.simps [code]

definition All :: "('k, 'v) SkipList \<Rightarrow> ('k \<times> 'v) list option" where
  "All sl = do { nxt \<leftarrow> fwd (heap sl) (header sl) 0; all_loop (heap sl) nxt }"

definition Len :: "('k, 'v) SkipList \<Rightarrow> int" where
  "Len sl = len sl"

definition Level :: "('k, 'v) SkipList \<Rightarrow> nat" where
  "Level sl = level sl"

text \<open>\<open>Clear\<close> allocates a new header; the old nodes are garbage.\<close>

definition Clear :: "'k \<Rightarrow> 'v \<Rightarrow> ('k, 'v) SkipList \<Rightarrow> ('k, 'v) SkipList" where
  "Clear zeroK zeroV sl =
     sl\<lparr>heap := fmupd (fresh sl) \<lparr>key = zeroK, val = zeroV, forward = replicate (maxLevel sl) None\<rparr> (heap sl),
        fresh := fresh sl + 1, header := fresh sl, tail := None, level := 1, len := 0\<rparr>"

definition First :: "('k, 'v) SkipList \<Rightarrow> ('k \<times> 'v) option option" where
  "First sl = do { found \<leftarrow> next_node (heap sl) (header sl); Some (map_option (\<lambda>(_, n). (key n, val n)) found) }"

definition Last :: "('k, 'v) SkipList \<Rightarrow> ('k \<times> 'v) option option" where
  "Last sl =
     (case tail sl of
        None \<Rightarrow> Some None
      | Some t \<Rightarrow> do { n \<leftarrow> fmlookup (heap sl) t; Some (Some (key n, val n)) })"

subsection \<open>The chains of a level\<close>

definition height :: "(nat, ('k, 'v) node) fmap \<Rightarrow> nat \<Rightarrow> nat" where
  "height h a = (case fmlookup h a of None \<Rightarrow> 0 | Some n \<Rightarrow> length (forward n))"

abbreviation key_at :: "(nat, ('k, 'v) node) fmap \<Rightarrow> nat \<Rightarrow> 'k" where
  "key_at h a \<equiv> key (the (fmlookup h a))"

abbreviation val_at :: "(nat, ('k, 'v) node) fmap \<Rightarrow> nat \<Rightarrow> 'v" where
  "val_at h a \<equiv> val (the (fmlookup h a))"

fun linked :: "(nat, ('k, 'v) node) fmap \<Rightarrow> nat \<Rightarrow> nat \<Rightarrow> nat list \<Rightarrow> bool" where
  "linked h i x [] \<longleftrightarrow> fwd h x i = Some None"
| "linked h i x (y # ys) \<longleftrightarrow> fwd h x i = Some (Some y) \<and> linked h i y ys"

lemma fwd_Some: "(\<exists>v. fwd h x i = Some v) \<longleftrightarrow> i < height h x"
  by (auto simp: fwd_def height_def split: option.splits)

lemma height_in_heap: "0 < height h a \<Longrightarrow> \<exists>n. fmlookup h a = Some n"
  by (auto simp: height_def split: option.splits)

lemma linked_append: "linked h i x (A @ y # B) \<Longrightarrow> linked h i y B \<and> fwd h (last (x # A)) i = Some (Some y)"
  by (induction A arbitrary: x) auto

lemma linked_fwd: "linked h i x (A @ B) \<Longrightarrow> fwd h (last (x # A)) i = Some (case B of [] \<Rightarrow> None | y # _ \<Rightarrow> Some y)"
  by (induction A arbitrary: x) (auto split: list.splits)

lemma linked_suffix: "linked h i x (A @ B) \<Longrightarrow> linked h i (last (x # A)) B"
  by (induction A arbitrary: x) auto

lemma linked_cong: "(\<And>y. y \<in> set (x # ys) \<Longrightarrow> fwd h' y i = fwd h y i) \<Longrightarrow> linked h' i x ys = linked h i x ys"
  by (induction ys arbitrary: x) auto

lemma linked_mono: "linked h i x ys \<Longrightarrow> (\<forall>y \<in> set (x # ys). fwd h' y i = fwd h y i) \<Longrightarrow> linked h' i x ys"
  by (induction ys arbitrary: x) auto

lemma linked_insert:
  assumes "linked h i x (A @ B)" "distinct (x # A @ B)"
    and "fwd h' (last (x # A)) i = Some (Some new)" "fwd h' new i = fwd h (last (x # A)) i"
    and "\<And>y. y \<in> set (x # A @ B) \<Longrightarrow> y \<noteq> last (x # A) \<Longrightarrow> fwd h' y i = fwd h y i"
  shows "linked h' i x (A @ new # B)"
  using assms
proof (induction A arbitrary: x)
  case Nil
  then show ?case by (cases B) (auto elim!: linked_mono, metis)
next
  case (Cons a A)
  have "last (x # a # A) = last (a # A)" "x \<noteq> last (a # A)" using Cons.prems(2) by auto
  with Cons show ?case by auto
qed

lemma linked_remove:
  assumes "linked h i x (A @ y # B)" "distinct (x # A @ y # B)"
    and "fwd h' (last (x # A)) i = fwd h y i"
    and "\<And>z. z \<in> set (x # A @ B) \<Longrightarrow> z \<noteq> last (x # A) \<Longrightarrow> fwd h' z i = fwd h z i"
  shows "linked h' i x (A @ B)"
  using assms
proof (induction A arbitrary: x)
  case Nil
  then show ?case by (cases B) (auto elim!: linked_mono, metis)
next
  case (Cons a A)
  have "last (x # a # A) = last (a # A)" "x \<noteq> last (a # A)" using Cons.prems(2) by auto
  with Cons show ?case by auto
qed

subsection \<open>Searching\<close>

lemma advance_last:
  assumes "linked h i x (A @ B)" "\<forall>a \<in> set (A @ B). fmlookup h a \<noteq> None"
    and "\<forall>a \<in> set A. key_at h a < k" "\<forall>b \<in> set B. \<not> key_at h b < k"
  shows "advance h i k x = Some (last (x # A))"
  using assms
proof (induction A arbitrary: x)
  case Nil
  then show ?case by (subst advance.simps) (cases B; auto)
next
  case (Cons a A)
  then have "advance h i k a = Some (last (a # A))" by simp
  with Cons.prems show ?case by (subst advance.simps) auto
qed

lemma advance_from:
  assumes "linked h i x0 (A @ B)" "x \<in> set (x0 # A)" "\<forall>a \<in> set (A @ B). fmlookup h a \<noteq> None"
    and "\<forall>a \<in> set A. key_at h a < k" "\<forall>b \<in> set B. \<not> key_at h b < k"
  shows "advance h i k x = Some (last (x0 # A))"
proof (cases "x = x0")
  case True
  then show ?thesis using advance_last [OF assms(1,3-5)] by simp
next
  case False
  then obtain A1 A2 where A: "A = A1 @ x # A2" using assms(2) by (auto dest: split_list)
  have "linked h i x (A2 @ B)" using linked_append [of h i x0 A1 x "A2 @ B"] assms(1) by (simp add: A)
  from advance_last [OF this] assms(3-5) show ?thesis by (simp add: A)
qed

subsection \<open>Representation\<close>

text \<open>
  A list \<open>as\<close> of addresses in the order of their keys; level \<open>i\<close> links the nodes higher than \<open>i\<close>.
\<close>

abbreviation tall :: "(nat, ('k, 'v) node) fmap \<Rightarrow> nat \<Rightarrow> nat list \<Rightarrow> nat list" where
  "tall h i as \<equiv> filter (\<lambda>a. i < height h a) as"

definition rep :: "('k::linorder, 'v) SkipList \<Rightarrow> nat list \<Rightarrow> bool" where
  "rep sl as \<longleftrightarrow>
     distinct (header sl # as) \<and> (\<forall>a. fmlookup (heap sl) a \<noteq> None \<longrightarrow> a < fresh sl) \<and>
     height (heap sl) (header sl) = maxLevel sl \<and>
     (\<forall>a \<in> set as. 0 < height (heap sl) a \<and> height (heap sl) a \<le> level sl) \<and>
     0 < level sl \<and> level sl \<le> maxLevel sl \<and>
     (level sl = 1 \<or> (\<exists>a \<in> set as. height (heap sl) a = level sl)) \<and>
     sorted_wrt (\<lambda>a b. key_at (heap sl) a < key_at (heap sl) b) as \<and>
     (\<forall>i < maxLevel sl. linked (heap sl) i (header sl) (tall (heap sl) i as)) \<and>
     tail sl = (if as = [] then None else Some (last as)) \<and> len sl = int (length as)"

definition before :: "'k::linorder \<Rightarrow> ('k, 'v) SkipList \<Rightarrow> nat list \<Rightarrow> nat list" where
  "before k sl as = takeWhile (\<lambda>a. key_at (heap sl) a < k) as"

definition from_on :: "'k::linorder \<Rightarrow> ('k, 'v) SkipList \<Rightarrow> nat list \<Rightarrow> nat list" where
  "from_on k sl as = dropWhile (\<lambda>a. key_at (heap sl) a < k) as"

definition pred_at :: "'k::linorder \<Rightarrow> ('k, 'v) SkipList \<Rightarrow> nat list \<Rightarrow> nat \<Rightarrow> nat" where
  "pred_at k sl as i = last (header sl # tall (heap sl) i (before k sl as))"

lemma before_from: "before k sl as @ from_on k sl as = as"
  by (simp add: before_def from_on_def)

lemma before_less: "a \<in> set (before k sl as) \<Longrightarrow> key_at (heap sl) a < k"
  by (auto simp: before_def dest: set_takeWhileD)

lemma from_on_not_less:
  assumes "rep sl as" "b \<in> set (from_on k sl as)"
  shows "\<not> key_at (heap sl) b < k"
proof -
  obtain c cs where c: "from_on k sl as = c # cs" using assms(2) by (cases "from_on k sl as") auto
  have "\<not> key_at (heap sl) c < k" using c hd_dropWhile [of "\<lambda>a. key_at (heap sl) a < k" as] by (simp add: from_on_def)
  moreover have "sorted_wrt (\<lambda>a b. key_at (heap sl) a < key_at (heap sl) b) (before k sl as @ c # cs)"
    using assms(1) before_from [of k sl as] by (simp add: rep_def c)
  then have "b = c \<or> key_at (heap sl) c < key_at (heap sl) b" using assms(2) by (auto simp: c sorted_wrt_append)
  ultimately show ?thesis by auto
qed

lemma rep_heap: "rep sl as \<Longrightarrow> a \<in> set as \<Longrightarrow> fmlookup (heap sl) a \<noteq> None"
  unfolding rep_def using height_in_heap [of "heap sl" a] by auto

lemma rep_linked:
  assumes "rep sl as" "i < maxLevel sl"
  shows "linked (heap sl) i (header sl) (tall (heap sl) i (before k sl as) @ tall (heap sl) i (from_on k sl as))"
  using assms before_from [of k sl as] by (metis filter_append rep_def)

lemma advance_rep:
  assumes "rep sl as" "i < maxLevel sl" "x \<in> set (header sl # tall (heap sl) i (before k sl as))"
  shows "advance (heap sl) i k x = Some (pred_at k sl as i)"
  unfolding pred_at_def
proof (rule advance_from [OF rep_linked [OF assms(1,2)] assms(3)])
  show "\<forall>a\<in>set (tall (heap sl) i (before k sl as) @ tall (heap sl) i (from_on k sl as)). fmlookup (heap sl) a \<noteq> None"
    using rep_heap [OF assms(1)] before_from [of k sl as] by (metis (no_types, lifting) filter_append filter_is_subset subset_iff)
qed (use before_less from_on_not_less [OF assms(1)] in auto)

lemma pred_at_mem: "pred_at k sl as i \<in> set (header sl # tall (heap sl) i (before k sl as))"
  unfolding pred_at_def by (rule last_in_set) simp

lemma descend_rep:
  assumes "rep sl as" "i < maxLevel sl" "x \<in> set (header sl # tall (heap sl) i (before k sl as))"
  shows "\<exists>u'. descend (heap sl) k (Suc i) x u = Some (pred_at k sl as 0, u') \<and> length u' = length u \<and>
    (\<forall>j < length u. u' ! j = (if j \<le> i then Some (pred_at k sl as j) else u ! j))"
  using assms(2,3)
proof (induction i arbitrary: x u)
  case 0
  then show ?case using advance_rep [OF assms(1) 0] by (auto simp: nth_list_update)
next
  case (Suc i)
  have "pred_at k sl as (Suc i) \<in> set (header sl # tall (heap sl) i (before k sl as))"
    using pred_at_mem [of k sl as "Suc i"] by auto
  from Suc.IH [OF _ this, of "u[Suc i := Some (pred_at k sl as (Suc i))]"] Suc.prems(1)
  obtain u' where "descend (heap sl) k (Suc i) (pred_at k sl as (Suc i)) (u[Suc i := Some (pred_at k sl as (Suc i))]) = Some (pred_at k sl as 0, u')"
    "length u' = length u"
    "\<forall>j < length u. u' ! j = (if j \<le> i then Some (pred_at k sl as j) else u[Suc i := Some (pred_at k sl as (Suc i))] ! j)"
    by auto
  then show ?case
    using advance_rep [OF assms(1) Suc.prems] by (auto simp: nth_list_update simp del: descend.simps) (auto simp: le_Suc_eq)
qed

lemma find_update_rep:
  assumes "rep sl as"
  shows "\<exists>u. find_update k sl = Some (pred_at k sl as 0, u) \<and> length u = maxLevel sl \<and>
    (\<forall>j < level sl. u ! j = Some (pred_at k sl as j))"
proof -
  obtain l where l: "level sl = Suc l" "l < maxLevel sl" using assms by (cases "level sl") (auto simp: rep_def)
  from descend_rep [OF assms l(2), of "header sl" k "replicate (maxLevel sl) None"] l show ?thesis
    by (auto simp: find_update_def)
qed

lemma descend_last:
  assumes "rep sl as"
  shows "\<exists>u. descend (heap sl) k (level sl) (header sl) [] = Some (pred_at k sl as 0, u)"
proof -
  obtain l where l: "level sl = Suc l" "l < maxLevel sl" using assms by (cases "level sl") (auto simp: rep_def)
  from descend_rep [OF assms l(2), of "header sl" k "[]"] l show ?thesis by auto
qed

lemma tall_0: "rep sl as \<Longrightarrow> set bs \<subseteq> set as \<Longrightarrow> tall (heap sl) 0 bs = bs"
  by (rule filter_True) (auto simp: rep_def)

lemma before_subset: "set (before k sl as) \<subseteq> set as" "set (from_on k sl as) \<subseteq> set as"
  by (auto simp: before_def from_on_def dest: set_takeWhileD set_dropWhileD)

lemma rep_linked_0:
  assumes "rep sl as"
  shows "linked (heap sl) 0 (header sl) as" "linked (heap sl) 0 (pred_at k sl as 0) (from_on k sl as)"
proof -
  have "linked (heap sl) 0 (header sl) (tall (heap sl) 0 as)" using assms unfolding rep_def by (metis less_le_trans)
  then show all: "linked (heap sl) 0 (header sl) as" using tall_0 [OF assms, of as] by simp
  have "linked (heap sl) 0 (last (header sl # before k sl as)) (from_on k sl as)"
    using linked_suffix [of "heap sl" 0 "header sl" "before k sl as"] all by (simp add: before_from)
  then show "linked (heap sl) 0 (pred_at k sl as 0) (from_on k sl as)"
    using tall_0 [OF assms before_subset(1) [of k sl as]] by (simp add: pred_at_def)
qed

lemma pred_at_fwd:
  assumes "rep sl as" "i < maxLevel sl"
  shows "fwd (heap sl) (pred_at k sl as i) i =
    Some (case tall (heap sl) i (from_on k sl as) of [] \<Rightarrow> None | y # _ \<Rightarrow> Some y)"
  unfolding pred_at_def by (rule linked_fwd [OF rep_linked [OF assms]])

lemma next_fwd:
  assumes "rep sl as"
  shows "fwd (heap sl) (pred_at k sl as 0) 0 = Some (case from_on k sl as of [] \<Rightarrow> None | y # _ \<Rightarrow> Some y)"
proof -
  have "0 < maxLevel sl" using assms by (auto simp: rep_def)
  from pred_at_fwd [OF assms this] show ?thesis using tall_0 [OF assms before_subset(2) [of k sl as]] by simp
qed

lemma next_node_rep:
  assumes "rep sl as"
  shows "next_node (heap sl) (pred_at k sl as 0) =
    Some (case from_on k sl as of [] \<Rightarrow> None | y # _ \<Rightarrow> Some (y, the (fmlookup (heap sl) y)))"
proof (cases "from_on k sl as")
  case Nil
  then show ?thesis using next_fwd [OF assms, of k] by (simp add: next_node_def)
next
  case (Cons y ys)
  then have "y \<in> set as" using before_subset(2) [of k sl as] by auto
  from rep_heap [OF assms this] Cons show ?thesis using next_fwd [OF assms, of k] by (auto simp: next_node_def)
qed

text \<open>The contents of a list of nodes, and which node holds a key.\<close>

definition pairs_at :: "(nat, ('k, 'v) node) fmap \<Rightarrow> nat list \<Rightarrow> ('k \<times> 'v) list" where
  "pairs_at h as = map (\<lambda>a. (key_at h a, val_at h a)) as"

definition contents :: "('k, 'v) SkipList \<Rightarrow> ('k \<times> 'v) list" where
  "contents sl = (case All sl of None \<Rightarrow> [] | Some ps \<Rightarrow> ps)"

lemma all_loop_linked:
  "linked h 0 x ys \<Longrightarrow> \<forall>y \<in> set ys. fmlookup h y \<noteq> None \<Longrightarrow>
   Option.bind (fwd h x 0) (all_loop h) = Some (pairs_at h ys)"
proof (induction ys arbitrary: x)
  case Nil
  then show ?case by (simp add: pairs_at_def all_loop.simps)
next
  case (Cons y ys)
  then have "Option.bind (fwd h y 0) (all_loop h) = Some (pairs_at h ys)" by simp
  then obtain nxt where "fwd h y 0 = Some nxt" "all_loop h nxt = Some (pairs_at h ys)" by (auto simp: bind_eq_Some_conv)
  with Cons.prems show ?case by (auto simp: pairs_at_def all_loop.simps [of h "Some y"])
qed

lemma All_rep:
  assumes "rep sl as"
  shows "All sl = Some (pairs_at (heap sl) as)" "contents sl = pairs_at (heap sl) as"
proof -
  show "All sl = Some (pairs_at (heap sl) as)" 
    using rep_linked_0(1) [OF assms] rep_heap [OF assms] by (simp add: All_def all_loop_linked)
  then show "contents sl = pairs_at (heap sl) as" by (simp add: contents_def)
qed

lemma pairs_at_append: "pairs_at h (A @ B) = pairs_at h A @ pairs_at h B"
  by (simp add: pairs_at_def)

lemma map_of_pairs_none: "\<forall>a \<in> set as. key_at h a \<noteq> k \<Longrightarrow> map_of (pairs_at h as) k = None"
  by (induction as) (auto simp: pairs_at_def)

lemma rep_sorted: "rep sl as \<Longrightarrow> sorted_wrt (\<lambda>a b. key_at (heap sl) a < key_at (heap sl) b) (before k sl as @ from_on k sl as)"
  by (simp add: before_from rep_def)

lemma from_on_rest:
  assumes "rep sl as" "from_on k sl as = y # ys" "b \<in> set ys"
  shows "k < key_at (heap sl) b"
proof -
  have "\<not> key_at (heap sl) y < k" using from_on_not_less [OF assms(1), of y k] assms(2) by simp
  moreover have "key_at (heap sl) y < key_at (heap sl) b"
    using rep_sorted [OF assms(1), of k] assms(2,3) by (simp add: sorted_wrt_append)
  ultimately show ?thesis by simp
qed

lemma map_of_rep:
  assumes "rep sl as"
  shows "map_of (pairs_at (heap sl) as) k =
    (case from_on k sl as of [] \<Rightarrow> None | y # _ \<Rightarrow> if key_at (heap sl) y = k then Some (val_at (heap sl) y) else None)"
proof -
  have bef: "map_of (pairs_at (heap sl) (before k sl as)) k = None" using before_less by (intro map_of_pairs_none) force
  have "pairs_at (heap sl) as = pairs_at (heap sl) (before k sl as) @ pairs_at (heap sl) (from_on k sl as)"
    by (metis before_from pairs_at_append)
  then have split: "map_of (pairs_at (heap sl) as) k = map_of (pairs_at (heap sl) (from_on k sl as)) k"
    using bef by (simp add: map_add_def split: option.split)
  show ?thesis
  proof (cases "from_on k sl as")
    case (Cons y ys)
    have "\<forall>b \<in> set ys. key_at (heap sl) b \<noteq> k" using from_on_rest [OF assms Cons] by blast
    then have "map_of (pairs_at (heap sl) ys) k = None" by (rule map_of_pairs_none)
    then show ?thesis using split by (simp add: Cons pairs_at_def)
  qed (use split in \<open>simp add: pairs_at_def\<close>)
qed

lemma Search_rep:
  assumes "rep sl as"
  shows "Search k sl = Some (map_of (pairs_at (heap sl) as) k)"
proof -
  obtain u where "descend (heap sl) k (level sl) (header sl) [] = Some (pred_at k sl as 0, u)"
    using descend_last [OF assms] by blast
  then show ?thesis
    unfolding Search_def map_of_rep [OF assms] by (simp add: next_node_rep [OF assms] split: list.split)
qed

subsection \<open>Linking and unlinking\<close>

text \<open>Two heaps with the same nodes, up to where the pointers lead.\<close>

definition shape :: "(nat, ('k, 'v) node) fmap \<Rightarrow> nat \<Rightarrow> ('k \<times> 'v \<times> nat) option" where
  "shape h a = map_option (\<lambda>n. (key n, val n, length (forward n))) (fmlookup h a)"

lemma shape_eq:
  assumes "shape h' a = shape h a"
  shows "height h' a = height h a" "fmlookup h' a = None \<longleftrightarrow> fmlookup h a = None"
    "fmlookup h a \<noteq> None \<Longrightarrow> key_at h' a = key_at h a" "fmlookup h a \<noteq> None \<Longrightarrow> val_at h' a = val_at h a"
  using assms by (auto simp: shape_def height_def split: option.splits)

lemma set_fwd_effect:
  assumes "i < height h x"
  shows "\<exists>h'. set_fwd x i v h = Some h' \<and> shape h' = shape h \<and>
    (\<forall>y j. fwd h' y j = (if y = x \<and> j = i then Some v else fwd h y j))"
proof -
  obtain n where n: "fmlookup h x = Some n" "i < length (forward n)"
    using assms by (auto simp: height_def split: option.splits)
  let ?h' = "fmupd x (n\<lparr>forward := (forward n)[i := v]\<rparr>) h"
  have "shape ?h' = shape h" by (rule ext) (auto simp: shape_def n)
  moreover have "\<forall>y j. fwd ?h' y j = (if y = x \<and> j = i then Some v else fwd h y j)"
    by (simp add: fwd_def n nth_list_update)
  ultimately show ?thesis using n by (simp add: set_fwd_def)
qed

lemma link_effect:
  assumes "distinct is"
    and "\<forall>i \<in> set is. entry_of u i = Some (p i) \<and> p i \<noteq> new \<and> i < height h (p i) \<and> i < height h new"
  shows "\<exists>h'. link new u is h = Some h' \<and> shape h' = shape h \<and>
    (\<forall>y j. fwd h' y j =
      (if j \<in> set is \<and> y = new then fwd h (p j) j
       else if j \<in> set is \<and> y = p j then Some (Some new) else fwd h y j))"
  using assms
proof (induction "is" arbitrary: h)
  case Nil
  then show ?case by simp
next
  case (Cons i "is")
  then have i: "entry_of u i = Some (p i)" "p i \<noteq> new" "i < height h (p i)" "i < height h new" by auto
  obtain nxt where nxt: "fwd h (p i) i = Some nxt" using i(3) fwd_Some by metis
  obtain h1 where h1: "set_fwd new i nxt h = Some h1" "shape h1 = shape h"
    "\<forall>y j. fwd h1 y j = (if y = new \<and> j = i then Some nxt else fwd h y j)" using set_fwd_effect [OF i(4)] by metis
  have "i < height h1 (p i)" using shape_eq(1) [of h1 "p i" h] h1(2) i(3) by simp
  from set_fwd_effect [OF this] obtain h2 where h2: "set_fwd (p i) i (Some new) h1 = Some h2" "shape h2 = shape h1"
    "\<forall>y j. fwd h2 y j = (if y = p i \<and> j = i then Some (Some new) else fwd h1 y j)" by metis
  have ht: "height h2 a = height h a" for a using shape_eq(1) [of h2 a h] h1(2) h2(2) by simp
  have "\<forall>i \<in> set is. entry_of u i = Some (p i) \<and> p i \<noteq> new \<and> i < height h2 (p i) \<and> i < height h2 new"
    using Cons.prems(2) by (simp add: ht)
  from Cons.IH [OF _ this] Cons.prems(1) obtain h' where h': "link new u is h2 = Some h'" "shape h' = shape h2"
    "\<forall>y j. fwd h' y j =
      (if j \<in> set is \<and> y = new then fwd h2 (p j) j
       else if j \<in> set is \<and> y = p j then Some (Some new) else fwd h2 y j)" by auto
  have "fwd h' y j = (if j \<in> set (i # is) \<and> y = new then fwd h (p j) j
       else if j \<in> set (i # is) \<and> y = p j then Some (Some new) else fwd h y j)" for y j
    using Cons.prems h'(3) h2(3) h1(3) nxt i(2) by auto
  then show ?case using i nxt h1 h2 h' by simp
qed

lemma unlink_effect:
  assumes "distinct A"
    and "\<forall>i \<in> set A. entry_of u i = Some (p i) \<and> p i \<noteq> x \<and> fwd h (p i) i = Some (Some x) \<and> i < height h x"
    and "B = [] \<or> hd B \<notin> set A \<and> entry_of u (hd B) = Some (p (hd B)) \<and> hd B < height h (p (hd B)) \<and> fwd h (p (hd B)) (hd B) \<noteq> Some (Some x)"
  shows "\<exists>h'. unlink x u (A @ B) h = Some h' \<and> shape h' = shape h \<and>
    (\<forall>y j. fwd h' y j = (if j \<in> set A \<and> y = p j then fwd h x j else fwd h y j))"
  using assms
proof (induction A arbitrary: h)
  case Nil
  show ?case
  proof (cases B)
    case (Cons b bs)
    then have "\<exists>nxt. fwd h (p b) b = Some nxt" using Nil.prems(3) by (simp add: fwd_Some)
    then show ?thesis using Nil.prems(3) Cons by auto
  qed simp
next
  case (Cons i A)
  then have i: "entry_of u i = Some (p i)" "p i \<noteq> x" "fwd h (p i) i = Some (Some x)" "i < height h x" by auto
  obtain nxt where nxt: "fwd h x i = Some nxt" using i(4) fwd_Some by metis
  have "i < height h (p i)" using i(3) fwd_Some by metis
  from set_fwd_effect [OF this] obtain h1 where h1: "set_fwd (p i) i nxt h = Some h1" "shape h1 = shape h"
    "\<forall>y j. fwd h1 y j = (if y = p i \<and> j = i then Some nxt else fwd h y j)" by metis
  have ht: "height h1 a = height h a" for a using shape_eq(1) [of h1 a h] h1(2) by simp
  have "\<forall>j \<in> set A. entry_of u j = Some (p j) \<and> p j \<noteq> x \<and> fwd h1 (p j) j = Some (Some x) \<and> j < height h1 x"
    using Cons.prems(1,2) h1(3) by (auto simp: ht)
  moreover have "B = [] \<or> hd B \<notin> set A \<and> entry_of u (hd B) = Some (p (hd B)) \<and> hd B < height h1 (p (hd B)) \<and> fwd h1 (p (hd B)) (hd B) \<noteq> Some (Some x)"
    using Cons.prems(3) h1(3) by (auto simp: ht)
  ultimately obtain h' where h': "unlink x u (A @ B) h1 = Some h'" "shape h' = shape h1"
    "\<forall>y j. fwd h' y j = (if j \<in> set A \<and> y = p j then fwd h1 x j else fwd h1 y j)"
    using Cons.IH [of h1] Cons.prems(1) by auto
  have "fwd h' y j = (if j \<in> set (i # A) \<and> y = p j then fwd h x j else fwd h y j)" for y j
    using Cons.prems(1,2) h'(3) h1(3) nxt i(2) by auto
  then show ?case using i nxt h1 h' by simp
qed

lemma lower_effect:
  assumes "0 < l" "l \<le> height h x"
  shows "\<exists>l'. lower h x l = Some l' \<and> 0 < l' \<and> l' \<le> l \<and> (l' = 1 \<or> fwd h x (l' - 1) \<noteq> Some None) \<and>
    (\<forall>j. l' \<le> j \<and> j < l \<longrightarrow> fwd h x j = Some None)"
  using assms
proof (induction l)
  case (Suc l)
  show ?case
  proof (cases "l = 0 \<or> fwd h x l \<noteq> Some None")
    case True
    moreover have "\<exists>v. fwd h x l = Some v" using Suc.prems by (simp add: fwd_Some)
    ultimately show ?thesis by auto
  next
    case False
    then show ?thesis using Suc by (auto simp: less_Suc_eq)
  qed
qed simp

lemma random_level_bounds:
  "random_level lvl sl = (lvl', sl') \<Longrightarrow> lvl \<le> maxLevel sl \<Longrightarrow>
   lvl \<le> lvl' \<and> lvl' \<le> maxLevel sl \<and> (\<exists>d. sl' = sl\<lparr>drawn := d\<rparr>)"
proof (induction lvl sl arbitrary: lvl' sl' rule: random_level.induct)
  case (1 lvl sl)
  show ?case
  proof (cases "lvl < maxLevel sl \<and> coin sl (drawn sl)")
    case True
    then have "random_level (lvl + 1) (sl\<lparr>drawn := drawn sl + 1\<rparr>) = (lvl', sl')"
      using 1(2) by (simp add: random_level.simps [of lvl] Let_def)
    from 1(1) [OF _ refl _ this] True show ?thesis by auto
  next
    case False
    then show ?thesis using 1(2,3) by (auto simp: random_level.simps [of lvl] Let_def split: if_splits intro: exI [of _ "drawn sl"])
  qed
qed

subsection \<open>Preservation of the representation\<close>

lemma rep_header:
  assumes "rep sl as"
  shows "fmlookup (heap sl) (header sl) \<noteq> None" "fmlookup (heap sl) (fresh sl) = None"
    "header sl \<noteq> fresh sl" "fresh sl \<notin> set as"
proof -
  have "0 < height (heap sl) (header sl)" using assms unfolding rep_def by linarith
  then show h: "fmlookup (heap sl) (header sl) \<noteq> None" by (auto simp: height_def split: option.splits)
  have lt: "\<And>a. fmlookup (heap sl) a \<noteq> None \<Longrightarrow> a < fresh sl" using assms unfolding rep_def by blast
  then show f: "fmlookup (heap sl) (fresh sl) = None" by blast
  show "header sl \<noteq> fresh sl" using h f by auto
  show "fresh sl \<notin> set as" using f rep_heap [OF assms, of "fresh sl"] by auto
qed

lemma pred_at_above:
  assumes "rep sl as" "level sl \<le> i"
  shows "pred_at k sl as i = header sl"
proof -
  have "\<forall>a \<in> set (before k sl as). \<not> i < height (heap sl) a"
    using assms before_subset(1) [of k sl as] unfolding rep_def by (meson leD le_less_trans order_trans subsetD)
  then have "tall (heap sl) i (before k sl as) = []" by (simp add: filter_empty_conv)
  then show ?thesis by (simp add: pred_at_def)
qed

lemma pred_at_height:
  assumes "rep sl as" "i < maxLevel sl"
  shows "i < height (heap sl) (pred_at k sl as i)" "pred_at k sl as i \<noteq> fresh sl"
proof -
  have "height (heap sl) (header sl) = maxLevel sl" using assms(1) by (simp add: rep_def)
  then show "i < height (heap sl) (pred_at k sl as i)" using pred_at_mem [of k sl as i] assms(2) by auto
  then show "pred_at k sl as i \<noteq> fresh sl" using rep_header(2) [OF assms(1)] by (auto simp: height_def)
qed

lemma fold_header: "length (fold (\<lambda>i u. u[i := Some v]) is u) = length u"
  "j < length u \<Longrightarrow> fold (\<lambda>i u. u[i := Some v]) is u ! j = (if j \<in> set is then Some v else u ! j)"
  by (induction "is" arbitrary: u) (auto simp: nth_list_update)

text \<open>The list after a node was linked between two parts of it.\<close>

lemma rep_spliced:
  assumes rep: "rep sl (A @ B)" and new: "new = fresh sl" and lvl: "0 < lvl" "lvl \<le> maxLevel sl"
    and p: "\<And>j. p j = last (header sl # tall (heap sl) j A)"
    and shp: "\<And>a. shape (heap sl') a = (if a = new then Some (k, v, lvl) else shape (heap sl) a)"
    and ptr: "\<And>j. j < lvl \<Longrightarrow> fwd (heap sl') new j = fwd (heap sl) (p j) j"
      "\<And>j. j < lvl \<Longrightarrow> fwd (heap sl') (p j) j = Some (Some new)"
      "\<And>y j. y \<noteq> new \<Longrightarrow> \<not> (j < lvl \<and> y = p j) \<Longrightarrow> fwd (heap sl') y j = fwd (heap sl) y j"
    and keys: "\<forall>a \<in> set A. key_at (heap sl) a < k" "\<forall>b \<in> set B. k < key_at (heap sl) b"
    and flds: "fresh sl' = new + 1" "header sl' = header sl" "maxLevel sl' = maxLevel sl" "level sl' = max lvl (level sl)"
      "tail sl' = (if B = [] then Some new else tail sl)" "len sl' = len sl + 1"
  shows "rep sl' (A @ new # B)"
proof -
  have old: "a \<noteq> new \<Longrightarrow> shape (heap sl') a = shape (heap sl) a" for a by (simp add: shp)
  have notnew: "new \<notin> set (A @ B)" "header sl \<noteq> new" using rep_header [OF rep] new by auto
  have ht: "height (heap sl') a = (if a = new then lvl else height (heap sl) a)" for a
    using shp [of new] shape_eq(1) [OF old, of a] by (auto simp: shape_def height_def split: option.splits)
  have nk: "key_at (heap sl') new = k" using shp [of new] by (auto simp: shape_def)
  have ky: "key_at (heap sl') a = key_at (heap sl) a" if "a \<in> set (A @ B)" for a
    using shape_eq(3) [OF old] rep_heap [OF rep that] notnew that by metis
  have srt: "sorted_wrt (\<lambda>a b. key_at (heap sl') a < key_at (heap sl') b) (A @ new # B)"
  proof -
    have "sorted_wrt (\<lambda>a b. key_at (heap sl) a < key_at (heap sl) b) (A @ B)" using rep by (simp add: rep_def)
    then have "sorted_wrt (\<lambda>a b. key_at (heap sl') a < key_at (heap sl') b) (A @ B)"
      by (rule sorted_wrt_mono_rel [rotated]) (simp add: ky)
    then show ?thesis using keys ky by (simp add: sorted_wrt_append nk)
  qed
  have lnk: "linked (heap sl') i (header sl) (tall (heap sl') i (A @ new # B))" if i: "i < maxLevel sl" for i
  proof -
    have eq: "tall (heap sl') i xs = tall (heap sl) i xs" if "new \<notin> set xs" for xs
      using that by (intro filter_cong) (auto simp: ht)
    have l: "linked (heap sl) i (header sl) (tall (heap sl) i A @ tall (heap sl) i B)" and d: "distinct (header sl # tall (heap sl) i A @ tall (heap sl) i B)"
      using rep i unfolding rep_def by auto
    show ?thesis
    proof (cases "i < lvl")
      case True
      have "linked (heap sl') i (header sl) (tall (heap sl) i A @ new # tall (heap sl) i B)"
      proof (rule linked_insert [OF l d ptr(2,1) [OF True, unfolded p]])
        fix y
        assume "y \<in> set (header sl # tall (heap sl) i A @ tall (heap sl) i B)" "y \<noteq> last (header sl # tall (heap sl) i A)"
        moreover from this(1) have "y \<noteq> new" using notnew by auto
        ultimately show "fwd (heap sl') y i = fwd (heap sl) y i" by (intro ptr(3)) (simp_all add: p)
      qed
      then show ?thesis using notnew eq [of A] eq [of B] by (simp add: ht [of new] True)
    next
      case False
      have "linked (heap sl') i (header sl) (tall (heap sl) i A @ tall (heap sl) i B)"
        using notnew False by (intro linked_mono [OF l] ballI ptr(3)) auto
      then show ?thesis using notnew eq [of A] eq [of B] False by (simp add: ht [of new])
    qed
  qed
  have "fmlookup (heap sl') a \<noteq> None \<longrightarrow> a < fresh sl'" for a
    using rep shape_eq(2) [OF old, of a] unfolding rep_def flds new by (cases "a = new") (auto simp: new less_SucI)
  moreover have "level sl' = 1 \<or> (\<exists>a \<in> set (A @ new # B). height (heap sl') a = level sl')"
    using rep lvl notnew unfolding rep_def flds by (auto simp: ht max_def)
  ultimately show ?thesis
    using rep srt lnk notnew lvl unfolding rep_def by (auto simp: flds ht le_max_iff_disj)
qed

lemma insert_new_rep:
  assumes rep: "rep sl as" and u: "length u = maxLevel sl" "\<forall>j < level sl. u ! j = Some (pred_at k sl as j)"
    and absent: "\<forall>b \<in> set as. key_at (heap sl) b \<noteq> k"
  shows "\<exists>sl' new. insert_new k v u sl = Some sl' \<and> new \<notin> set as \<and>
    rep sl' (before k sl as @ new # from_on k sl as) \<and> maxLevel sl' = maxLevel sl \<and>
    (\<forall>a. shape (heap sl') a = (if a = new then shape (heap sl') new else shape (heap sl) a)) \<and>
    key_at (heap sl') new = k \<and> val_at (heap sl') new = v"
proof -
  obtain lvl sl1 where rl: "randomLevel sl = (lvl, sl1)" by (cases "randomLevel sl")
  have "1 \<le> maxLevel sl" using rep unfolding rep_def by linarith
  then obtain d where lvl: "0 < lvl" "lvl \<le> maxLevel sl" "sl1 = sl\<lparr>drawn := d\<rparr>"
    using random_level_bounds [of 1 sl lvl sl1] rl by (auto simp: randomLevel_def)
  let ?new = "fresh sl" and ?p = "pred_at k sl as"
  let ?u = "fold (\<lambda>i u. u[i := Some (header sl)]) [level sl..<lvl] u"
  let ?h0 = "fmupd ?new \<lparr>key = k, val = v, forward = replicate lvl None\<rparr> (heap sl)"
  have h0: "height ?h0 a = (if a = ?new then lvl else height (heap sl) a)"
    "fwd ?h0 a j = (if a = ?new then (if j < lvl then Some None else None) else fwd (heap sl) a j)" for a j
    by (auto simp: height_def fwd_def)
  have ent: "entry_of ?u j = Some (?p j)" if "j < lvl" for j
    using that lvl u pred_at_above [OF rep, of j k] by (auto simp: entry_of_def nth_opt_def fold_header)
  have "\<forall>i \<in> set [0..<lvl]. entry_of ?u i = Some (?p i) \<and> ?p i \<noteq> ?new \<and> i < height ?h0 (?p i) \<and> i < height ?h0 ?new"
    using ent pred_at_height [OF rep, of _ k] lvl by (auto simp: h0)
  from link_effect [OF _ this] obtain h where h: "link ?new ?u [0..<lvl] ?h0 = Some h" "shape h = shape ?h0"
    "\<forall>y j. fwd h y j = (if j \<in> set [0..<lvl] \<and> y = ?new then fwd ?h0 (?p j) j
       else if j \<in> set [0..<lvl] \<and> y = ?p j then Some (Some ?new) else fwd ?h0 y j)" by auto
  have pn: "j < lvl \<Longrightarrow> ?p j \<noteq> ?new" for j using pred_at_height(2) [OF rep, of j k] lvl by simp
  have ptr: "fwd h y j = (if j < lvl \<and> y = ?new then fwd (heap sl) (?p j) j
       else if j < lvl \<and> y = ?p j then Some (Some ?new) else fwd ?h0 y j)" for y j
    using pn h(3) by (auto simp: h0)
  define sl' where "sl' = sl1\<lparr>heap := h, fresh := ?new + 1, level := (if lvl > level sl then lvl else level sl),
    tail := (if from_on k sl as = [] then Some ?new else tail sl), len := len sl + 1\<rparr>"
  have "fwd h ?new 0 = Some (case from_on k sl as of [] \<Rightarrow> None | y # _ \<Rightarrow> Some y)" using lvl by (simp add: ptr next_fwd [OF rep])
  then have ins: "insert_new k v u sl = Some sl'"
    using h(1) lvl(3) by (simp add: insert_new_def rl sl'_def Let_def split: list.split)
  have shp: "shape h a = (if a = ?new then Some (k, v, lvl) else shape (heap sl) a)" for a by (simp add: h(2)) (simp add: shape_def)
  have bf: "rep sl (before k sl as @ from_on k sl as)" using rep by (simp add: before_from)
  have "\<forall>b \<in> set (from_on k sl as). k < key_at (heap sl) b"
    using from_on_not_less [OF rep] absent before_subset(2) [of k sl as] by (metis linorder_neqE subsetD)
  then have "rep sl' (before k sl as @ ?new # from_on k sl as)"
    using before_less ptr pn lvl
    by (intro rep_spliced [OF bf refl lvl(1,2) pred_at_def, of sl' k v]) (auto simp: sl'_def shp h0)
  moreover have "key_at h ?new = k" "val_at h ?new = v" using shp [of ?new] by (auto simp: shape_def)
  ultimately show ?thesis
    using ins shp rep_header(4) [OF rep] lvl(3) by (intro exI [of _ sl'] exI [of _ ?new]) (simp add: sl'_def)
qed

text \<open>What a list of nodes stores for a key.\<close>

abbreviation stored :: "('k, 'v) SkipList \<Rightarrow> nat list \<Rightarrow> ('k \<rightharpoonup> 'v)" where
  "stored sl as \<equiv> map_of (pairs_at (heap sl) as)"

lemma map_of_splice: "k \<notin> fst ` set X \<Longrightarrow> map_of (X @ (k, v) # Y) = (map_of (X @ Y))(k \<mapsto> v)"
  by (induction X) (auto simp: fun_upd_twist)

lemma map_of_cut: "k \<notin> fst ` set (X @ Y) \<Longrightarrow> map_of (X @ Y) = (map_of (X @ (k, v) # Y))(k := None)"
  by (induction X) (auto simp: fun_upd_twist fun_upd_idem map_of_eq_None_iff)

lemma pairs_at_cong:
  assumes "\<And>a. a \<in> set as \<Longrightarrow> shape h' a = shape h a" "\<And>a. a \<in> set as \<Longrightarrow> fmlookup h a \<noteq> None"
  shows "pairs_at h' as = pairs_at h as"
  unfolding pairs_at_def
proof (rule map_cong [OF refl])
  fix a
  assume "a \<in> set as"
  then show "(key_at h' a, val_at h' a) = (key_at h a, val_at h a)" using assms shape_eq(3,4) [of h' a h] by simp
qed

lemma pairs_at_keys: "fst ` set (pairs_at h as) = key_at h ` set as"
  by (force simp: pairs_at_def)

lemma from_on_present:
  assumes "rep sl as" "b \<in> set as" "key_at (heap sl) b = k"
  shows "\<exists>ys. from_on k sl as = b # ys"
proof -
  have "b \<in> set (from_on k sl as)" using assms(2,3) before_from [of k sl as] before_less [of b k sl as]
    by (metis Un_iff less_irrefl set_append)
  then obtain y ys where y: "from_on k sl as = y # ys" "b = y \<or> b \<in> set ys" by (cases "from_on k sl as") auto
  then show ?thesis using from_on_rest [OF assms(1) y(1)] assms(3) by auto
qed

lemma rep_cong:
  assumes rep: "rep sl as"
    and same: "\<And>a i. fwd (heap sl') a i = fwd (heap sl) a i" "\<And>a. height (heap sl') a = height (heap sl) a"
      "\<And>a. key_at (heap sl') a = key_at (heap sl) a" "\<And>a. fmlookup (heap sl') a = None \<longleftrightarrow> fmlookup (heap sl) a = None"
    and flds: "fresh sl' = fresh sl" "header sl' = header sl" "tail sl' = tail sl" "level sl' = level sl" "len sl' = len sl"
      "maxLevel sl' = maxLevel sl"
  shows "rep sl' as"
proof -
  have "linked (heap sl') i x ys = linked (heap sl) i x ys" for i x ys by (rule linked_cong) (rule same)
  then show ?thesis using rep unfolding rep_def flds same by simp
qed

lemma rep_update:
  assumes rep: "rep sl as" and y: "fmlookup (heap sl) y = Some n"
  shows "rep (sl\<lparr>heap := fmupd y (n\<lparr>val := v\<rparr>) (heap sl)\<rparr>) as"
  using y by (intro rep_cong [OF rep]) (auto simp: fwd_def height_def)

lemma pairs_at_Cons: "pairs_at h (a # as) = (key_at h a, val_at h a) # pairs_at h as"
  by (simp add: pairs_at_def)

lemma rep_pairs: "pairs_at (heap sl) as = pairs_at (heap sl) (before k sl as) @ pairs_at (heap sl) (from_on k sl as)"
  by (metis before_from pairs_at_append)

lemma before_keys: "k \<notin> fst ` set (pairs_at (heap sl) (before k sl as))"
  using before_less [of _ k sl as] by (auto simp: pairs_at_keys)

lemma stored_present:
  assumes "from_on k sl as = y # ys" "key_at (heap sl) y = k"
  shows "stored sl as = (map_of (pairs_at (heap sl) (before k sl as) @ pairs_at (heap sl) ys))(k \<mapsto> val_at (heap sl) y)"
  unfolding rep_pairs [of sl as k] assms(1) pairs_at_Cons assms(2) by (rule map_of_splice [OF before_keys])

lemma stored_update:
  assumes rep: "rep sl as" and y: "from_on k sl as = y # ys" "key_at (heap sl) y = k" "fmlookup (heap sl) y = Some n"
  shows "stored (sl\<lparr>heap := fmupd y (n\<lparr>val := v\<rparr>) (heap sl)\<rparr>) as = (stored sl as)(k \<mapsto> v)"
proof -
  let ?h = "fmupd y (n\<lparr>val := v\<rparr>) (heap sl)"
  have "distinct (before k sl as @ y # ys)" using rep before_from [of k sl as] y(1) by (simp add: rep_def)
  then have "pairs_at ?h (before k sl as) = pairs_at (heap sl) (before k sl as)" "pairs_at ?h ys = pairs_at (heap sl) ys"
    by (auto intro!: map_cong simp: pairs_at_def)
  then have "pairs_at ?h (before k sl as @ y # ys) = pairs_at (heap sl) (before k sl as) @ (k, v) # pairs_at (heap sl) ys"
    using y(2,3) by (simp add: pairs_at_append pairs_at_Cons)
  then have "map_of (pairs_at ?h as) = map_of (pairs_at (heap sl) (before k sl as) @ (k, v) # pairs_at (heap sl) ys)"
    using before_from [of k sl as] y(1) by simp
  then show ?thesis unfolding stored_present [OF y(1,2)] by (simp add: map_of_splice [OF before_keys] del: map_of_append)
qed

lemma Insert_present:
  assumes rep: "rep sl as" and y: "from_on k sl as = y # ys" "key_at (heap sl) y = k"
  shows "\<exists>sl'. Insert k v sl = Some sl' \<and> rep sl' as \<and> stored sl' as = (stored sl as)(k \<mapsto> v) \<and> maxLevel sl' = maxLevel sl"
proof -
  have "y \<in> set as" using y(1) before_subset(2) [of k sl as] by auto
  then obtain n where n: "fmlookup (heap sl) y = Some n" using rep_heap [OF rep] by blast
  obtain u where "find_update k sl = Some (pred_at k sl as 0, u)" using find_update_rep [OF rep] by blast
  then have "Insert k v sl = Some (sl\<lparr>heap := fmupd y (n\<lparr>val := v\<rparr>) (heap sl)\<rparr>)"
    using y n by (simp add: Insert_def next_node_rep [OF rep])
  then show ?thesis using rep_update [OF rep n] stored_update [OF rep y n] by simp
qed

lemma Insert_absent:
  assumes rep: "rep sl as" and absent: "\<forall>b \<in> set as. key_at (heap sl) b \<noteq> k"
  shows "\<exists>sl' as'. Insert k v sl = Some sl' \<and> rep sl' as' \<and> stored sl' as' = (stored sl as)(k \<mapsto> v) \<and> maxLevel sl' = maxLevel sl"
proof -
  obtain u where u: "find_update k sl = Some (pred_at k sl as 0, u)" "length u = maxLevel sl"
    "\<forall>j < level sl. u ! j = Some (pred_at k sl as j)" using find_update_rep [OF rep] by blast
  obtain sl' new where ins: "insert_new k v u sl = Some sl'" "new \<notin> set as" "rep sl' (before k sl as @ new # from_on k sl as)"
    "maxLevel sl' = maxLevel sl" "\<forall>a. shape (heap sl') a = (if a = new then shape (heap sl') new else shape (heap sl) a)"
    "key_at (heap sl') new = k" "val_at (heap sl') new = v" using insert_new_rep [OF rep u(2,3) absent] by metis
  have "pairs_at (heap sl') bs = pairs_at (heap sl) bs" if "set bs \<subseteq> set as" for bs
    using that ins(2,5) rep_heap [OF rep] by (intro pairs_at_cong) (metis subsetD)+
  then have "pairs_at (heap sl') (before k sl as @ new # from_on k sl as) =
      pairs_at (heap sl) (before k sl as) @ (k, v) # pairs_at (heap sl) (from_on k sl as)"
    using before_subset [of k sl as] ins(6,7) by (simp add: pairs_at_append pairs_at_Cons)
  then have "stored sl' (before k sl as @ new # from_on k sl as) = (stored sl as)(k \<mapsto> v)"
    using map_of_splice [OF before_keys [of k sl as], of v] rep_pairs [of sl as k] by (simp del: map_of_append)
  moreover have "Insert k v sl = Some sl'"
  proof (cases "from_on k sl as")
    case (Cons y ys)
    then have "key_at (heap sl) y \<noteq> k" using absent before_subset(2) [of k sl as] by simp
    then show ?thesis using u(1) ins(1) by (simp add: Insert_def next_node_rep [OF rep] Cons)
  qed (use u(1) ins(1) in \<open>simp add: Insert_def next_node_rep [OF rep]\<close>)
  ultimately show ?thesis using ins(3,4) by blast
qed

lemma Insert_rep:
  assumes "rep sl as"
  shows "\<exists>sl' as'. Insert k v sl = Some sl' \<and> rep sl' as' \<and> stored sl' as' = (stored sl as)(k \<mapsto> v) \<and> maxLevel sl' = maxLevel sl"
proof (cases "\<exists>b \<in> set as. key_at (heap sl) b = k")
  case True
  then show ?thesis using from_on_present [OF assms] Insert_present [OF assms] by metis
next
  case False
  then show ?thesis using Insert_absent [OF assms] by blast
qed

text \<open>The list after a node was taken out of it.\<close>

lemma linked_cut:
  assumes l: "linked h i hdr (tall h i (A @ x # B))" and d: "distinct (hdr # A @ x # B)"
    and ptr: "\<And>y. fwd h' y i = (if i < height h x \<and> y = last (hdr # tall h i A) then fwd h x i else fwd h y i)"
  shows "linked h' i hdr (tall h i (A @ B))"
proof (cases "i < height h x")
  case True
  have "linked h' i hdr (tall h i A @ tall h i B)"
  proof (rule linked_remove [of h _ _ _ x])
    show "linked h i hdr (tall h i A @ x # tall h i B)" using l True by simp
    show "distinct (hdr # tall h i A @ x # tall h i B)" using d by auto
    show "fwd h' (last (hdr # tall h i A)) i = fwd h x i" using ptr [of "last (hdr # tall h i A)"] True by argo
  next
    fix z
    assume "z \<noteq> last (hdr # tall h i A)"
    then show "fwd h' z i = fwd h z i" using ptr [of z] by argo
  qed
  then show ?thesis by simp
next
  case False
  then have "linked h i hdr (tall h i (A @ B))" using l by simp
  then show ?thesis by (rule linked_mono) (simp add: ptr False)
qed

text \<open>The level is the highest one in use, once the empty levels at the top were dropped.\<close>

lemma level_of_chains:
  assumes lnk: "\<And>i. i < m \<Longrightarrow> linked h' i hdr (tall h i as)" and "l \<le> m"
    and hl: "\<forall>a \<in> set as. height h a \<le> l"
    and lvl: "0 < l'" "l' \<le> l" "l' = 1 \<or> fwd h' hdr (l' - 1) \<noteq> Some None" "\<forall>j. l' \<le> j \<and> j < l \<longrightarrow> fwd h' hdr j = Some None"
  shows "\<forall>a \<in> set as. height h a \<le> l'" "l' = 1 \<or> (\<exists>a \<in> set as. height h a = l')"
proof -
  show top: "\<forall>a \<in> set as. height h a \<le> l'"
  proof (rule ccontr)
    assume "\<not> ?thesis"
    then obtain a where a: "a \<in> set as" "l' < height h a" by force
    then have lt: "l' < l" using hl by force
    then have "fwd h' hdr l' = Some None" using lvl(4) by simp
    then have "tall h l' as = []" using lnk [of l'] lt assms(2) by (cases "tall h l' as") auto
    then show False using a by (simp add: filter_empty_conv)
  qed
  show "l' = 1 \<or> (\<exists>a \<in> set as. height h a = l')"
  proof (cases "l' = 1")
    case ne: False
    have "linked h' (l' - 1) hdr (tall h (l' - 1) as)" using lvl(1,2) assms(2) by (intro lnk) simp
    then have "tall h (l' - 1) as \<noteq> []" using lvl(3) ne by (cases "tall h (l' - 1) as") auto
    then obtain a where a: "a \<in> set as" "l' - 1 < height h a" by (auto simp: filter_empty_conv)
    then have "height h a = l'" using top by fastforce
    then show ?thesis using a(1) by blast
  qed simp
qed

lemma rep_cut:
  assumes rep: "rep sl (A @ x # B)"
    and shp: "shape (heap sl') = shape (heap sl)"
    and ptr: "\<And>y j. fwd (heap sl') y j =
      (if j < height (heap sl) x \<and> y = last (header sl # tall (heap sl) j A) then fwd (heap sl) x j else fwd (heap sl) y j)"
    and lvl: "0 < level sl'" "level sl' \<le> level sl" "level sl' = 1 \<or> fwd (heap sl') (header sl) (level sl' - 1) \<noteq> Some None"
      "\<forall>j. level sl' \<le> j \<and> j < level sl \<longrightarrow> fwd (heap sl') (header sl) j = Some None"
    and flds: "fresh sl' = fresh sl" "header sl' = header sl" "maxLevel sl' = maxLevel sl" "len sl' = len sl - 1"
      "tail sl' = (if B = [] then (if A = [] then None else Some (last A)) else tail sl)"
  shows "rep sl' (A @ B)"
proof -
  have ht: "height (heap sl') a = height (heap sl) a" for a using shape_eq(1) [of "heap sl'" a "heap sl"] shp by simp
  have "sorted_wrt (\<lambda>a b. key_at (heap sl) a < key_at (heap sl) b) (A @ B)"
    using rep by (simp add: rep_def sorted_wrt_append)
  then have srt: "sorted_wrt (\<lambda>a b. key_at (heap sl') a < key_at (heap sl') b) (A @ B)"
  proof (rule sorted_wrt_mono_rel [rotated])
    fix a b
    assume "a \<in> set (A @ B)" "b \<in> set (A @ B)" "key_at (heap sl) a < key_at (heap sl) b"
    then show "key_at (heap sl') a < key_at (heap sl') b"
      using shape_eq(3) [of "heap sl'" _ "heap sl"] shp rep_heap [OF rep, of a] rep_heap [OF rep, of b] by simp
  qed
  have d: "distinct (header sl # A @ x # B)" using rep by (simp add: rep_def)
  have lnk: "linked (heap sl') i (header sl) (tall (heap sl) i (A @ B))" if "i < maxLevel sl" for i
    by (rule linked_cut [OF _ d ptr]) (use rep that in \<open>unfold rep_def, blast\<close>)
  have hl: "\<forall>a \<in> set (A @ B). 0 < height (heap sl) a" "\<forall>a \<in> set (A @ B). height (heap sl) a \<le> level sl" and lm: "level sl \<le> maxLevel sl"
    using rep by (simp_all add: rep_def)
  have dom: "fmlookup (heap sl') a \<noteq> None \<longrightarrow> a < fresh sl" for a
    using rep shape_eq(2) [of "heap sl'" a "heap sl"] shp unfolding rep_def by metis
  have "level sl' \<le> maxLevel sl" "height (heap sl) (header sl) = maxLevel sl" "distinct (header sl # A @ B)"
    "tail sl' = (if A @ B = [] then None else Some (last (A @ B)))" "len sl' = int (length (A @ B))"
    using rep lvl(2) lm d by (simp_all add: rep_def flds)
  then show ?thesis
    unfolding rep_def flds ht using dom lnk srt hl(1) lvl(1) level_of_chains [OF lnk lm hl(2) lvl] by blast
qed

lemma tall_hd:
  assumes "rep sl as" "from_on k sl as = x # ys" "j < maxLevel sl"
  shows "fwd (heap sl) (pred_at k sl as j) j = Some (Some x) \<longleftrightarrow> j < height (heap sl) x"
proof -
  have "distinct (before k sl as @ x # ys)" using assms(1,2) before_from [of k sl as] by (simp add: rep_def)
  then have "x \<notin> set ys" by simp
  then have "tall (heap sl) j ys \<noteq> x # zs" for zs by (metis filter_is_subset list.set_intros(1) subsetD)
  then show ?thesis using pred_at_fwd [OF assms(1,3), of k] by (cases "tall (heap sl) j ys") (auto simp: assms(2))
qed

lemma unlink_rep:
  assumes rep: "rep sl as" and x: "from_on k sl as = x # ys"
    and u: "length u = maxLevel sl" "\<forall>j < level sl. u ! j = Some (pred_at k sl as j)"
  shows "\<exists>h. unlink x u [0..<level sl] (heap sl) = Some h \<and> shape h = shape (heap sl) \<and>
    (\<forall>y j. fwd h y j = (if j < height (heap sl) x \<and> y = pred_at k sl as j then fwd (heap sl) x j else fwd (heap sl) y j))"
proof -
  let ?hx = "height (heap sl) x" and ?p = "pred_at k sl as"
  have "x \<in> set as" using x before_subset(2) [of k sl as] by auto
  then have hx: "?hx \<le> level sl" "level sl \<le> maxLevel sl" using rep by (auto simp: rep_def)
  have split: "[0..<level sl] = [0..<?hx] @ [?hx..<level sl]" using hx(1) by (metis le_add_diff_inverse upt_add_eq_append zero_le)
  have ent: "entry_of u j = Some (?p j)" if "j < level sl" for j
    using that u hx(2) by (simp add: entry_of_def nth_opt_def)
  have "distinct (header sl # before k sl as @ x # ys)" using rep x before_from [of k sl as] by (simp add: rep_def)
  then have px: "?p j \<noteq> x" for j using pred_at_mem [of k sl as j] by auto
  have "\<forall>i \<in> set [0..<?hx]. entry_of u i = Some (?p i) \<and> ?p i \<noteq> x \<and> fwd (heap sl) (?p i) i = Some (Some x) \<and> i < ?hx"
    using ent px tall_hd [OF rep x] hx by simp
  moreover have "[?hx..<level sl] = [] \<or> hd [?hx..<level sl] \<notin> set [0..<?hx] \<and>
      entry_of u (hd [?hx..<level sl]) = Some (?p (hd [?hx..<level sl])) \<and>
      hd [?hx..<level sl] < height (heap sl) (?p (hd [?hx..<level sl])) \<and>
      fwd (heap sl) (?p (hd [?hx..<level sl])) (hd [?hx..<level sl]) \<noteq> Some (Some x)"
  proof (cases "?hx < level sl")
    case True
    then show ?thesis using ent [OF True] pred_at_height(1) [OF rep, of ?hx k] tall_hd [OF rep x, of ?hx] hx by simp
  qed simp
  ultimately have "\<exists>h. unlink x u ([0..<?hx] @ [?hx..<level sl]) (heap sl) = Some h \<and> shape h = shape (heap sl) \<and>
    (\<forall>y j. fwd h y j = (if j \<in> set [0..<?hx] \<and> y = ?p j then fwd (heap sl) x j else fwd (heap sl) y j))"
    by (intro unlink_effect) simp_all
  then show ?thesis unfolding split [symmetric] by simp
qed

lemma stored_cut:
  assumes rep: "rep sl as" and x: "from_on k sl as = x # ys" "key_at (heap sl) x = k" and shp: "shape h = shape (heap sl)"
  shows "map_of (pairs_at h (before k sl as @ ys)) = (stored sl as)(k := None)"
proof -
  have sub: "set (before k sl as @ ys) \<subseteq> set as" using before_subset [of k sl as] x(1) by auto
  have "\<forall>a \<in> set (before k sl as @ ys). key_at (heap sl) a \<noteq> k"
    using from_on_rest [OF rep x(1)] before_less [of _ k sl as] by auto
  then have "k \<notin> fst ` set (pairs_at (heap sl) (before k sl as) @ pairs_at (heap sl) ys)"
    by (simp add: pairs_at_append [symmetric] pairs_at_keys) blast
  then have "(map_of (pairs_at (heap sl) (before k sl as) @ (k, val_at (heap sl) x) # pairs_at (heap sl) ys))(k := None) =
      map_of (pairs_at (heap sl) (before k sl as @ ys))" unfolding pairs_at_append by (rule map_of_cut [symmetric])
  moreover have "pairs_at h (before k sl as @ ys) = pairs_at (heap sl) (before k sl as @ ys)"
    using sub rep_heap [OF rep] by (intro pairs_at_cong) (auto simp: shp)
  ultimately show ?thesis unfolding rep_pairs [of sl as k] x(1) pairs_at_Cons x(2) by argo
qed

lemma Delete_present:
  assumes rep: "rep sl as" and x: "from_on k sl as = x # ys" "key_at (heap sl) x = k"
  shows "\<exists>sl'. Delete k sl = Some (Some (val_at (heap sl) x), sl') \<and> rep sl' (before k sl as @ ys) \<and>
    stored sl' (before k sl as @ ys) = (stored sl as)(k := None) \<and> maxLevel sl' = maxLevel sl"
proof -
  obtain u where u: "find_update k sl = Some (pred_at k sl as 0, u)" "length u = maxLevel sl"
    "\<forall>j < level sl. u ! j = Some (pred_at k sl as j)" using find_update_rep [OF rep] by blast
  obtain h where h: "unlink x u [0..<level sl] (heap sl) = Some h" "shape h = shape (heap sl)"
    "\<And>y j. fwd h y j = (if j < height (heap sl) x \<and> y = pred_at k sl as j then fwd (heap sl) x j else fwd (heap sl) y j)"
    using unlink_rep [OF rep x(1) u(2,3)] by (elim exE conjE) (rule that, blast+)
  have lv: "0 < level sl" "level sl \<le> height h (header sl)" "level sl \<le> maxLevel sl"
    using rep shape_eq(1) [of h "header sl" "heap sl"] h(2) by (simp_all add: rep_def)
  obtain l where l: "lower h (header sl) (level sl) = Some l" "0 < l" "l \<le> level sl" "l = 1 \<or> fwd h (header sl) (l - 1) \<noteq> Some None"
    "\<forall>j. l \<le> j \<and> j < level sl \<longrightarrow> fwd h (header sl) j = Some None"
    using lower_effect [OF lv(1,2)] by (elim exE conjE) (rule that)
  have as: "rep sl (before k sl as @ x # ys)" using rep before_from [of k sl as] x(1) by simp
  then have d: "distinct (header sl # before k sl as @ x # ys)" "tail sl = Some (last (before k sl as @ x # ys))"
    by (simp_all add: rep_def)
  have u0: "entry_of u 0 = Some (pred_at k sl as 0)" using u(2,3) lv by (simp add: entry_of_def nth_opt_def)
  have p0: "pred_at k sl as 0 = last (header sl # before k sl as)"
    using tall_0 [OF rep before_subset(1) [of k sl as]] by (simp add: pred_at_def)
  define sl' where "sl' = sl\<lparr>heap := h, level := l,
    tail := (if tail sl = Some x then (if pred_at k sl as 0 = header sl then None else Some (pred_at k sl as 0)) else tail sl),
    len := len sl - 1\<rparr>"
  have del: "Delete k sl = Some (Some (val_at (heap sl) x), sl')"
    using u(1) h(1) l(1) u0 x by (simp add: Delete_def next_node_rep [OF rep] sl'_def)
  have tl: "tail sl' = (if ys = [] then (if before k sl as = [] then None else Some (last (before k sl as))) else tail sl)"
  proof -
    have "tail sl = Some x \<longleftrightarrow> ys = []" using d by (cases ys rule: rev_cases) auto
    moreover have "pred_at k sl as 0 = header sl \<longleftrightarrow> before k sl as = []"
      unfolding p0 using d(1) by (cases "before k sl as" rule: rev_cases) auto
    ultimately show ?thesis using p0 by (simp add: sl'_def)
  qed
  have "rep sl' (before k sl as @ ys)"
    by (rule rep_cut [OF as]) (use l(2-5) h(2,3) tl in \<open>simp_all add: pred_at_def sl'_def\<close>)
  moreover have "stored sl' (before k sl as @ ys) = (stored sl as)(k := None)"
    using stored_cut [OF rep x h(2)] by (simp add: sl'_def)
  ultimately show ?thesis using del by (intro exI [of _ sl']) (simp add: sl'_def)
qed

lemma Delete_rep:
  assumes rep: "rep sl as"
  shows "\<exists>sl' as'. Delete k sl = Some (stored sl as k, sl') \<and> rep sl' as' \<and> stored sl' as' = (stored sl as)(k := None) \<and>
    maxLevel sl' = maxLevel sl"
proof (cases "stored sl as k")
  case None
  obtain u where u: "find_update k sl = Some (pred_at k sl as 0, u)" using find_update_rep [OF rep] by blast
  have "Delete k sl = Some (None, sl)"
  proof (cases "from_on k sl as")
    case (Cons y ys)
    then have "key_at (heap sl) y \<noteq> k" using None map_of_rep [OF rep, of k] by auto
    then show ?thesis using u by (simp add: Delete_def next_node_rep [OF rep] Cons)
  qed (use u in \<open>simp add: Delete_def next_node_rep [OF rep]\<close>)
  then show ?thesis using rep None by (intro exI [of _ sl] exI [of _ as]) (simp add: fun_upd_idem)
next
  case (Some v)
  then obtain y ys where "from_on k sl as = y # ys" "key_at (heap sl) y = k" "v = val_at (heap sl) y"
    using map_of_rep [OF rep, of k] by (auto split: list.splits if_splits)
  then show ?thesis using Delete_present [OF rep] Some by metis
qed

lemma rep_empty:
  assumes "fmlookup (heap sl) (header sl) = Some n" "forward n = replicate (maxLevel sl) None" "0 < maxLevel sl"
    and "\<And>a. fmlookup (heap sl) a \<noteq> None \<Longrightarrow> a < fresh sl" "tail sl = None" "level sl = 1" "len sl = 0"
  shows "rep sl []"
  using assms by (simp add: rep_def height_def fwd_def)

lemma New_rep:
  assumes "New zeroK zeroV clock cfg = Inr sl"
  shows "rep sl []" "int (maxLevel sl) = MaxLevel (case cfg of None \<Rightarrow> DefaultConfig | Some c \<Rightarrow> c)"
proof -
  let ?cfg = "case cfg of None \<Rightarrow> DefaultConfig | Some c \<Rightarrow> c"
  have v: "validate ?cfg = None" using assms by (simp add: New_def Let_def split: option.splits)
  then have m: "0 < MaxLevel ?cfg" by (simp add: validate_def split: if_splits)
  then show "rep sl []" using assms v by (intro rep_empty) (auto simp: New_def Let_def split: if_splits)
  show "int (maxLevel sl) = MaxLevel ?cfg" using assms v m by (auto simp: New_def Let_def)
qed

lemma Clear_rep: "rep sl as \<Longrightarrow> rep (Clear zeroK zeroV sl) []"
  by (rule rep_empty) (auto simp: Clear_def rep_def less_SucI split: if_splits)

lemma SetRandomSeed_rep: "rep sl as \<Longrightarrow> rep (SetRandomSeed rng sl) as"
  by (rule rep_cong) (simp_all add: SetRandomSeed_def)

lemma First_rep:
  assumes "rep sl as"
  shows "First sl = Some (case pairs_at (heap sl) as of [] \<Rightarrow> None | p # _ \<Rightarrow> Some p)"
  using rep_linked_0(1) [OF assms] rep_heap [OF assms, of "hd as"]
  by (cases as) (auto simp: First_def next_node_def pairs_at_def)

lemma Last_rep:
  assumes "rep sl as"
  shows "Last sl = Some (if as = [] then None else Some (last (pairs_at (heap sl) as)))"
proof (cases "as = []")
  case False
  then have "tail sl = Some (last as)" "last as \<in> set as" using assms by (simp_all add: rep_def)
  then show ?thesis using False rep_heap [OF assms, of "last as"] by (auto simp: Last_def pairs_at_def last_map)
qed (use assms in \<open>simp add: Last_def rep_def\<close>)

text \<open>What a range query selects from the pairs in key order, and the page of it that it returns.\<close>

definition in_range :: "'k::linorder \<Rightarrow> 'k \<Rightarrow> RangeOptions \<Rightarrow> 'k \<Rightarrow> bool" where
  "in_range lo hi opts k \<longleftrightarrow>
     lo \<le> k \<and> k \<le> hi \<and> (k = lo \<longrightarrow> StartInclusive opts) \<and> (k = hi \<longrightarrow> EndInclusive opts)"

definition page :: "int \<Rightarrow> int \<Rightarrow> 'a list \<Rightarrow> 'a list" where
  "page skip limit xs = (let ys = drop (nat skip) xs in if limit > 0 then take (nat limit) ys else ys)"

lemma range_loop_hit:
  assumes nd: "fmlookup h y = Some nd" "in_range lo hi opts (key nd)" and lim: "Limit opts \<le> 0 \<or> n < Limit opts"
    and rest: "\<And>sk n. Limit opts \<le> 0 \<or> n < Limit opts \<Longrightarrow> Option.bind (fwd h y 0) (\<lambda>nxt. range_loop h lo hi opts nxt sk n) =
      Some (page (Offset opts - sk) (if Limit opts \<le> 0 then 0 else Limit opts - n) xs)"
  shows "range_loop h lo hi opts (Some y) sk n =
    Some (page (Offset opts - sk) (if Limit opts \<le> 0 then 0 else Limit opts - n) ((key nd, val nd) # xs))"
proof -
  have ok: "\<not> hi < key nd" "\<not> ((key nd = lo \<and> \<not> StartInclusive opts) \<or> (key nd = hi \<and> \<not> EndInclusive opts))"
    using nd(2) by (auto simp: in_range_def)
  consider "sk < Offset opts" | "\<not> sk < Offset opts" "Limit opts > 0" "n + 1 \<ge> Limit opts"
    | "\<not> sk < Offset opts" "\<not> (Limit opts > 0 \<and> n + 1 \<ge> Limit opts)" by blast
  then show ?thesis
  proof cases
    case 1
    then have "range_loop h lo hi opts (Some y) sk n = Option.bind (fwd h y 0) (\<lambda>nxt. range_loop h lo hi opts nxt (sk + 1) n)"
      using nd(1) ok by (subst range_loop.simps) auto
    moreover have "nat (Offset opts - sk) = Suc (nat (Offset opts - (sk + 1)))" using 1 by simp
    ultimately show ?thesis using rest [OF lim, of "sk + 1"] by (simp add: page_def)
  next
    case 2
    then have "range_loop h lo hi opts (Some y) sk n = Some [(key nd, val nd)]" using nd(1) ok by (subst range_loop.simps) auto
    moreover have "Limit opts - n = 1" using 2 lim by simp
    ultimately show ?thesis using 2 by (simp add: page_def)
  next
    case 3
    then have "range_loop h lo hi opts (Some y) sk n =
        map_option ((#) (key nd, val nd)) (Option.bind (fwd h y 0) (\<lambda>nxt. range_loop h lo hi opts nxt sk (n + 1)))"
      using nd(1) ok by (subst range_loop.simps) (cases "fwd h y 0"; auto simp: map_option_case split: option.split)
    moreover have "Limit opts \<le> 0 \<or> n + 1 < Limit opts" using 3(2) by auto
    moreover have "Limit opts > 0 \<Longrightarrow> nat (Limit opts - n) = Suc (nat (Limit opts - (n + 1)))" using 3(2) by simp
    ultimately show ?thesis using rest [of "n + 1" sk] 3(1) by (cases "Limit opts \<le> 0") (auto simp: page_def)
  qed
qed

lemma range_loop_linked:
  assumes "linked h 0 x ys" "\<forall>y \<in> set ys. fmlookup h y \<noteq> None" "sorted_wrt (\<lambda>a b. key_at h a < key_at h b) ys"
    and "\<forall>y \<in> set ys. lo \<le> key_at h y" "Limit opts \<le> 0 \<or> n < Limit opts"
  shows "Option.bind (fwd h x 0) (\<lambda>nxt. range_loop h lo hi opts nxt sk n) =
    Some (page (Offset opts - sk) (if Limit opts \<le> 0 then 0 else Limit opts - n)
      (filter (\<lambda>p. in_range lo hi opts (fst p)) (pairs_at h ys)))"
  using assms
proof (induction ys arbitrary: x sk n)
  case Nil
  then show ?case by (simp add: range_loop.simps pairs_at_def page_def)
next
  case (Cons y ys)
  let ?ok = "\<lambda>p. in_range lo hi opts (fst p)" and ?lim = "\<lambda>n. if Limit opts \<le> 0 then 0 else Limit opts - n"
  obtain nd where nd: "fmlookup h y = Some nd" using Cons.prems(2) by auto
  have IH: "Option.bind (fwd h y 0) (\<lambda>nxt. range_loop h lo hi opts nxt sk n) =
      Some (page (Offset opts - sk) (?lim n) (filter ?ok (pairs_at h ys)))" if "Limit opts \<le> 0 \<or> n < Limit opts" for sk n
    using Cons.prems that by (intro Cons.IH) auto
  have x: "Option.bind (fwd h x 0) (\<lambda>nxt. range_loop h lo hi opts nxt sk n) = range_loop h lo hi opts (Some y) sk n"
    using Cons.prems(1) by simp
  consider "hi < key nd" | "\<not> hi < key nd" "\<not> in_range lo hi opts (key nd)" | "in_range lo hi opts (key nd)" by blast
  then show ?case
  proof cases
    case 1
    have "filter ?ok (pairs_at h (y # ys)) = []"
      using 1 Cons.prems(3) nd by (force simp: filter_empty_conv pairs_at_def in_range_def)
    then show ?thesis unfolding x using 1 nd by (simp add: range_loop.simps page_def)
  next
    case 2
    then have "range_loop h lo hi opts (Some y) sk n = Option.bind (fwd h y 0) (\<lambda>nxt. range_loop h lo hi opts nxt sk n)"
      using nd Cons.prems(4) by (subst range_loop.simps) (auto simp: in_range_def)
    then show ?thesis unfolding x using IH Cons.prems(5) 2 nd by (simp add: pairs_at_def)
  next
    case 3
    then have "filter ?ok (pairs_at h (y # ys)) = (key nd, val nd) # filter ?ok (pairs_at h ys)" using nd by (simp add: pairs_at_def)
    then show ?thesis unfolding x using range_loop_hit [OF nd 3 Cons.prems(5) IH] by simp
  qed
qed

lemma Range_rep:
  assumes rep: "rep sl as"
  shows "Range lo hi opts sl =
    (let o1 = (case opts of None \<Rightarrow> DefaultRangeOptions | Some o1 \<Rightarrow> o1)
     in Some (page (Offset o1) (Limit o1) (filter (\<lambda>p. in_range lo hi o1 (fst p)) (pairs_at (heap sl) as))))"
proof -
  define o1 where "o1 = (case opts of None \<Rightarrow> DefaultRangeOptions | Some o1 \<Rightarrow> o1)"
  let ?ok = "\<lambda>p. in_range lo hi o1 (fst p)"
  have "Range lo hi opts sl = Some (page (Offset o1) (Limit o1) (filter ?ok (pairs_at (heap sl) as)))"
  proof (cases "lo > hi")
    case True
    then have "filter ?ok (pairs_at (heap sl) as) = []" by (force simp: filter_empty_conv in_range_def)
    then show ?thesis using True by (simp add: Range_def page_def Let_def)
  next
    case False
    obtain u where u: "descend (heap sl) lo (level sl) (header sl) [] = Some (pred_at lo sl as 0, u)" using descend_last [OF rep] by blast
    have "linked (heap sl) 0 (pred_at lo sl as 0) (from_on lo sl as)" by (rule rep_linked_0(2) [OF rep])
    moreover have "sorted_wrt (\<lambda>a b. key_at (heap sl) a < key_at (heap sl) b) (from_on lo sl as)"
      using rep_sorted [OF rep, of lo] by (simp add: sorted_wrt_append)
    moreover have "\<forall>y \<in> set (from_on lo sl as). fmlookup (heap sl) y \<noteq> None \<and> lo \<le> key_at (heap sl) y"
      using before_subset(2) [of lo sl as] rep_heap [OF rep] from_on_not_less [OF rep, of _ lo] by (metis not_less subsetD)
    ultimately have "Option.bind (fwd (heap sl) (pred_at lo sl as 0) 0) (\<lambda>nxt. range_loop (heap sl) lo hi o1 nxt 0 0) =
      Some (page (Offset o1 - 0) (if Limit o1 \<le> 0 then 0 else Limit o1 - 0) (filter ?ok (pairs_at (heap sl) (from_on lo sl as))))"
      by (intro range_loop_linked) auto
    moreover have "filter ?ok (pairs_at (heap sl) (before lo sl as)) = []"
      using before_less [of _ lo sl as] by (force simp: filter_empty_conv in_range_def pairs_at_def)
    then have "filter ?ok (pairs_at (heap sl) as) = filter ?ok (pairs_at (heap sl) (from_on lo sl as))"
      by (simp add: rep_pairs [of sl as lo])
    ultimately show ?thesis using u False by (simp add: Range_def o1_def [symmetric] page_def)
  qed
  then show ?thesis by (simp add: o1_def Let_def)
qed

subsection \<open>The list as a finite map\<close>

datatype ('k, 'v) sl_op =
  OpInsert 'k 'v | OpDelete 'k | OpSearch 'k | OpContains 'k | OpRange 'k 'k "RangeOptions option" | OpAll | OpLen
| OpFirst | OpLast | OpClear | OpSeed "nat \<Rightarrow> bool"

datatype ('k, 'v) sl_out =
  ODone | OVal "'v option" | OBool bool | OPairs "('k \<times> 'v) list" | OInt int | OPair "('k \<times> 'v) option" | OPanic

text \<open>One call; \<^const>\<open>OPanic\<close> is a nil dereference, an index out of range or a loop without end.\<close>

fun sl_step :: "'k::linorder \<Rightarrow> 'v \<Rightarrow> ('k, 'v) sl_op \<Rightarrow> ('k, 'v) SkipList \<Rightarrow> ('k, 'v) sl_out \<times> ('k, 'v) SkipList" where
  "sl_step zk zv (OpInsert k v) sl = (case Insert k v sl of None \<Rightarrow> (OPanic, sl) | Some sl' \<Rightarrow> (ODone, sl'))"
| "sl_step zk zv (OpDelete k) sl = (case Delete k sl of None \<Rightarrow> (OPanic, sl) | Some (r, sl') \<Rightarrow> (OVal r, sl'))"
| "sl_step zk zv (OpSearch k) sl = ((case Search k sl of None \<Rightarrow> OPanic | Some r \<Rightarrow> OVal r), sl)"
| "sl_step zk zv (OpContains k) sl = ((case Contains k sl of None \<Rightarrow> OPanic | Some r \<Rightarrow> OBool r), sl)"
| "sl_step zk zv (OpRange lo hi opts) sl = ((case Range lo hi opts sl of None \<Rightarrow> OPanic | Some r \<Rightarrow> OPairs r), sl)"
| "sl_step zk zv OpAll sl = ((case All sl of None \<Rightarrow> OPanic | Some r \<Rightarrow> OPairs r), sl)"
| "sl_step zk zv OpLen sl = (OInt (Len sl), sl)"
| "sl_step zk zv OpFirst sl = ((case First sl of None \<Rightarrow> OPanic | Some r \<Rightarrow> OPair r), sl)"
| "sl_step zk zv OpLast sl = ((case Last sl of None \<Rightarrow> OPanic | Some r \<Rightarrow> OPair r), sl)"
| "sl_step zk zv OpClear sl = (ODone, Clear zk zv sl)"
| "sl_step zk zv (OpSeed rng) sl = (ODone, SetRandomSeed rng sl)"

text \<open>The specification: a finite map, read in the order of its keys.\<close>

definition sm_pairs :: "('k::linorder \<rightharpoonup> 'v) \<Rightarrow> ('k \<times> 'v) list" where
  "sm_pairs m = map (\<lambda>k. (k, the (m k))) (sorted_list_of_set (dom m))"

fun sm_step :: "('k::linorder, 'v) sl_op \<Rightarrow> ('k \<rightharpoonup> 'v) \<Rightarrow> ('k, 'v) sl_out \<times> ('k \<rightharpoonup> 'v)" where
  "sm_step (OpInsert k v) m = (ODone, m(k \<mapsto> v))"
| "sm_step (OpDelete k) m = (OVal (m k), m(k := None))"
| "sm_step (OpSearch k) m = (OVal (m k), m)"
| "sm_step (OpContains k) m = (OBool (k \<in> dom m), m)"
| "sm_step (OpRange lo hi opts) m =
     (let o1 = (case opts of None \<Rightarrow> DefaultRangeOptions | Some o1 \<Rightarrow> o1)
      in (OPairs (page (Offset o1) (Limit o1) (filter (\<lambda>p. in_range lo hi o1 (fst p)) (sm_pairs m))), m))"
| "sm_step OpAll m = (OPairs (sm_pairs m), m)"
| "sm_step OpLen m = (OInt (int (card (dom m))), m)"
| "sm_step OpFirst m = (OPair (if m = Map.empty then None else Some (hd (sm_pairs m))), m)"
| "sm_step OpLast m = (OPair (if m = Map.empty then None else Some (last (sm_pairs m))), m)"
| "sm_step OpClear m = (ODone, Map.empty)"
| "sm_step (OpSeed rng) m = (ODone, m)"

definition sl_inv :: "('k::linorder, 'v) SkipList \<Rightarrow> bool" where
  "sl_inv sl \<longleftrightarrow> (\<exists>as. rep sl as)"

definition sl_map :: "('k::linorder, 'v) SkipList \<Rightarrow> ('k \<rightharpoonup> 'v)" where
  "sl_map sl = map_of (contents sl)"

lemma sl_map_rep: "rep sl as \<Longrightarrow> sl_map sl = stored sl as"
  by (simp add: sl_map_def All_rep)

lemma sm_pairs_sorted:
  assumes "sorted_wrt (<) (map fst ps)"
  shows "sm_pairs (map_of ps) = ps" "card (dom (map_of ps)) = length ps"
proof -
  have d: "distinct (map fst ps)" "sorted (map fst ps)" using assms strict_sorted_iff by auto
  have dm: "dom (map_of ps) = set (map fst ps)" by (simp add: dom_map_of_conv_image_fst)
  show "card (dom (map_of ps)) = length ps" unfolding dm using distinct_card [OF d(1)] by simp
  have "sorted_list_of_set (set (map fst ps)) = map fst ps" using d by (rule sorted_list_of_set.idem_if_sorted_distinct [rotated])
  then have "sm_pairs (map_of ps) = map (\<lambda>k. (k, the (map_of ps k))) (map fst ps)" by (simp add: sm_pairs_def dm)
  also have "\<dots> = ps" using d(1) by (auto intro!: map_idI)
  finally show "sm_pairs (map_of ps) = ps" .
qed

lemma rep_pairs_sorted:
  assumes "rep sl as"
  shows "sm_pairs (stored sl as) = pairs_at (heap sl) as" "card (dom (stored sl as)) = length as"
    "stored sl as = Map.empty \<longleftrightarrow> as = []"
proof -
  have "sorted_wrt (<) (map fst (pairs_at (heap sl) as))" using assms by (simp add: rep_def pairs_at_def sorted_wrt_map)
  from sm_pairs_sorted [OF this]
  show "sm_pairs (stored sl as) = pairs_at (heap sl) as" "card (dom (stored sl as)) = length as" by (simp_all add: pairs_at_def)
  show "stored sl as = Map.empty \<longleftrightarrow> as = []" by (cases as) (auto simp: pairs_at_def)
qed

lemma sl_step_refines:
  assumes "rep sl as"
  shows "sl_inv (snd (sl_step zk zv x sl))"
    "sm_step x (stored sl as) = (fst (sl_step zk zv x sl), sl_map (snd (sl_step zk zv x sl)))"
proof -
  have "\<exists>as'. rep (snd (sl_step zk zv x sl)) as' \<and>
    sm_step x (stored sl as) = (fst (sl_step zk zv x sl), stored (snd (sl_step zk zv x sl)) as')"
  proof (cases x)
    case (OpInsert k v)
    then show ?thesis using Insert_rep [OF assms, of k v] by auto
  next
    case (OpDelete k)
    then show ?thesis using Delete_rep [OF assms, of k] by auto
  next
    case (OpSeed rng)
    then show ?thesis using SetRandomSeed_rep [OF assms, of rng] by (auto simp: SetRandomSeed_def)
  next
    case OpClear
    then show ?thesis using Clear_rep [OF assms, of zk zv] by (auto simp: pairs_at_def)
  next
    case OpLen
    then show ?thesis using assms rep_pairs_sorted(2) [OF assms] by (auto simp: Len_def rep_def)
  next
    case OpFirst
    then show ?thesis using assms rep_pairs_sorted [OF assms] by (auto simp: First_rep pairs_at_def split: list.splits)
  next
    case OpLast
    then show ?thesis using assms rep_pairs_sorted [OF assms] by (auto simp: Last_rep)
  qed (use assms rep_pairs_sorted [OF assms] in \<open>auto simp: Search_rep Contains_def Range_rep All_rep Let_def domIff\<close>)
  then show "sl_inv (snd (sl_step zk zv x sl))"
    "sm_step x (stored sl as) = (fst (sl_step zk zv x sl), sl_map (snd (sl_step zk zv x sl)))"
    by (auto simp: sl_inv_def sl_map_rep)
qed

interpretation sl_fmap: refinement "sl_step zk zv" sl_inv sm_step sl_map
proof unfold_locales
  fix s :: "('a::linorder, 'b) SkipList" and x
  assume "sl_inv s"
  then obtain as where "rep s as" by (auto simp: sl_inv_def)
  from sl_step_refines [OF this, where x = x and zk = zk and zv = zv]
  show "sl_inv (snd (sl_step zk zv x s))"
    "sm_step x (sl_map s) = (fst (sl_step zk zv x s), sl_map (snd (sl_step zk zv x s)))"
    by (simp_all add: sl_map_rep [OF \<open>rep s as\<close>])
qed

lemma sl_step_maxLevel:
  assumes "sl_inv sl"
  shows "maxLevel (snd (sl_step zk zv x sl)) = maxLevel sl"
proof -
  obtain as where rep: "rep sl as" using assms by (auto simp: sl_inv_def)
  show ?thesis
  proof (cases x)
    case (OpInsert k v)
    then show ?thesis using Insert_rep [OF rep, of k v] by auto
  next
    case (OpDelete k)
    then show ?thesis using Delete_rep [OF rep, of k] by auto
  qed (simp_all add: Clear_def SetRandomSeed_def)
qed

interpretation sl_levels: preserved "sl_step zk zv" "\<lambda>sl. sl_inv sl \<and> maxLevel sl = m"
  by unfold_locales (simp add: sl_fmap.step_inv sl_step_maxLevel)

lemma sl_map_New: "New zk zv clock cfg = Inr sl \<Longrightarrow> sl_inv sl \<and> sl_map sl = Map.empty"
  using New_rep(1) [of zk zv clock cfg sl] by (auto simp: sl_inv_def sl_map_rep pairs_at_def)

lemma sm_step_total: "OPanic \<notin> set (fst (run sm_step ops m))"
proof (induction ops arbitrary: m)
  case (Cons x ops)
  have "fst (sm_step x m) \<noteq> OPanic" by (cases x) (simp_all add: Let_def)
  then show ?case using Cons by (simp add: Let_def split_beta)
qed simp

subsection \<open>Properties\<close>

text \<open>
  C36. A skip list is a finite map read in key order. Whatever the coins, every sequence of calls on a list that
  \<open>New\<close> returned gives the answers of a map: \<open>Insert\<close> overwrites, \<open>Delete\<close> returns what was stored, \<open>Search\<close> and
  \<open>Contains\<close> look up, \<open>All\<close>, \<open>First\<close>, \<open>Last\<close> and \<open>Len\<close> describe the entries in key order, \<open>Range\<close> returns the page
  of the selected keys, and \<open>Clear\<close> empties the map. No call dereferences nil, leaves a vector's bounds or runs forever.
\<close>

theorem skiplist_refines_map:
  assumes "New zk zv clock cfg = Inr sl"
  shows "fst (run (sl_step zk zv) ops sl) = fst (run sm_step ops Map.empty) \<and>
    sl_map (snd (run (sl_step zk zv) ops sl)) = snd (run sm_step ops Map.empty) \<and>
    OPanic \<notin> set (fst (run (sl_step zk zv) ops sl))"
proof -
  have "run sm_step ops Map.empty = (fst (run (sl_step zk zv) ops sl), sl_map (snd (run (sl_step zk zv) ops sl)))"
    using sl_fmap.run_refines [where s = sl and xs = ops and zk = zk and zv = zv] sl_map_New [OF assms] by simp
  then show ?thesis using sm_step_total [of ops Map.empty] by simp
qed

theorem skiplist_refines_map_witness:
  "\<exists>sl. New 0 0 (\<lambda>i. even i) None = Inr sl \<and>
     fst (run (sl_step 0 0) [OpInsert 5 50, OpInsert 2 20, OpDelete 2, OpAll, OpLen :: (nat, nat) sl_op] sl) =
       [ODone, ODone, OVal (Some 20), OPairs [(5, 50)], OInt 1]"
proof -
  obtain sl :: "(nat, nat) SkipList" where sl: "New 0 0 (\<lambda>i. even i) None = Inr sl"
    by (simp add: New_def validate_def DefaultConfig_def DefaultMaxLevel_def DefaultP_def float_le_def float_ge_def)
  let ?ops = "[OpInsert 5 50, OpInsert 2 20, OpDelete 2, OpAll, OpLen] :: (nat, nat) sl_op list"
  have "fst (run sm_step ?ops Map.empty) = [ODone, ODone, OVal (Some 20), OPairs [(5, 50)], OInt 1]"
    by (simp add: sm_pairs_def insert_Diff_if)
  with skiplist_refines_map [OF sl, of ?ops] sl show ?thesis by (intro exI [of _ sl]) argo
qed

text \<open>
  C37. Every list that calls on a new list lead to is well formed: the nodes are in strictly increasing key order,
  level \<open>i\<close> links exactly the nodes higher than \<open>i\<close> in that order and ends in nil, every node has between one and
  \<open>level\<close> levels, \<open>level\<close> is the highest level in use and at most the configured \<open>MaxLevel\<close>, the tail is the last node
  and \<open>length\<close> the number of nodes.
\<close>

theorem skiplist_well_formed:
  assumes "New zk zv clock cfg = Inr sl0" and "sl = snd (run (sl_step zk zv) ops sl0)"
  shows "\<exists>as. sorted_wrt (\<lambda>a b. key_at (heap sl) a < key_at (heap sl) b) as \<and> header sl \<notin> set as \<and>
    (\<forall>i < maxLevel sl. linked (heap sl) i (header sl) (filter (\<lambda>a. i < height (heap sl) a) as)) \<and>
    (\<forall>a \<in> set as. 1 \<le> height (heap sl) a \<and> height (heap sl) a \<le> level sl) \<and>
    1 \<le> level sl \<and> (1 < level sl \<longrightarrow> (\<exists>a \<in> set as. height (heap sl) a = level sl)) \<and>
    level sl \<le> maxLevel sl \<and> int (maxLevel sl) = MaxLevel (case cfg of None \<Rightarrow> DefaultConfig | Some c \<Rightarrow> c) \<and>
    tail sl = (if as = [] then None else Some (last as)) \<and> len sl = int (length as)"
proof -
  have "sl_inv sl \<and> maxLevel sl = maxLevel sl0"
    unfolding assms(2) using sl_map_New [OF assms(1)] by (intro sl_levels.run_inv) simp
  then obtain as where as: "rep sl as" "maxLevel sl = maxLevel sl0" by (auto simp: sl_inv_def)
  then have "int (maxLevel sl) = MaxLevel (case cfg of None \<Rightarrow> DefaultConfig | Some c \<Rightarrow> c)"
    using New_rep(2) [OF assms(1)] by simp
  with as(1) show ?thesis by (intro exI [of _ as]) (auto simp: rep_def Suc_le_eq)
qed

theorem skiplist_well_formed_witness:
  "\<exists>sl0 as. New 0 0 (\<lambda>i. i < 2) None = Inr sl0 \<and>
     (let sl = snd (run (sl_step 0 0) [OpInsert 5 50, OpInsert 2 20 :: (nat, nat) sl_op] sl0)
      in linked (heap sl) 0 (header sl) (filter (\<lambda>a. 0 < height (heap sl) a) as) \<and> len sl = int (length as) \<and> maxLevel sl = 32)"
proof -
  obtain sl0 :: "(nat, nat) SkipList" where sl0: "New 0 0 (\<lambda>i. i < 2) None = Inr sl0"
    by (simp add: New_def validate_def DefaultConfig_def DefaultMaxLevel_def DefaultP_def float_le_def float_ge_def)
  define sl where "sl = snd (run (sl_step 0 0) [OpInsert 5 50, OpInsert 2 20 :: (nat, nat) sl_op] sl0)"
  from skiplist_well_formed [OF sl0 sl_def] obtain as where as: "len sl = int (length as)"
    "\<forall>i < maxLevel sl. linked (heap sl) i (header sl) (filter (\<lambda>a. i < height (heap sl) a) as)" "int (maxLevel sl) = MaxLevel DefaultConfig"
    by auto
  then have "maxLevel sl = 32" by (simp add: DefaultConfig_def DefaultMaxLevel_def)
  with as sl0 show ?thesis by (intro exI [of _ sl0] exI [of _ as]) (simp add: sl_def [symmetric] Let_def del: run.simps)
qed

text \<open>
  \<open>validate\<close> rejects a probability outside the open unit interval by two comparisons, both of which NaN fails.
\<close>

lemma validate_NaN: "0 < m \<Longrightarrow> validate \<lparr>MaxLevel = m, P = NaN, RandomSource = rng\<rparr> = None"
  by (simp add: validate_def float_le_def float_ge_def)

end
