(* ===== verification/Goreflect.thy ===== *)
theory Goreflect
  imports Gofloat
begin

unbundle bit_operations_syntax

section \<open>Types and values of the language\<close>

text \<open>
  What the serializers use of \<open>reflect\<close>: the types a value can have and its values, zero values, equality of map keys and
  the conversions of \<open>Value.Convert\<close> between them. An integer is the 64-bit word \<open>Value.Int\<close> or \<open>Value.Uint\<close> returns, a
  floating-point number its bits, a string its bytes. \<open>TInterface\<close> is the empty interface, \<open>TOther\<close> stands for channels,
  functions and complex numbers. A map is the list of its entries in the order in which \<open>MapKeys\<close> returns them; a nil
  slice or map and an empty one are the same value, as nothing here tells them apart.
\<close>

subsection \<open>Types\<close>

type_synonym bytes = "byte list"

definition bytes_of :: "string \<Rightarrow> bytes" where
  "bytes_of s = map (\<lambda>c. word_of_nat (of_char c)) s"

record field =
  Name :: bytes
  SerializeTag :: bytes
  Exported :: bool

datatype ty =
    TBool | TInt nat | TUint nat | TFloat32 | TFloat64 | TString | TSlice ty | TArray nat ty | TMap ty ty
  | TStruct "field list" "ty list" | TPtr ty | TInterface | TOther

datatype val =
    VBool bool | VInt "64 word" | VUint "64 word" | VFloat32 "32 word" | VFloat64 "64 word" | VString bytes
  | VSlice "val list" | VArray "val list" | VMap "(val \<times> val) list" | VStruct "val list"
  | VNilPtr | VPtr val | VNilInterface | VInterface ty val | VOther

fun zero :: "ty \<Rightarrow> val" where
  "zero TBool = VBool False"
| "zero (TInt w) = VInt 0"
| "zero (TUint w) = VUint 0"
| "zero TFloat32 = VFloat32 0"
| "zero TFloat64 = VFloat64 0"
| "zero TString = VString []"
| "zero (TSlice t) = VSlice []"
| "zero (TArray n t) = VArray (replicate n (zero t))"
| "zero (TMap k t) = VMap []"
| "zero (TStruct fs ts) = VStruct (map zero ts)"
| "zero (TPtr t) = VNilPtr"
| "zero TInterface = VNilInterface"
| "zero TOther = VOther"

subsection \<open>Runes\<close>

definition rune_bytes :: "nat \<Rightarrow> bytes" where
  "rune_bytes r0 =
     (let r = (if r0 > 0x10FFFF \<or> (0xD800 \<le> r0 \<and> r0 \<le> 0xDFFF) then 0xFFFD else r0)
      in map word_of_nat
           (if r < 0x80 then [r]
            else if r < 0x800 then [0xC0 + r div 64, 0x80 + r mod 64]
            else if r < 0x10000 then [0xE0 + r div 4096, 0x80 + r div 64 mod 64, 0x80 + r mod 64]
            else [0xF0 + r div 262144, 0x80 + r div 4096 mod 64, 0x80 + r div 64 mod 64, 0x80 + r mod 64]))"

text \<open>The string of an integer: its rune when it is one.\<close>

definition string_of_int :: "64 word \<Rightarrow> bytes" where
  "string_of_int n = (if sint n < 0 \<or> sint n > 0x7FFFFFFF then rune_bytes 0xFFFD else rune_bytes (unat n))"

text \<open>The first rune of a string and its width; an invalid encoding is U+FFFD of width one.\<close>

definition decode_rune :: "bytes \<Rightarrow> nat \<times> nat" where
  "decode_rune bs =
     (let b = map unat (take 4 bs); cont = (\<lambda>i. i < length b \<and> 0x80 \<le> b ! i \<and> b ! i \<le> 0xBF); low = (\<lambda>i. b ! i mod 64)
      in if b ! 0 < 0x80 then (b ! 0, 1)
         else if 0xC2 \<le> b ! 0 \<and> b ! 0 \<le> 0xDF \<and> cont 1 then (b ! 0 mod 32 * 64 + low 1, 2)
         else if 0xE0 \<le> b ! 0 \<and> b ! 0 \<le> 0xEF \<and> cont 1 \<and> cont 2 \<and>
                 (b ! 0 = 0xE0 \<longrightarrow> 0xA0 \<le> b ! 1) \<and> (b ! 0 = 0xED \<longrightarrow> b ! 1 \<le> 0x9F)
         then (b ! 0 mod 16 * 4096 + low 1 * 64 + low 2, 3)
         else if 0xF0 \<le> b ! 0 \<and> b ! 0 \<le> 0xF4 \<and> cont 1 \<and> cont 2 \<and> cont 3 \<and>
                 (b ! 0 = 0xF0 \<longrightarrow> 0x90 \<le> b ! 1) \<and> (b ! 0 = 0xF4 \<longrightarrow> b ! 1 \<le> 0x8F)
         then (b ! 0 mod 8 * 262144 + low 1 * 4096 + low 2 * 64 + low 3, 4)
         else (0xFFFD, 1))"

function runes :: "bytes \<Rightarrow> nat list" where
  "runes [] = []"
| "runes (b # bs) = (let (r, n) = decode_rune (b # bs) in r # runes (drop (n - 1) bs))"
  by pat_completeness auto
termination by (relation "measure length") auto

subsection \<open>Map keys\<close>

text \<open>A non-nil pointer differs from every pointer a decoder allocates.\<close>

fun hashable :: "val \<Rightarrow> bool" where
  "hashable (VSlice _) = False"
| "hashable (VMap _) = False"
| "hashable (VArray vs) = (\<forall>v \<in> set vs. hashable v)"
| "hashable (VStruct vs) = (\<forall>v \<in> set vs. hashable v)"
| "hashable (VInterface t v) = hashable v"
| "hashable _ = True"

fun key_eq :: "val \<Rightarrow> val \<Rightarrow> bool" where
  "key_eq (VFloat32 a) y = (case y of VFloat32 b \<Rightarrow> float32_eq a b | _ \<Rightarrow> False)"
| "key_eq (VFloat64 a) y = (case y of VFloat64 b \<Rightarrow> float64_eq a b | _ \<Rightarrow> False)"
| "key_eq (VArray as) y = (case y of VArray bs \<Rightarrow> list_all2 key_eq as bs | _ \<Rightarrow> False)"
| "key_eq (VStruct as) y = (case y of VStruct bs \<Rightarrow> list_all2 key_eq as bs | _ \<Rightarrow> False)"
| "key_eq (VInterface t a) y = (case y of VInterface u b \<Rightarrow> t = u \<and> key_eq a b | _ \<Rightarrow> False)"
| "key_eq (VPtr a) y = False"
| "key_eq x y = (x = y)"

text \<open>The value and its key are replaced when an equal key is there.\<close>

fun SetMapIndex :: "val \<Rightarrow> val \<Rightarrow> (val \<times> val) list \<Rightarrow> (val \<times> val) list" where
  "SetMapIndex k v [] = [(k, v)]"
| "SetMapIndex k v ((k', v') # m) = (if key_eq k k' then (k, v) # m else (k', v') # SetMapIndex k v m)"

subsection \<open>Well-typed values\<close>

text \<open>The values of a type; an integer is sign- or zero-extended from the width of its type.\<close>

fun typed :: "ty \<Rightarrow> val \<Rightarrow> bool" where
  "typed t (VBool b) \<longleftrightarrow> t = TBool"
| "typed t (VInt n) \<longleftrightarrow> (case t of TInt w \<Rightarrow> signed_take_bit (w - 1) n = n | _ \<Rightarrow> False)"
| "typed t (VUint n) \<longleftrightarrow> (case t of TUint w \<Rightarrow> take_bit w n = n | _ \<Rightarrow> False)"
| "typed t (VFloat32 x) \<longleftrightarrow> t = TFloat32"
| "typed t (VFloat64 x) \<longleftrightarrow> t = TFloat64"
| "typed t (VString s) \<longleftrightarrow> t = TString"
| "typed t (VSlice vs) \<longleftrightarrow> (case t of TSlice e \<Rightarrow> \<forall>v \<in> set vs. typed e v | _ \<Rightarrow> False)"
| "typed t (VArray vs) \<longleftrightarrow> (case t of TArray n e \<Rightarrow> length vs = n \<and> (\<forall>v \<in> set vs. typed e v) | _ \<Rightarrow> False)"
| "typed t (VMap kvs) \<longleftrightarrow> (case t of TMap kt vt \<Rightarrow> \<forall>(k, v) \<in> set kvs. typed kt k \<and> typed vt v | _ \<Rightarrow> False)"
| "typed t (VStruct vs) \<longleftrightarrow> (case t of TStruct fs ts \<Rightarrow> list_all2 (\<lambda>v u. typed u v) vs ts | _ \<Rightarrow> False)"
| "typed t VNilPtr \<longleftrightarrow> (case t of TPtr _ \<Rightarrow> True | _ \<Rightarrow> False)"
| "typed t (VPtr v) \<longleftrightarrow> (case t of TPtr e \<Rightarrow> typed e v | _ \<Rightarrow> False)"
| "typed t VNilInterface \<longleftrightarrow> t = TInterface"
| "typed t (VInterface u v) \<longleftrightarrow> t = TInterface \<and> typed u v"
| "typed t VOther \<longleftrightarrow> t = TOther"

fun wf_ty :: "ty \<Rightarrow> bool" where
  "wf_ty (TInt w) \<longleftrightarrow> w \<in> {8, 16, 32, 64}"
| "wf_ty (TUint w) \<longleftrightarrow> w \<in> {8, 16, 32, 64}"
| "wf_ty (TSlice t) \<longleftrightarrow> wf_ty t"
| "wf_ty (TArray n t) \<longleftrightarrow> wf_ty t"
| "wf_ty (TMap kt vt) \<longleftrightarrow> wf_ty kt \<and> wf_ty vt"
| "wf_ty (TStruct fs ts) \<longleftrightarrow> length fs = length ts \<and> (\<forall>t \<in> set ts. wf_ty t)"
| "wf_ty (TPtr t) \<longleftrightarrow> wf_ty t"
| "wf_ty _ \<longleftrightarrow> True"

text \<open>Types whose values can be compared and hold no interface.\<close>

fun comparable :: "ty \<Rightarrow> bool" where
  "comparable (TArray n t) \<longleftrightarrow> comparable t"
| "comparable (TStruct fs ts) \<longleftrightarrow> (\<forall>t \<in> set ts. comparable t)"
| "comparable (TSlice t) \<longleftrightarrow> False"
| "comparable (TMap kt vt) \<longleftrightarrow> False"
| "comparable TInterface \<longleftrightarrow> False"
| "comparable TOther \<longleftrightarrow> False"
| "comparable _ \<longleftrightarrow> True"

lemma zero_typed: "typed t (zero t)"
  by (induction t) (auto simp: list_all2_conv_all_nth)

lemma typed_of:
  "typed TBool v \<longleftrightarrow> (\<exists>b. v = VBool b)"
  "typed (TInt w) v \<longleftrightarrow> (\<exists>n. v = VInt n \<and> signed_take_bit (w - 1) n = n)"
  "typed (TUint w) v \<longleftrightarrow> (\<exists>n. v = VUint n \<and> take_bit w n = n)"
  "typed TFloat32 v \<longleftrightarrow> (\<exists>x. v = VFloat32 x)"
  "typed TFloat64 v \<longleftrightarrow> (\<exists>x. v = VFloat64 x)"
  "typed TString v \<longleftrightarrow> (\<exists>s. v = VString s)"
  "typed (TSlice e) v \<longleftrightarrow> (\<exists>vs. v = VSlice vs \<and> (\<forall>v \<in> set vs. typed e v))"
  "typed (TArray n e) v \<longleftrightarrow> (\<exists>vs. v = VArray vs \<and> length vs = n \<and> (\<forall>v \<in> set vs. typed e v))"
  "typed (TMap kt vt) v \<longleftrightarrow> (\<exists>kvs. v = VMap kvs \<and> (\<forall>(k, v) \<in> set kvs. typed kt k \<and> typed vt v))"
  "typed (TStruct fs ts) v \<longleftrightarrow> (\<exists>vs. v = VStruct vs \<and> list_all2 (\<lambda>v u. typed u v) vs ts)"
  "typed (TPtr e) v \<longleftrightarrow> v = VNilPtr \<or> (\<exists>u. v = VPtr u \<and> typed e u)"
  "typed TInterface v \<longleftrightarrow> v = VNilInterface \<or> (\<exists>t u. v = VInterface t u \<and> typed t u)"
  "typed TOther v \<longleftrightarrow> v = VOther"
  by (cases v; simp)+

lemma comparable_hashable: "comparable t \<Longrightarrow> typed t v \<Longrightarrow> hashable v"
proof (induction t arbitrary: v)
  case (TStruct fs ts)
  obtain vs where vs: "v = VStruct vs" "list_all2 (\<lambda>v u. typed u v) vs ts" using TStruct.prems(2) unfolding typed_of by blast
  have "hashable u" if u: "u \<in> set vs" for u
  proof -
    obtain i where i: "i < length vs" "u = vs ! i" using u by (metis in_set_conv_nth)
    then have "typed (ts ! i) u" "ts ! i \<in> set ts" using vs(2) by (auto simp: list_all2_conv_all_nth)
    then show ?thesis using TStruct.IH [of "ts ! i" u] TStruct.prems(1) by (simp del: typed.simps)
  qed
  then show ?case by (simp add: vs(1))
next
  case (TArray n t)
  obtain vs where "v = VArray vs" "\<forall>u \<in> set vs. typed t u" using TArray.prems(2) unfolding typed_of by blast
  then show ?case using TArray.IH TArray.prems(1) by auto
qed (auto simp: typed_of)

lemma decode_rune_bound: "fst (decode_rune bs) < 2 ^ 31 \<or> bs = []"
proof -
  have m: "(a :: nat) mod 8 \<le> 7" "a mod 16 \<le> 15" "a mod 32 \<le> 31" "a mod 64 \<le> 63" for a
    using mod_less_divisor [of 8 a] mod_less_divisor [of 16 a] mod_less_divisor [of 32 a] mod_less_divisor [of 64 a] by simp_all
  have "a mod 32 * 64 + b mod 64 < 2 ^ 31" "a mod 16 * 4096 + b mod 64 * 64 + c mod 64 < 2 ^ 31"
    "a mod 8 * 262144 + b mod 64 * 4096 + c mod 64 * 64 + d mod 64 < 2 ^ 31" for a b c d :: nat
    using m(1) [of a] m(2) [of a] m(3) [of a] m(4) [of b] m(4) [of c] m(4) [of d] by simp_all
  then show ?thesis unfolding decode_rune_def Let_def by simp
qed

lemma runes_bound: "r \<in> set (runes bs) \<Longrightarrow> r < 2 ^ 31"
proof (induction bs rule: runes.induct)
  case (2 b bs)
  obtain x n where "decode_rune (b # bs) = (x, n)" by (cases "decode_rune (b # bs)")
  then show ?case using 2 decode_rune_bound [of "b # bs"] by auto
qed simp

lemma rune_typed: "r \<in> set (runes bs) \<Longrightarrow> typed (TInt 32) (VInt (word_of_nat r))"
proof -
  assume "r \<in> set (runes bs)"
  then have "r < 2 ^ 31" by (rule runes_bound)
  then have "\<not> bit r n" if "31 \<le> n" for n
    using that by (metis bit_nat_def div_less even_zero less_le_trans one_le_numeral power_increasing)
  then have "signed_take_bit 31 (word_of_nat r :: 64 word) = word_of_nat r"
    by (intro bit_word_eqI) (auto simp: bit_simps min_def not_le)
  then show ?thesis by simp
qed

lemma take_bit_small: "unat (n :: 64 word) < 2 ^ k \<Longrightarrow> take_bit k n = n"
  by (simp add: word_unat_eq_iff unsigned_take_bit_eq take_bit_nat_eq_self)

end
