(* ===== verification/Serialize.thy ===== *)
theory Serialize
  imports Goreflect
begin

unbundle bit_operations_syntax

section \<open>Serializers and their registry (\<open>src/internal/serialize/serialize.go\<close>)\<close>

text \<open>
  The options and errors of the package, the names of struct fields, the assignment of a decoded value to a field, and the
  registry of serializers with the functions that go through it. The order in which Go walks a map is an argument of the
  operations that depend on it. Two things of the runtime are arguments: \<open>strings.ToLower\<close> and the conversion of a
  \<open>float64\<close> to an integer type it does not fit in.
\<close>

subsection \<open>Options and fields\<close>

datatype serialize_error =
    ErrSerializerNotFound | ErrNilInput | ErrInvalidType | ErrUnmarshalNil | ErrUnknownField bytes | ErrVersionMismatch "64 word" "64 word" | ErrInvalidFormat

datatype UnknownFieldBehavior = SkipUnknownField | ReturnUnknownFieldError

record Options =
  ZeroCopy :: bool
  SkipUnknownFields :: bool
  OnUnknownField :: UnknownFieldBehavior
  Version :: "64 word"
  StrictMode :: bool

definition DefaultOptions :: Options where
  "DefaultOptions =
     \<lparr>ZeroCopy = True, SkipUnknownFields = True, OnUnknownField = SkipUnknownField, Version = 1, StrictMode = False\<rparr>"

record runtime =
  ToLower :: "bytes \<Rightarrow> bytes"
  UnfitInt :: "64 word \<Rightarrow> 64 word"
  UnfitUint :: "64 word \<Rightarrow> 64 word"

definition getFieldName :: "field \<Rightarrow> bytes" where
  "getFieldName f =
     (let tag = SerializeTag f; part = takeWhile (\<lambda>b. b \<noteq> 0x2C) tag; prefix = bytes_of ''protobuf:''
      in if tag = [] then Name f
         else if part \<noteq> [] \<and> take (length prefix) part \<noteq> prefix then part
         else Name f)"

definition serialized :: "field \<Rightarrow> bool" where
  "serialized f \<longleftrightarrow> Exported f \<and> SerializeTag f \<noteq> bytes_of ''-''"

datatype outcome = Done | Failed serialize_error | Panicked | OutOfFuel

definition bytes_val :: "bytes \<Rightarrow> val" where
  "bytes_val bs = VSlice (map (\<lambda>b. VUint (ucast b)) bs)"

definition val_bytes :: "val list \<Rightarrow> bytes" where
  "val_bytes vs = map (\<lambda>v. case v of VUint n \<Rightarrow> ucast n | _ \<Rightarrow> 0) vs"

text \<open>
  \<open>Value.Convert\<close> to a type: \<^const>\<open>None\<close> when there is no conversion to it, and a panic, \<open>Some None\<close>, when the
  conversion of a slice to an array needs more elements than the slice has.
\<close>

definition Convert :: "runtime \<Rightarrow> val \<Rightarrow> ty \<Rightarrow> val option option" where
  "Convert rt v t =
     (case v of
        VInt n \<Rightarrow>
          (case t of
             TInt w \<Rightarrow> Some (Some (VInt (signed_take_bit (w - 1) n)))
           | TUint w \<Rightarrow> Some (Some (VUint (take_bit w n)))
           | TFloat64 \<Rightarrow> Some (Some (VFloat64 (float_of_int n)))
           | TFloat32 \<Rightarrow> Some (Some (VFloat32 (narrow (float_of_int n))))
           | TString \<Rightarrow> Some (Some (VString (string_of_int n)))
           | _ \<Rightarrow> None)
      | VFloat64 x \<Rightarrow>
          (case t of
             TFloat64 \<Rightarrow> Some (Some (VFloat64 x))
           | TFloat32 \<Rightarrow> Some (Some (VFloat32 (narrow x)))
           | TInt w \<Rightarrow> Some (Some (VInt (signed_take_bit (w - 1) (int_of_float (UnfitInt rt) True x))))
           | TUint w \<Rightarrow> Some (Some (VUint (take_bit w (int_of_float (UnfitUint rt) False x))))
           | _ \<Rightarrow> None)
      | VString s \<Rightarrow>
          (if t = TSlice (TUint 8) then Some (Some (bytes_val s))
           else if t = TSlice (TInt 32) then Some (Some (VSlice (map (\<lambda>r. VInt (word_of_nat r)) (runes s))))
           else None)
      | VSlice vs \<Rightarrow>
          (case t of
             TString \<Rightarrow> Some (Some (VString (val_bytes vs)))
           | TArray n u \<Rightarrow>
               if u \<noteq> TUint 8 then None else if n \<le> length vs then Some (Some (VArray (take n vs))) else Some None
           | TPtr (TArray n u) \<Rightarrow>
               if u \<noteq> TUint 8 then None else if n \<le> length vs then Some (Some (VPtr (VArray (take n vs)))) else Some None
           | _ \<Rightarrow> None)
      | _ \<Rightarrow> None)"

text \<open>The value to assign comes with its type; the old value stays when it cannot be assigned.\<close>

definition setFieldValue :: "runtime \<Rightarrow> ty \<Rightarrow> val \<Rightarrow> ty \<times> val \<Rightarrow> outcome \<times> val" where
  "setFieldValue rt t old value =
     (let (src, v) = value
      in if src = t then (Done, v)
         else if t = TInterface then (Done, VInterface src v)
         else case Convert rt v t of
                None \<Rightarrow> (Failed ErrInvalidType, old)
              | Some None \<Rightarrow> (Panicked, old)
              | Some (Some v') \<Rightarrow> (Done, v'))"

lemma bytes_val_typed: "typed (TSlice (TUint 8)) (bytes_val bs)"
proof -
  have "take_bit 8 (ucast b :: 64 word) = ucast b" for b :: byte
    by (rule bit_word_eqI) (auto simp: bit_simps dest: bit_imp_le_length)
  then show ?thesis by (auto simp: bytes_val_def)
qed

lemma bytes_val_bytes:
  assumes "\<forall>v \<in> set vs. typed (TUint 8) v"
  shows "bytes_val (val_bytes vs) = VSlice vs"
proof -
  have "VUint (ucast ((case v of VUint n \<Rightarrow> ucast n | _ \<Rightarrow> 0) :: byte)) = v" if v: "v \<in> set vs" for v
  proof -
    obtain n where n: "v = VUint n" "take_bit 8 n = n" using assms v unfolding typed_of by blast
    have "ucast (ucast n :: byte) = take_bit 8 n" by (rule bit_word_eqI) (auto simp: bit_simps)
    then show ?thesis using n by simp
  qed
  then show ?thesis by (simp add: bytes_val_def val_bytes_def map_idI)
qed

subsection \<open>The registry\<close>

text \<open>
  A serializer is its methods. \<open>Marshal\<close> takes a value with its type, or the nil interface, and may panic
  (\<^const>\<open>None\<close>); \<open>Unmarshal\<close> returns what it was given, changed.
\<close>

record Serializer =
  Serializer_Name :: bytes
  ContentType :: bytes
  Serializer_Marshal :: "Options \<Rightarrow> (ty \<times> val) option \<Rightarrow> (serialize_error, bytes) result option"
  Serializer_Unmarshal :: "Options \<Rightarrow> bytes \<Rightarrow> (ty \<times> val) option \<Rightarrow> outcome \<times> (ty \<times> val) option"

record Registry =
  serializers :: "(bytes, Serializer) fmap"
  defaultName :: bytes

definition NewRegistry :: Registry where
  "NewRegistry = \<lparr>serializers = fmempty, defaultName = []\<rparr>"

definition Register :: "bytes \<Rightarrow> Serializer option \<Rightarrow> Registry \<Rightarrow> (serialize_error, unit) result \<times> Registry" where
  "Register name s r =
     (if name = [] then (Inl ErrInvalidFormat, r)
      else case s of
             None \<Rightarrow> (Inl ErrInvalidType, r)
           | Some s' \<Rightarrow>
               (Inr (), r\<lparr>serializers := fmupd name s' (serializers r),
                          defaultName := (if defaultName r = [] then name else defaultName r)\<rparr>))"

text \<open>The walk of a map may meet any key first; \<open>i\<close> says which.\<close>

definition pick :: "nat \<Rightarrow> 'a list \<Rightarrow> 'a option" where
  "pick i xs = (if xs = [] then None else Some (xs ! (i mod length xs)))"

definition keys :: "Registry \<Rightarrow> bytes list" where
  "keys r = sorted_list_of_fset (fmdom (serializers r))"

definition Unregister :: "nat \<Rightarrow> bytes \<Rightarrow> Registry \<Rightarrow> Registry" where
  "Unregister i name r =
     (let r1 = r\<lparr>serializers := fmdrop name (serializers r)\<rparr>
      in if defaultName r1 = name then r1\<lparr>defaultName := (case pick i (keys r1) of None \<Rightarrow> [] | Some k \<Rightarrow> k)\<rparr> else r1)"

definition Get :: "bytes \<Rightarrow> Registry \<Rightarrow> (serialize_error, Serializer) result" where
  "Get name r = (case fmlookup (serializers r) name of None \<Rightarrow> Inl ErrSerializerNotFound | Some s \<Rightarrow> Inr s)"

definition GetByContentType :: "nat \<Rightarrow> bytes \<Rightarrow> Registry \<Rightarrow> (serialize_error, Serializer) result" where
  "GetByContentType i contentType r =
     (case pick i (filter (\<lambda>s. ContentType s = contentType) (map (\<lambda>k. the (fmlookup (serializers r) k)) (keys r))) of
        None \<Rightarrow> Inl ErrSerializerNotFound
      | Some s \<Rightarrow> Inr s)"

definition SetDefault :: "bytes \<Rightarrow> Registry \<Rightarrow> (serialize_error, unit) result \<times> Registry" where
  "SetDefault name r =
     (case fmlookup (serializers r) name of
        None \<Rightarrow> (Inl ErrSerializerNotFound, r)
      | Some _ \<Rightarrow> (Inr (), r\<lparr>defaultName := name\<rparr>))"

definition Default :: "Registry \<Rightarrow> (serialize_error, Serializer) result" where
  "Default r =
     (if defaultName r = [] then Inl ErrSerializerNotFound
      else case fmlookup (serializers r) (defaultName r) of None \<Rightarrow> Inl ErrSerializerNotFound | Some s \<Rightarrow> Inr s)"

definition MarshalDefault :: "Options \<Rightarrow> (ty \<times> val) option \<Rightarrow> Registry \<Rightarrow> (serialize_error, bytes) result option" where
  "MarshalDefault opts v r = (case Default r of Inl err \<Rightarrow> Some (Inl err) | Inr s \<Rightarrow> Serializer_Marshal s opts v)"

definition MarshalWith :: "bytes \<Rightarrow> Options \<Rightarrow> (ty \<times> val) option \<Rightarrow> Registry \<Rightarrow> (serialize_error, bytes) result option" where
  "MarshalWith name opts v r = (case Get name r of Inl err \<Rightarrow> Some (Inl err) | Inr s \<Rightarrow> Serializer_Marshal s opts v)"

definition UnmarshalDefault :: "Options \<Rightarrow> bytes \<Rightarrow> (ty \<times> val) option \<Rightarrow> Registry \<Rightarrow> outcome \<times> (ty \<times> val) option" where
  "UnmarshalDefault opts data v r = (case Default r of Inl err \<Rightarrow> (Failed err, v) | Inr s \<Rightarrow> Serializer_Unmarshal s opts data v)"

definition UnmarshalWith :: "bytes \<Rightarrow> Options \<Rightarrow> bytes \<Rightarrow> (ty \<times> val) option \<Rightarrow> Registry \<Rightarrow> outcome \<times> (ty \<times> val) option" where
  "UnmarshalWith name opts data v r = (case Get name r of Inl err \<Rightarrow> (Failed err, v) | Inr s \<Rightarrow> Serializer_Unmarshal s opts data v)"

subsection \<open>The default serializer\<close>

text \<open>There is a default serializer exactly when there are serializers, and it is one of them.\<close>

definition registry_inv :: "Registry \<Rightarrow> bool" where
  "registry_inv r \<longleftrightarrow>
     [] |\<notin>| fmdom (serializers r) \<and>
     (defaultName r |\<in>| fmdom (serializers r) \<or> fmdom (serializers r) = {||} \<and> defaultName r = [])"

datatype registry_op = OpRegister bytes "Serializer option" | OpUnregister nat bytes | OpSetDefault bytes

fun registry_step :: "registry_op \<Rightarrow> Registry \<Rightarrow> (serialize_error, unit) result \<times> Registry" where
  "registry_step (OpRegister name s) r = Register name s r"
| "registry_step (OpUnregister i name) r = (Inr (), Unregister i name r)"
| "registry_step (OpSetDefault name) r = SetDefault name r"

lemma NewRegistry_inv: "registry_inv NewRegistry"
  by (simp add: registry_inv_def NewRegistry_def)

lemma pick_in: "pick i xs = Some x \<Longrightarrow> x \<in> set xs"
  by (auto simp: pick_def split: if_splits)

lemma pick_None: "pick i xs = None \<longleftrightarrow> xs = []"
  by (simp add: pick_def)

lemma set_keys [simp]: "set (keys r) = fset (fmdom (serializers r))"
  by (simp add: keys_def)

lemma keys_Nil [simp]: "keys r = [] \<longleftrightarrow> fmdom (serializers r) = {||}"
  by (metis bot_fset.rep_eq fset_inject set_empty set_keys)

lemma Register_inv: "registry_inv r \<Longrightarrow> registry_inv (snd (Register name s r))"
  by (auto simp: registry_inv_def Register_def split: option.splits)

lemma SetDefault_inv: "registry_inv r \<Longrightarrow> registry_inv (snd (SetDefault name r))"
  by (auto simp: registry_inv_def SetDefault_def fmdomI split: option.splits)

lemma Unregister_inv:
  assumes "registry_inv r"
  shows "registry_inv (Unregister i name r)"
proof (cases "defaultName r = name")
  case True
  let ?r = "r\<lparr>serializers := fmdrop name (serializers r)\<rparr>"
  show ?thesis
  proof (cases "pick i (keys ?r)")
    case None
    then have "fmdom (serializers ?r) = {||}" unfolding pick_None keys_Nil .
    then show ?thesis using True None assms by (simp add: registry_inv_def Unregister_def Let_def)
  next
    case (Some k)
    then have "k |\<in>| fmdom (serializers ?r)" using pick_in set_keys by metis
    moreover have "[] |\<notin>| fmdom (serializers ?r)" using assms by (simp add: registry_inv_def)
    ultimately show ?thesis using True Some by (auto simp: registry_inv_def Unregister_def Let_def)
  qed
next
  case False
  then show ?thesis using assms by (auto simp: registry_inv_def Unregister_def Let_def)
qed

interpretation registry: preserved registry_step registry_inv
  using Register_inv SetDefault_inv Unregister_inv by unfold_locales (metis (no_types) registry_op.exhaust registry_step.simps snd_conv)

lemma Default_found:
  assumes "registry_inv r"
  shows "(\<exists>s. Default r = Inr s) \<longleftrightarrow> keys r \<noteq> []"
  using assms by (auto simp: registry_inv_def Default_def split: if_splits option.splits)

subsection \<open>Round trips\<close>

text \<open>
  What a serializer promises its clients: a value of a kind it can write is read back, behind a pointer to a zero value, as
  what the serializer keeps of it, if a strict reader has the version that was written. The data is shorter than
  \<open>2 ^ 63\<close> bytes, as a Go slice always is.
\<close>

definition agree :: "Options \<Rightarrow> Options \<Rightarrow> bool" where
  "agree eopts opts \<longleftrightarrow> (StrictMode opts \<longrightarrow> sint (Version eopts) > 0 \<longrightarrow> Version eopts = Version opts)"

locale codec =
  fixes s :: Serializer
    and can_write :: "ty \<Rightarrow> val \<Rightarrow> bool"
    and keeps :: "ty \<Rightarrow> val \<Rightarrow> val"
  assumes reads_back: "can_write t v \<Longrightarrow> agree eopts opts \<Longrightarrow>
    \<exists>data. Serializer_Marshal s eopts (Some (TPtr t, VPtr v)) = Some (Inr data) \<and>
      (length data < 2 ^ 63 \<longrightarrow>
        Serializer_Unmarshal s opts data (Some (TPtr t, VPtr (zero t))) = (Done, Some (TPtr t, VPtr (keeps t v))))"
begin

lemma with_name:
  assumes "fmlookup (serializers r) name = Some s" "can_write t v" "agree eopts opts"
  shows "\<exists>data. MarshalWith name eopts (Some (TPtr t, VPtr v)) r = Some (Inr data) \<and>
    (length data < 2 ^ 63 \<longrightarrow>
      UnmarshalWith name opts data (Some (TPtr t, VPtr (zero t))) r = (Done, Some (TPtr t, VPtr (keeps t v))))"
  using reads_back [OF assms(2,3)] assms(1) by (simp add: MarshalWith_def UnmarshalWith_def Get_def)

lemma with_default:
  assumes "Default r = Inr s" "can_write t v" "agree eopts opts"
  shows "\<exists>data. MarshalDefault eopts (Some (TPtr t, VPtr v)) r = Some (Inr data) \<and>
    (length data < 2 ^ 63 \<longrightarrow>
      UnmarshalDefault opts data (Some (TPtr t, VPtr (zero t))) r = (Done, Some (TPtr t, VPtr (keeps t v))))"
  using reads_back [OF assms(2,3)] assms(1) by (simp add: MarshalDefault_def UnmarshalDefault_def)

end

end
