(* ===== verification/Msgpack.thy ===== *)
theory Msgpack
  imports Serialize
begin

unbundle bit_operations_syntax

section \<open>MessagePack (\<open>src/internal/serialize/msgpack.go\<close>, \<open>serialize.go\<close>)\<close>

text \<open>
  The MessagePack serializer over the types and values of \<open>Goreflect\<close>. A decoder is the data that is left; decoding
  changes a value in place, also when it fails, so it returns the outcome, the new value and the rest of the data. The
  nesting of the decoder is bounded by fuel, of which more than the length of the data is enough. Two things of the
  runtime are arguments: \<open>strings.ToLower\<close> and the conversion of a \<open>float64\<close> to an integer type it does not fit in.
\<close>

subsection \<open>Encoding\<close>

abbreviation "mpNil \<equiv> 0xc0 :: byte"
abbreviation "mpFalse \<equiv> 0xc2 :: byte"
abbreviation "mpTrue \<equiv> 0xc3 :: byte"
abbreviation "mpBin8 \<equiv> 0xc4 :: byte"
abbreviation "mpBin16 \<equiv> 0xc5 :: byte"
abbreviation "mpBin32 \<equiv> 0xc6 :: byte"
abbreviation "mpFloat32 \<equiv> 0xca :: byte"
abbreviation "mpFloat64 \<equiv> 0xcb :: byte"
abbreviation "mpUint8 \<equiv> 0xcc :: byte"
abbreviation "mpUint16 \<equiv> 0xcd :: byte"
abbreviation "mpUint32 \<equiv> 0xce :: byte"
abbreviation "mpUint64 \<equiv> 0xcf :: byte"
abbreviation "mpInt8 \<equiv> 0xd0 :: byte"
abbreviation "mpInt16 \<equiv> 0xd1 :: byte"
abbreviation "mpInt32 \<equiv> 0xd2 :: byte"
abbreviation "mpInt64 \<equiv> 0xd3 :: byte"
abbreviation "mpStr8 \<equiv> 0xd9 :: byte"
abbreviation "mpStr16 \<equiv> 0xda :: byte"
abbreviation "mpStr32 \<equiv> 0xdb :: byte"
abbreviation "mpArray16 \<equiv> 0xdc :: byte"
abbreviation "mpArray32 \<equiv> 0xdd :: byte"
abbreviation "mpMap16 \<equiv> 0xde :: byte"
abbreviation "mpMap32 \<equiv> 0xdf :: byte"

definition appendInt :: "bytes \<Rightarrow> 64 word \<Rightarrow> bytes" where
  "appendInt buf n =
     (let i = sint n
      in if i \<ge> 0 \<and> i \<le> 127 then buf @ [ucast n]
         else if i \<ge> - 32 \<and> i < 0 then buf @ [ucast (0xe0 OR (n + 32))]
         else if i \<ge> - (2 ^ 7) \<and> i \<le> 2 ^ 7 - 1 then buf @ [mpInt8] @ [ucast n]
         else if i \<ge> - (2 ^ 15) \<and> i \<le> 2 ^ 15 - 1 then buf @ [mpInt16] @ put_be 2 n
         else if i \<ge> - (2 ^ 31) \<and> i \<le> 2 ^ 31 - 1 then buf @ [mpInt32] @ put_be 4 n
         else buf @ [mpInt64] @ put_be 8 n)"

definition appendUint :: "bytes \<Rightarrow> 64 word \<Rightarrow> bytes" where
  "appendUint buf n =
     (if n \<le> 127 then buf @ [ucast n]
      else if n \<le> 0xff then buf @ [mpUint8] @ [ucast n]
      else if n \<le> 0xffff then buf @ [mpUint16] @ put_be 2 n
      else if n \<le> 0xffffffff then buf @ [mpUint32] @ put_be 4 n
      else buf @ [mpUint64] @ put_be 8 n)"

text \<open>A length of at most four bytes; the conversions \<open>byte(l)\<close>, \<open>uint16(l)\<close> and \<open>uint32(l)\<close> keep its low bits.\<close>

abbreviation put_len :: "nat \<Rightarrow> nat \<Rightarrow> bytes" where
  "put_len k l \<equiv> put_be k (word_of_nat l :: 64 word)"

definition appendString :: "bytes \<Rightarrow> bytes \<Rightarrow> bytes" where
  "appendString buf s =
     (let l = length s
      in (if l \<le> 31 then buf @ [0xa0 OR word_of_nat l]
          else if l \<le> 0xff then buf @ [mpStr8, word_of_nat l]
          else if l \<le> 0xffff then buf @ [mpStr16] @ put_len 2 l
          else buf @ [mpStr32] @ put_len 4 l) @ s)"

definition appendBytes :: "bytes \<Rightarrow> bytes \<Rightarrow> bytes" where
  "appendBytes buf b =
     (let l = length b
      in (if l \<le> 0xff then buf @ [mpBin8, word_of_nat l]
          else if l \<le> 0xffff then buf @ [mpBin16] @ put_len 2 l
          else buf @ [mpBin32] @ put_len 4 l) @ b)"

definition array_header :: "nat \<Rightarrow> bytes" where
  "array_header l =
     (if l \<le> 15 then [0x90 OR word_of_nat l]
      else if l \<le> 0xffff then [mpArray16] @ put_len 2 l
      else [mpArray32] @ put_len 4 l)"

definition map_header :: "nat \<Rightarrow> bytes" where
  "map_header l =
     (if l \<le> 15 then [0x80 OR word_of_nat l]
      else if l \<le> 0xffff then [mpMap16] @ put_len 2 l
      else [mpMap32] @ put_len 4 l)"

text \<open>
  The value is encoded by the kind of its type; \<open>append_elems\<close>, \<open>append_entries\<close> and \<open>append_fields\<close> are the loops of
  \<open>appendArray\<close>, \<open>appendMap\<close> and \<open>appendStruct\<close>.
\<close>

function (sequential)
  appendValue :: "ty \<Rightarrow> val \<Rightarrow> bytes \<Rightarrow> (serialize_error, bytes) result" and
  append_elems :: "ty \<Rightarrow> val list \<Rightarrow> bytes \<Rightarrow> (serialize_error, bytes) result" and
  append_entries :: "ty \<Rightarrow> ty \<Rightarrow> (val \<times> val) list \<Rightarrow> bytes \<Rightarrow> (serialize_error, bytes) result" and
  append_fields :: "field list \<Rightarrow> ty list \<Rightarrow> val list \<Rightarrow> bytes \<Rightarrow> (serialize_error, bytes) result" where
  "appendValue t (VBool b) buf = (if t = TBool then Inr (buf @ [if b then mpTrue else mpFalse]) else Inl ErrInvalidType)"
| "appendValue t (VInt n) buf = (case t of TInt _ \<Rightarrow> Inr (appendInt buf n) | _ \<Rightarrow> Inl ErrInvalidType)"
| "appendValue t (VUint n) buf = (case t of TUint _ \<Rightarrow> Inr (appendUint buf n) | _ \<Rightarrow> Inl ErrInvalidType)"
| "appendValue t (VFloat32 x) buf =
     (if t = TFloat32 then Inr (buf @ [mpFloat32] @ put_be 4 (narrow (widen x))) else Inl ErrInvalidType)"
| "appendValue t (VFloat64 x) buf = (if t = TFloat64 then Inr (buf @ [mpFloat64] @ put_be 8 x) else Inl ErrInvalidType)"
| "appendValue t (VString s) buf = (if t = TString then Inr (appendString buf s) else Inl ErrInvalidType)"
| "appendValue t (VSlice vs) buf =
     (case t of
        TSlice e \<Rightarrow>
          if e = TUint 8 then Inr (appendBytes buf (val_bytes vs)) else append_elems e vs (buf @ array_header (length vs))
      | _ \<Rightarrow> Inl ErrInvalidType)"
| "appendValue t (VArray vs) buf =
     (case t of TArray _ e \<Rightarrow> append_elems e vs (buf @ array_header (length vs)) | _ \<Rightarrow> Inl ErrInvalidType)"
| "appendValue t (VMap kvs) buf =
     (case t of TMap kt vt \<Rightarrow> append_entries kt vt kvs (buf @ map_header (length kvs)) | _ \<Rightarrow> Inl ErrInvalidType)"
| "appendValue t (VStruct vs) buf =
     (case t of
        TStruct fs ts \<Rightarrow> append_fields fs ts vs (buf @ map_header (length (filter serialized fs)))
      | _ \<Rightarrow> Inl ErrInvalidType)"
| "appendValue t VNilPtr buf = (case t of TPtr _ \<Rightarrow> Inr (buf @ [mpNil]) | _ \<Rightarrow> Inl ErrInvalidType)"
| "appendValue t (VPtr v) buf = (case t of TPtr e \<Rightarrow> appendValue e v buf | _ \<Rightarrow> Inl ErrInvalidType)"
| "appendValue t VNilInterface buf = (if t = TInterface then Inr (buf @ [mpNil]) else Inl ErrInvalidType)"
| "appendValue t (VInterface u v) buf = (if t = TInterface then appendValue u v buf else Inl ErrInvalidType)"
| "appendValue t VOther buf = Inl ErrInvalidType"
| "append_elems t [] buf = Inr buf"
| "append_elems t (v # vs) buf = (case appendValue t v buf of Inl err \<Rightarrow> Inl err | Inr buf1 \<Rightarrow> append_elems t vs buf1)"
| "append_entries kt vt [] buf = Inr buf"
| "append_entries kt vt ((k, v) # kvs) buf =
     (case appendValue kt k buf of
        Inl err \<Rightarrow> Inl err
      | Inr buf1 \<Rightarrow> (case appendValue vt v buf1 of Inl err \<Rightarrow> Inl err | Inr buf2 \<Rightarrow> append_entries kt vt kvs buf2))"
| "append_fields (f # fs) (t # ts) (v # vs) buf =
     (if \<not> serialized f then append_fields fs ts vs buf
      else case appendValue t v (appendString buf (getFieldName f)) of
             Inl err \<Rightarrow> Inl err
           | Inr buf1 \<Rightarrow> append_fields fs ts vs buf1)"
| "append_fields fs ts vs buf = Inr buf"
  by pat_completeness auto
termination
  by (relation "measure (\<lambda>x. case x of
        Inl (Inl (t, v, buf)) \<Rightarrow> size v
      | Inl (Inr (t, vs, buf)) \<Rightarrow> size_list size vs
      | Inr (Inl (kt, vt, kvs, buf)) \<Rightarrow> size_list (size_prod size size) kvs
      | Inr (Inr (fs, ts, vs, buf)) \<Rightarrow> size_list size vs)") simp_all

definition version_key :: bytes where "version_key = bytes_of ''__version__''"

definition marshal_elem :: "Options \<Rightarrow> ty \<Rightarrow> val \<Rightarrow> (serialize_error, bytes) result" where
  "marshal_elem opts t v =
     (case (t, v) of
        (TStruct fs ts, VStruct vs) \<Rightarrow>
          if sint (Version opts) > 0 then
            append_fields fs ts vs
              (appendInt (appendString (map_header (1 + length (filter serialized fs))) version_key) (Version opts))
          else appendValue t v []
      | _ \<Rightarrow> appendValue t v [])"

text \<open>The argument is a value with its type, or the nil interface.\<close>

definition Marshal :: "Options \<Rightarrow> (ty \<times> val) option \<Rightarrow> (serialize_error, bytes) result" where
  "Marshal opts arg =
     (case arg of
        None \<Rightarrow> Inr [mpNil]
      | Some (TPtr t, VNilPtr) \<Rightarrow> Inr [mpNil]
      | Some (TPtr t, VPtr v) \<Rightarrow> marshal_elem opts t v
      | Some (t, v) \<Rightarrow> marshal_elem opts t v)"

subsection \<open>Decoding\<close>

type_synonym 'a decoded = "outcome \<times> 'a \<times> bytes"

text \<open>The next \<open>k\<close> bytes as a number.\<close>

definition read_be :: "nat \<Rightarrow> bytes \<Rightarrow> (64 word \<times> bytes) option" where
  "read_be k bs = (if length bs < k then None else Some (get_be (take k bs), drop k bs))"

definition readUint8 :: "bytes \<Rightarrow> (64 word \<times> bytes) option" where "readUint8 = read_be 1"
definition readUint16 :: "bytes \<Rightarrow> (64 word \<times> bytes) option" where "readUint16 = read_be 2"
definition readUint32 :: "bytes \<Rightarrow> (64 word \<times> bytes) option" where "readUint32 = read_be 4"

definition set_rest :: "runtime \<Rightarrow> ty \<Rightarrow> val \<Rightarrow> ty \<times> val \<Rightarrow> bytes \<Rightarrow> val decoded" where
  "set_rest rt t old value bs = (case setFieldValue rt t old value of (out, v) \<Rightarrow> (out, v, bs))"

definition decode_number :: "runtime \<Rightarrow> ty \<Rightarrow> val \<Rightarrow> nat \<Rightarrow> (64 word \<Rightarrow> ty \<times> val) \<Rightarrow> bytes \<Rightarrow> val decoded" where
  "decode_number rt t old k f bs =
     (case read_be k bs of
        None \<Rightarrow> (Failed ErrInvalidFormat, old, bs)
      | Some (n, bs') \<Rightarrow> set_rest rt t old (f n) bs')"

definition decodeString :: "runtime \<Rightarrow> ty \<Rightarrow> val \<Rightarrow> nat \<Rightarrow> bytes \<Rightarrow> val decoded" where
  "decodeString rt t old l bs =
     (if length bs < l then (Failed ErrInvalidFormat, old, bs)
      else if t = TString then (Done, VString (take l bs), drop l bs)
      else set_rest rt t old (TString, VString (take l bs)) (drop l bs))"

definition decodeBytes :: "runtime \<Rightarrow> ty \<Rightarrow> val \<Rightarrow> nat \<Rightarrow> bytes \<Rightarrow> val decoded" where
  "decodeBytes rt t old l bs =
     (if length bs < l then (Failed ErrInvalidFormat, old, bs)
      else if t = TSlice (TUint 8) then (Done, bytes_val (take l bs), drop l bs)
      else set_rest rt t old (TSlice (TUint 8), bytes_val (take l bs)) (drop l bs))"

text \<open>A length of \<open>k\<close> bytes, and then what it is the length of.\<close>

definition with_len :: "val \<Rightarrow> (64 word \<times> bytes) option \<Rightarrow> bytes \<Rightarrow> (nat \<Rightarrow> bytes \<Rightarrow> val decoded) \<Rightarrow> val decoded" where
  "with_len old len bs f = (case len of None \<Rightarrow> (Failed ErrInvalidFormat, old, bs) | Some (n, bs') \<Rightarrow> f (unat n) bs')"

lemma with_len_cong [fundef_cong]:
  "old = old' \<Longrightarrow> len = len' \<Longrightarrow> bs = bs' \<Longrightarrow> (\<And>n r. len' = Some (n, r) \<Longrightarrow> f (unat n) r = g (unat n) r) \<Longrightarrow>
   with_len old len bs f = with_len old' len' bs' g"
  by (auto simp: with_len_def split: option.splits)

definition int_val :: "64 word \<Rightarrow> ty \<times> val" where "int_val n = (TInt 64, VInt n)"

text \<open>The codes of values that hold no other values.\<close>

definition decode_scalar :: "runtime \<Rightarrow> ty \<Rightarrow> val \<Rightarrow> byte \<Rightarrow> bytes \<Rightarrow> val decoded option" where
  "decode_scalar rt t old code bs =
     (if code = mpNil then Some (Done, zero t, bs)
      else if code = mpFalse then Some (set_rest rt t old (TBool, VBool False) bs)
      else if code = mpTrue then Some (set_rest rt t old (TBool, VBool True) bs)
      else if code \<le> 0x7f then Some (set_rest rt t old (int_val (ucast code)) bs)
      else if code \<ge> 0xe0 then Some (set_rest rt t old (int_val (signed_take_bit 7 (ucast code))) bs)
      else if code = mpUint8 then Some (decode_number rt t old 1 int_val bs)
      else if code = mpUint16 then Some (decode_number rt t old 2 int_val bs)
      else if code = mpUint32 then Some (decode_number rt t old 4 int_val bs)
      else if code = mpUint64 then Some (decode_number rt t old 8 int_val bs)
      else if code = mpInt8 then Some (decode_number rt t old 1 (\<lambda>n. int_val (signed_take_bit 7 n)) bs)
      else if code = mpInt16 then Some (decode_number rt t old 2 (\<lambda>n. int_val (signed_take_bit 15 n)) bs)
      else if code = mpInt32 then Some (decode_number rt t old 4 (\<lambda>n. int_val (signed_take_bit 31 n)) bs)
      else if code = mpInt64 then Some (decode_number rt t old 8 int_val bs)
      else if code = mpFloat32 then Some (decode_number rt t old 4 (\<lambda>n. (TFloat64, VFloat64 (widen (ucast n)))) bs)
      else if code = mpFloat64 then Some (decode_number rt t old 8 (\<lambda>n. (TFloat64, VFloat64 n)) bs)
      else if code \<ge> 0xa0 \<and> code \<le> 0xbf then Some (decodeString rt t old (unat (code AND 0x1f)) bs)
      else if code = mpStr8 then Some (with_len old (readUint8 bs) bs (decodeString rt t old))
      else if code = mpStr16 then Some (with_len old (readUint16 bs) bs (decodeString rt t old))
      else if code = mpStr32 then Some (with_len old (readUint32 bs) bs (decodeString rt t old))
      else if code = mpBin8 then Some (with_len old (readUint8 bs) bs (decodeBytes rt t old))
      else if code = mpBin16 then Some (with_len old (readUint16 bs) bs (decodeBytes rt t old))
      else if code = mpBin32 then Some (with_len old (readUint32 bs) bs (decodeBytes rt t old))
      else None)"

text \<open>From the names of the fields, and the names in lower case, to their positions.\<close>

definition field_map :: "runtime \<Rightarrow> field list \<Rightarrow> bytes \<rightharpoonup> nat" where
  "field_map rt fs =
     fold (\<lambda>(i, f) m. if \<not> serialized f then m else m(getFieldName f \<mapsto> i, ToLower rt (getFieldName f) \<mapsto> i))
       (enumerate 0 fs) Map.empty"

text \<open>
  The decoder. \<open>decode_seq\<close> decodes a number of values of one type, \<open>decode_into\<close> decodes into the elements of an array,
  \<open>decode_fields\<close> is the loop over the keys of a struct, with the version found so far, and \<open>decode_entries\<close> the loop over
  the entries of a map.
\<close>

function (sequential)
  decodeValue :: "runtime \<Rightarrow> Options \<Rightarrow> nat \<Rightarrow> ty \<Rightarrow> val \<Rightarrow> bytes \<Rightarrow> val decoded" and
  decodeArray :: "runtime \<Rightarrow> Options \<Rightarrow> nat \<Rightarrow> ty \<Rightarrow> val \<Rightarrow> nat \<Rightarrow> bytes \<Rightarrow> val decoded" and
  decodeMap :: "runtime \<Rightarrow> Options \<Rightarrow> nat \<Rightarrow> ty \<Rightarrow> val \<Rightarrow> nat \<Rightarrow> bytes \<Rightarrow> val decoded" and
  decode_seq :: "runtime \<Rightarrow> Options \<Rightarrow> nat \<Rightarrow> ty \<Rightarrow> nat \<Rightarrow> bytes \<Rightarrow> val list decoded" and
  decode_into :: "runtime \<Rightarrow> Options \<Rightarrow> nat \<Rightarrow> ty \<Rightarrow> val list \<Rightarrow> nat \<Rightarrow> bytes \<Rightarrow> val list decoded" and
  decode_fields ::
    "runtime \<Rightarrow> Options \<Rightarrow> nat \<Rightarrow> (bytes \<rightharpoonup> nat) \<Rightarrow> ty list \<Rightarrow> val list \<Rightarrow> 64 word option \<Rightarrow> nat \<Rightarrow> bytes \<Rightarrow>
     (val list \<times> 64 word option) decoded" and
  decode_entries ::
    "runtime \<Rightarrow> Options \<Rightarrow> nat \<Rightarrow> ty \<Rightarrow> ty \<Rightarrow> (val \<times> val) list \<Rightarrow> nat \<Rightarrow> bytes \<Rightarrow> (val \<times> val) list decoded" where
  "decodeValue rt opts 0 t old bs = (OutOfFuel, old, bs)"
| "decodeValue rt opts (Suc n) t old [] = (Failed ErrInvalidFormat, old, [])"
| "decodeValue rt opts (Suc n) t old (code # bs) =
     (case decode_scalar rt t old code bs of
        Some r \<Rightarrow> r
      | None \<Rightarrow>
          if code \<ge> 0x90 \<and> code \<le> 0x9f then decodeArray rt opts n t old (unat (code AND 0x0f)) bs
          else if code = mpArray16 then with_len old (readUint16 bs) bs (\<lambda>l r. decodeArray rt opts n t old l r)
          else if code = mpArray32 then with_len old (readUint32 bs) bs (\<lambda>l r. decodeArray rt opts n t old l r)
          else if code \<ge> 0x80 \<and> code \<le> 0x8f then decodeMap rt opts n t old (unat (code AND 0x0f)) bs
          else if code = mpMap16 then with_len old (readUint16 bs) bs (\<lambda>l r. decodeMap rt opts n t old l r)
          else if code = mpMap32 then with_len old (readUint32 bs) bs (\<lambda>l r. decodeMap rt opts n t old l r)
          else (Failed ErrInvalidFormat, old, bs))"
| "decodeArray rt opts n t old l bs =
     (case t of
        TSlice e \<Rightarrow>
          (case decode_seq rt opts n e l bs of (out, vs, bs') \<Rightarrow> (out, if out = Done then VSlice vs else old, bs'))
      | TArray _ e \<Rightarrow>
          (case old of
             VArray vs \<Rightarrow> (case decode_into rt opts n e vs l bs of (out, vs', bs') \<Rightarrow> (out, VArray vs', bs'))
           | _ \<Rightarrow> (Panicked, old, bs))
      | _ \<Rightarrow> (case decode_seq rt opts n TInterface l bs of (out, _, bs') \<Rightarrow> (out, old, bs')))"
| "decodeMap rt opts n t old l bs =
     (case t of
        TStruct fs ts \<Rightarrow>
          (case old of
             VStruct vs \<Rightarrow>
               (case decode_fields rt opts n (field_map rt fs) ts vs None l bs of
                  (out, (vs', ver), bs') \<Rightarrow>
                    (if out \<noteq> Done then out
                     else case ver of
                            None \<Rightarrow> Done
                          | Some dataVersion \<Rightarrow>
                              if StrictMode opts \<and> sint dataVersion > 0 \<and> dataVersion \<noteq> Version opts
                              then Failed (ErrVersionMismatch (Version opts) dataVersion)
                              else Done,
                     VStruct vs', bs'))
           | _ \<Rightarrow> (Panicked, old, bs))
      | TMap kt vt \<Rightarrow>
          (case decode_entries rt opts n kt vt [] l bs of (out, m, bs') \<Rightarrow> (out, if out = Done then VMap m else old, bs'))
      | _ \<Rightarrow> (case decode_seq rt opts n TInterface (2 * l) bs of (out, _, bs') \<Rightarrow> (out, old, bs')))"
| "decode_seq rt opts n t 0 bs = (Done, [], bs)"
| "decode_seq rt opts n t (Suc l) bs =
     (case decodeValue rt opts n t (zero t) bs of
        (out, v, bs1) \<Rightarrow>
          if out \<noteq> Done then (out, [], bs1)
          else case decode_seq rt opts n t l bs1 of (out, vs, bs2) \<Rightarrow> (out, v # vs, bs2))"
| "decode_into rt opts n t vs 0 bs = (Done, vs, bs)"
| "decode_into rt opts n t [] (Suc l) bs = (Done, [], bs)"
| "decode_into rt opts n t (old # vs) (Suc l) bs =
     (case decodeValue rt opts n t old bs of
        (out, v, bs1) \<Rightarrow>
          if out \<noteq> Done then (out, v # vs, bs1)
          else case decode_into rt opts n t vs l bs1 of (out, vs', bs2) \<Rightarrow> (out, v # vs', bs2))"
| "decode_fields rt opts n m ts vs ver 0 bs = (Done, (vs, ver), bs)"
| "decode_fields rt opts n m ts vs ver (Suc l) bs =
     (case decodeValue rt opts n TString (VString []) bs of
        (Done, VString key, bs1) \<Rightarrow>
          if key = version_key then
            (case decodeValue rt opts n (TInt 64) (VInt 0) bs1 of
               (Done, VInt w, bs2) \<Rightarrow> decode_fields rt opts n m ts vs (Some w) l bs2
             | (out, _, bs2) \<Rightarrow> (out, (vs, ver), bs2))
          else
            (case (case m key of Some i \<Rightarrow> Some i | None \<Rightarrow> m (ToLower rt key)) of
               None \<Rightarrow>
                 if OnUnknownField opts = ReturnUnknownFieldError then (Failed (ErrUnknownField key), (vs, ver), bs1)
                 else (case decodeValue rt opts n TInterface VNilInterface bs1 of
                         (out, _, bs2) \<Rightarrow>
                           if out \<noteq> Done then (out, (vs, ver), bs2) else decode_fields rt opts n m ts vs ver l bs2)
             | Some i \<Rightarrow>
                 (case decodeValue rt opts n (ts ! i) (vs ! i) bs1 of
                    (out, v, bs2) \<Rightarrow>
                      if out \<noteq> Done then (out, (vs[i := v], ver), bs2)
                      else decode_fields rt opts n m ts (vs[i := v]) ver l bs2))
      | (out, _, bs1) \<Rightarrow> (out, (vs, ver), bs1))"
| "decode_entries rt opts n kt vt m 0 bs = (Done, m, bs)"
| "decode_entries rt opts n kt vt m (Suc l) bs =
     (case decodeValue rt opts n kt (zero kt) bs of
        (out, k, bs1) \<Rightarrow>
          if out \<noteq> Done then (out, m, bs1)
          else case decodeValue rt opts n vt (zero vt) bs1 of
                 (out, v, bs2) \<Rightarrow>
                   if out \<noteq> Done then (out, m, bs2)
                   else if \<not> hashable k then (Panicked, m, bs2)
                   else decode_entries rt opts n kt vt (SetMapIndex k v m) l bs2)"
  by pat_completeness auto
termination
  by (relation "measures
     [\<lambda>x. case x of
        Inl (Inl (rt, opts, n, _)) \<Rightarrow> 3 * n
      | Inl (Inr (Inl (rt, opts, n, _))) \<Rightarrow> 3 * n + 2
      | Inl (Inr (Inr (rt, opts, n, _))) \<Rightarrow> 3 * n + 2
      | Inr (Inl (Inl (rt, opts, n, _))) \<Rightarrow> 3 * n + 1
      | Inr (Inl (Inr (rt, opts, n, _))) \<Rightarrow> 3 * n + 1
      | Inr (Inr (Inl (rt, opts, n, _))) \<Rightarrow> 3 * n + 1
      | Inr (Inr (Inr (rt, opts, n, _))) \<Rightarrow> 3 * n + 1,
      \<lambda>x. case x of
        Inr (Inl (Inl (rt, opts, n, t, l, bs))) \<Rightarrow> l
      | Inr (Inl (Inr (rt, opts, n, t, vs, l, bs))) \<Rightarrow> l
      | Inr (Inr (Inl (rt, opts, n, m, ts, vs, ver, l, bs))) \<Rightarrow> l
      | Inr (Inr (Inr (rt, opts, n, kt, vt, m, l, bs))) \<Rightarrow> l
      | _ \<Rightarrow> 0]") simp_all

declare decodeArray.simps [simp del] decodeMap.simps [simp del]

text \<open>The target is a value with its type, or the nil interface; what it points to is returned changed.\<close>

definition Unmarshal :: "runtime \<Rightarrow> Options \<Rightarrow> bytes \<Rightarrow> (ty \<times> val) option \<Rightarrow> outcome \<times> (ty \<times> val) option" where
  "Unmarshal rt opts data arg =
     (case arg of
        None \<Rightarrow> (Failed ErrUnmarshalNil, arg)
      | Some tv \<Rightarrow>
          if data = [] then (Done, arg)
          else case tv of
                 (TPtr t, VPtr old) \<Rightarrow>
                   (case decodeValue rt opts (Suc (length data)) t old data of
                      (out, v, _) \<Rightarrow> (out, Some (TPtr t, VPtr v)))
               | _ \<Rightarrow> (Failed ErrUnmarshalNil, arg))"

subsection \<open>Codes\<close>

lemma low_codes: "c \<le> 0xbf \<Longrightarrow> c < (0xc0 :: byte)" by (simp add: word_le_nat_alt word_less_nat_alt)

lemma scalar_fixint: "c \<le> 0x7f \<Longrightarrow> decode_scalar rt t old c bs = Some (set_rest rt t old (int_val (ucast c)) bs)"
  by (auto simp: decode_scalar_def)

lemma scalar_negint: "0xe0 \<le> c \<Longrightarrow> decode_scalar rt t old c bs = Some (set_rest rt t old (int_val (signed_take_bit 7 (ucast c))) bs)"
  using order_trans [of "0xe0" c "0x7f"] by (auto simp: decode_scalar_def)

lemma scalar_fixstr:
  assumes "0xa0 \<le> c" "c \<le> 0xbf"
  shows "decode_scalar rt t old c bs = Some (decodeString rt t old (unat (c AND 0x1f)) bs)"
proof -
  have "\<not> c \<le> 0x7f" "\<not> 0xe0 \<le> c" using order_trans [OF assms(1), of "0x7f"] order_trans [of "0xe0" c "0xbf"] assms by auto
  then show ?thesis using assms by (auto simp: decode_scalar_def)
qed

lemma scalar_none:
  assumes "0x80 \<le> c" "c \<le> 0x9f"
  shows "decode_scalar rt t old c bs = None"
proof -
  have "\<not> c \<le> 0x7f" "\<not> 0xe0 \<le> c" "\<not> 0xa0 \<le> c"
    using order_trans [OF assms(1), of "0x7f"] order_trans [of "0xe0" c "0x9f"] order_trans [of "0xa0" c "0x9f"] assms by auto
  then show ?thesis using assms by (auto simp: decode_scalar_def)
qed

lemma fix_code:
  fixes l :: nat
  shows "l \<le> 31 \<Longrightarrow> (0xa0 OR word_of_nat l :: byte) = word_of_nat (160 + l) \<and> unat (word_of_nat (160 + l) AND 0x1f :: byte) = l"
    "l \<le> 15 \<Longrightarrow> (0x90 OR word_of_nat l :: byte) = word_of_nat (144 + l) \<and> unat (word_of_nat (144 + l) AND 0x0f :: byte) = l"
    "l \<le> 15 \<Longrightarrow> (0x80 OR word_of_nat l :: byte) = word_of_nat (128 + l) \<and> unat (word_of_nat (128 + l) AND 0x0f :: byte) = l"
proof -
  have "list_all (\<lambda>l. (0xa0 OR word_of_nat l :: byte) = word_of_nat (160 + l) \<and> unat (word_of_nat (160 + l) AND 0x1f :: byte) = l) [0..<32]"
    by code_simp
  then show "l \<le> 31 \<Longrightarrow> (0xa0 OR word_of_nat l :: byte) = word_of_nat (160 + l) \<and> unat (word_of_nat (160 + l) AND 0x1f :: byte) = l"
    unfolding list_all_iff by (simp only: set_upt atLeastLessThan_iff) force
  have "list_all (\<lambda>l. (0x90 OR word_of_nat l :: byte) = word_of_nat (144 + l) \<and> unat (word_of_nat (144 + l) AND 0x0f :: byte) = l) [0..<16]"
    by code_simp
  then show "l \<le> 15 \<Longrightarrow> (0x90 OR word_of_nat l :: byte) = word_of_nat (144 + l) \<and> unat (word_of_nat (144 + l) AND 0x0f :: byte) = l"
    unfolding list_all_iff by (simp only: set_upt atLeastLessThan_iff) force
  have "list_all (\<lambda>l. (0x80 OR word_of_nat l :: byte) = word_of_nat (128 + l) \<and> unat (word_of_nat (128 + l) AND 0x0f :: byte) = l) [0..<16]"
    by code_simp
  then show "l \<le> 15 \<Longrightarrow> (0x80 OR word_of_nat l :: byte) = word_of_nat (128 + l) \<and> unat (word_of_nat (128 + l) AND 0x0f :: byte) = l"
    unfolding list_all_iff by (simp only: set_upt atLeastLessThan_iff) force
qed

lemma code_range: "a \<le> n \<Longrightarrow> n \<le> b \<Longrightarrow> b < 256 \<Longrightarrow> (word_of_nat a :: byte) \<le> word_of_nat n \<and> (word_of_nat n :: byte) \<le> word_of_nat b"
  by (simp add: word_le_nat_alt unat_of_nat)

lemma scalar_code:
  "decode_scalar rt t old mpNil bs = Some (Done, zero t, bs)"
  "decode_scalar rt t old mpFalse bs = Some (set_rest rt t old (TBool, VBool False) bs)"
  "decode_scalar rt t old mpTrue bs = Some (set_rest rt t old (TBool, VBool True) bs)"
  "decode_scalar rt t old mpUint8 bs = Some (decode_number rt t old 1 int_val bs)"
  "decode_scalar rt t old mpUint16 bs = Some (decode_number rt t old 2 int_val bs)"
  "decode_scalar rt t old mpUint32 bs = Some (decode_number rt t old 4 int_val bs)"
  "decode_scalar rt t old mpUint64 bs = Some (decode_number rt t old 8 int_val bs)"
  "decode_scalar rt t old mpInt8 bs = Some (decode_number rt t old 1 (\<lambda>n. int_val (signed_take_bit 7 n)) bs)"
  "decode_scalar rt t old mpInt16 bs = Some (decode_number rt t old 2 (\<lambda>n. int_val (signed_take_bit 15 n)) bs)"
  "decode_scalar rt t old mpInt32 bs = Some (decode_number rt t old 4 (\<lambda>n. int_val (signed_take_bit 31 n)) bs)"
  "decode_scalar rt t old mpInt64 bs = Some (decode_number rt t old 8 int_val bs)"
  "decode_scalar rt t old mpFloat32 bs = Some (decode_number rt t old 4 (\<lambda>n. (TFloat64, VFloat64 (widen (ucast n)))) bs)"
  "decode_scalar rt t old mpFloat64 bs = Some (decode_number rt t old 8 (\<lambda>n. (TFloat64, VFloat64 n)) bs)"
  "decode_scalar rt t old mpStr8 bs = Some (with_len old (readUint8 bs) bs (decodeString rt t old))"
  "decode_scalar rt t old mpStr16 bs = Some (with_len old (readUint16 bs) bs (decodeString rt t old))"
  "decode_scalar rt t old mpStr32 bs = Some (with_len old (readUint32 bs) bs (decodeString rt t old))"
  "decode_scalar rt t old mpBin8 bs = Some (with_len old (readUint8 bs) bs (decodeBytes rt t old))"
  "decode_scalar rt t old mpBin16 bs = Some (with_len old (readUint16 bs) bs (decodeBytes rt t old))"
  "decode_scalar rt t old mpBin32 bs = Some (with_len old (readUint32 bs) bs (decodeBytes rt t old))"
  "decode_scalar rt t old mpArray16 bs = None" "decode_scalar rt t old mpArray32 bs = None"
  "decode_scalar rt t old mpMap16 bs = None" "decode_scalar rt t old mpMap32 bs = None"
  by (simp_all add: decode_scalar_def)

subsection \<open>Numbers and lengths\<close>

lemma read_put_be: "read_be k (put_be k (w :: 64 word) @ bs) = Some (take_bit (8 * k) w, bs)"
  by (simp add: read_be_def get_put_be)

lemma read_byte: "read_be 1 (b # bs) = Some (ucast b, bs)"
  by (simp add: read_be_def get_be_def)

lemma put_be_32: "put_be 4 (x :: 32 word) = put_be 4 (ucast x :: 64 word)"
  unfolding put_be_def by (intro map_cong refl bit_word_eqI) (auto simp: bit_simps)

lemma unat_len: "l < 2 ^ (8 * k) \<Longrightarrow> k \<le> 8 \<Longrightarrow> unat (take_bit (8 * k) (word_of_nat l :: 64 word)) = l"
proof -
  assume a: "l < 2 ^ (8 * k)" "k \<le> 8"
  have "(2::nat) ^ (8 * k) \<le> 2 ^ 64" using a(2) by (intro power_increasing) auto
  then have "unat (word_of_nat l :: 64 word) = l" using a(1) by (simp add: unat_of_nat)
  then show ?thesis using a(1) by (simp add: unsigned_take_bit_eq take_bit_nat_eq_self)
qed

lemma with_len_put: "l < 2 ^ (8 * k) \<Longrightarrow> k \<le> 8 \<Longrightarrow> with_len old (read_be k (put_len k l @ bs)) r f = f l bs"
  by (simp add: with_len_def read_put_be unat_len)

lemma with_len_byte: "l < 256 \<Longrightarrow> with_len old (readUint8 (word_of_nat l # bs)) r f = f l bs"
  by (simp add: with_len_def readUint8_def read_byte [unfolded One_nat_def] unsigned_ucast_eq take_bit_nat_eq_self unat_of_nat)

lemma signed_self:
  fixes n :: "64 word"
  assumes "- (2 ^ k) \<le> sint n" "sint n < 2 ^ k" "k < 63"
  shows "signed_take_bit k (take_bit (Suc k) n) = n"
proof (rule bit_word_eqI)
  fix i assume i: "i < LENGTH(64)"
  have self: "signed_take_bit k (sint n) = sint n" using assms(1,2) by (rule signed_take_bit_int_eq_self)
  have b: "bit n j = bit (sint n) j" if "j < 64" for j using that by (simp add: bit_simps)
  have "bit (signed_take_bit k (take_bit (Suc k) n)) i = bit n (min i k)" using i assms(3) by (simp add: bit_simps min_def)
  also have "\<dots> = bit (signed_take_bit k (sint n)) i" using i assms(3) b [of "min i k"] by (simp add: bit_simps min.commute)
  also have "\<dots> = bit n i" using self b [of i] i by simp
  finally show "bit (signed_take_bit k (take_bit (Suc k) n)) i = bit n i" .
qed

lemma byte_int:
  fixes n :: "64 word"
  shows "0 \<le> sint n \<Longrightarrow> sint n \<le> 127 \<Longrightarrow> (ucast n :: byte) \<le> 0x7f \<and> ucast (ucast n :: byte) = n"
    "- 32 \<le> sint n \<Longrightarrow> sint n < 0 \<Longrightarrow>
      0xe0 \<le> (ucast (0xe0 OR (n + 32)) :: byte) \<and> signed_take_bit 7 (ucast (ucast (0xe0 OR (n + 32)) :: byte)) = n"
proof -
  have wi: "word_of_int (sint n) = n" by simp
  have "list_all (\<lambda>i. (ucast (word_of_int i :: 64 word) :: byte) \<le> 0x7f \<and> ucast (ucast (word_of_int i :: 64 word) :: byte) = (word_of_int i :: 64 word)) [0..127]"
    by code_simp
  moreover assume "0 \<le> sint n" "sint n \<le> 127"
  then have "sint n \<in> set [0..127]" by simp
  ultimately show "(ucast n :: byte) \<le> 0x7f \<and> ucast (ucast n :: byte) = n" unfolding list_all_iff using wi by metis
next
  have wi: "word_of_int (sint n) = n" by simp
  have "list_all (\<lambda>i. 0xe0 \<le> (ucast (0xe0 OR (word_of_int i + 32 :: 64 word)) :: byte) \<and>
      signed_take_bit 7 (ucast (ucast (0xe0 OR (word_of_int i + 32 :: 64 word)) :: byte)) = (word_of_int i :: 64 word)) [- 32..- 1]"
    by code_simp
  moreover assume "- 32 \<le> sint n" "sint n < 0"
  then have "sint n \<in> set [- 32..- 1]" by simp
  ultimately show "0xe0 \<le> (ucast (0xe0 OR (n + 32)) :: byte) \<and> signed_take_bit 7 (ucast (ucast (0xe0 OR (n + 32)) :: byte)) = n"
    unfolding list_all_iff using wi by metis
qed

lemma decode_number_put: "decode_number rt t old k f (put_be k (w :: 64 word) @ bs) = set_rest rt t old (f (take_bit (8 * k) w)) bs"
  by (simp add: decode_number_def read_put_be)

lemma decode_number_byte: "decode_number rt t old 1 f (ucast (w :: 64 word) # bs) = set_rest rt t old (f (take_bit 8 w)) bs"
proof -
  have "ucast (ucast w :: byte) = take_bit 8 w" by (rule bit_word_eqI) (auto simp: bit_simps)
  then show ?thesis unfolding decode_number_def read_byte by simp
qed

lemma decode_int_wide:
  assumes "\<not> (0 \<le> sint n \<and> sint n \<le> 127)" "\<not> (- 32 \<le> sint n \<and> sint n < 0)"
  shows "decodeValue rt opts (Suc m) t old (appendInt [] n @ bs) = set_rest rt t old (int_val n) bs"
proof -
  have s: "signed_take_bit k (take_bit (Suc k) n) = n" if "- (2 ^ k) \<le> sint n \<and> sint n \<le> 2 ^ k - 1" "k < 63" for k
    using that by (intro signed_self) auto
  let ?r = "\<lambda>k. - (2 ^ k) \<le> sint n \<and> sint n \<le> 2 ^ k - 1"
  note app = appendInt_def [of "[]" n] Let_def assms if_True if_False append.simps simp_thms
  consider "?r 7" | "\<not> ?r 7" "?r 15" | "\<not> ?r 7" "\<not> ?r 15" "?r 31" | "\<not> ?r 7" "\<not> ?r 15" "\<not> ?r 31" by blast
  then show ?thesis
  proof cases
    case 1
    then have "appendInt [] n = [mpInt8, ucast n]" by (simp only: app)
    then show ?thesis using s [OF 1] by (simp add: scalar_code decode_number_byte [unfolded One_nat_def])
  next
    case 2
    then have "appendInt [] n = mpInt16 # put_be 2 n" by (simp only: app)
    then show ?thesis using s [OF 2(2)] by (simp add: scalar_code decode_number_put)
  next
    case 3
    then have "appendInt [] n = mpInt32 # put_be 4 n" by (simp only: app)
    then show ?thesis using s [OF 3(3)] by (simp add: scalar_code decode_number_put)
  next
    case 4
    then have "appendInt [] n = mpInt64 # put_be 8 n" by (simp only: app)
    then show ?thesis by (simp add: scalar_code decode_number_put take_bit_word_eq_self)
  qed
qed

lemma decode_int: "decodeValue rt opts (Suc m) t old (appendInt [] n @ bs) = set_rest rt t old (int_val n) bs"
proof -
  consider "0 \<le> sint n \<and> sint n \<le> 127" | "- 32 \<le> sint n \<and> sint n < 0" "\<not> (0 \<le> sint n \<and> sint n \<le> 127)"
    | "\<not> (0 \<le> sint n \<and> sint n \<le> 127)" "\<not> (- 32 \<le> sint n \<and> sint n < 0)" by linarith
  then show ?thesis
  proof cases
    case 1
    then show ?thesis using byte_int(1) [of n] by (simp add: appendInt_def scalar_fixint)
  next
    case 2
    then show ?thesis using byte_int(2) [of n] by (simp add: appendInt_def scalar_negint)
  qed (rule decode_int_wide)
qed

lemma decode_uint: "decodeValue rt opts (Suc m) t old (appendUint [] n @ bs) = set_rest rt t old (int_val n) bs"
proof -
  have b: "ucast (ucast n :: byte) = n" "(ucast n :: byte) \<le> 0x7f" if n: "n \<le> 127"
  proof -
    have "take_bit 8 n = n" using n by (intro take_bit_small) (simp add: word_le_nat_alt)
    moreover have "ucast (ucast n :: byte) = take_bit 8 n" by (rule bit_word_eqI) (auto simp: bit_simps)
    ultimately show "ucast (ucast n :: byte) = n" by simp
    show "(ucast n :: byte) \<le> 0x7f" using n by (simp add: word_le_nat_alt unsigned_ucast_eq take_bit_nat_eq_self)
  qed
  consider "n \<le> 127" | "\<not> n \<le> 127" "n \<le> 0xff" | "\<not> n \<le> 127" "\<not> n \<le> 0xff" "n \<le> 0xffff"
    | "\<not> n \<le> 127" "\<not> n \<le> 0xff" "\<not> n \<le> 0xffff" "n \<le> 0xffffffff" | "\<not> n \<le> 127" "\<not> n \<le> 0xff" "\<not> n \<le> 0xffff" "\<not> n \<le> 0xffffffff"
    by blast
  then show ?thesis
  proof cases
    case 1
    then show ?thesis using b by (simp add: appendUint_def scalar_fixint)
  next
    case 2
    then show ?thesis using take_bit_small [of n 8] by (simp add: appendUint_def word_le_nat_alt scalar_code decode_number_byte [unfolded One_nat_def])
  next
    case 3
    then show ?thesis using take_bit_small [of n 16] by (simp add: appendUint_def word_le_nat_alt scalar_code decode_number_put)
  next
    case 4
    then show ?thesis using take_bit_small [of n 32] by (simp add: appendUint_def word_le_nat_alt scalar_code decode_number_put)
  next
    case 5
    then show ?thesis by (simp add: appendUint_def scalar_code decode_number_put take_bit_word_eq_self)
  qed
qed

lemma decode_string:
  assumes "length s < 2 ^ 32"
  shows "decodeValue rt opts (Suc m) t old (appendString [] s @ bs) = decodeString rt t old (length s) (s @ bs)"
proof -
  consider "length s \<le> 31" | "\<not> length s \<le> 31" "length s \<le> 0xff" | "\<not> length s \<le> 31" "\<not> length s \<le> 0xff" "length s \<le> 0xffff"
    | "\<not> length s \<le> 31" "\<not> length s \<le> 0xff" "\<not> length s \<le> 0xffff" by blast
  then show ?thesis
  proof cases
    case 1
    then have "(0xa0 :: byte) \<le> word_of_nat (160 + length s)" "(word_of_nat (160 + length s) :: byte) \<le> 0xbf"
      using code_range [of 160 "160 + length s" 191] by simp_all
    then show ?thesis using 1 fix_code(1) [of "length s"] by (simp add: appendString_def Let_def scalar_fixstr del: of_nat_add)
  next
    case 2
    then show ?thesis by (simp add: appendString_def Let_def scalar_code with_len_byte)
  next
    case 3
    then show ?thesis using with_len_put [of "length s" 2] by (simp add: appendString_def Let_def scalar_code readUint16_def)
  next
    case 4
    then show ?thesis using with_len_put [of "length s" 4] assms by (simp add: appendString_def Let_def scalar_code readUint32_def)
  qed
qed

lemma decode_bytes:
  assumes "length s < 2 ^ 32"
  shows "decodeValue rt opts (Suc m) t old (appendBytes [] s @ bs) = decodeBytes rt t old (length s) (s @ bs)"
proof -
  consider "length s \<le> 0xff" | "\<not> length s \<le> 0xff" "length s \<le> 0xffff" | "\<not> length s \<le> 0xff" "\<not> length s \<le> 0xffff" by blast
  then show ?thesis
  proof cases
    case 1
    then show ?thesis by (simp add: appendBytes_def Let_def scalar_code with_len_byte)
  next
    case 2
    then show ?thesis using with_len_put [of "length s" 2] by (simp add: appendBytes_def Let_def scalar_code readUint16_def)
  next
    case 3
    then show ?thesis using with_len_put [of "length s" 4] assms by (simp add: appendBytes_def Let_def scalar_code readUint32_def)
  qed
qed

lemma decode_array_header:
  assumes "l < 2 ^ 32"
  shows "decodeValue rt opts (Suc m) t old (array_header l @ bs) = decodeArray rt opts m t old l bs"
proof -
  consider "l \<le> 15" | "\<not> l \<le> 15" "l \<le> 0xffff" | "\<not> l \<le> 15" "\<not> l \<le> 0xffff" by blast
  then show ?thesis
  proof cases
    case 1
    define c :: byte where "c = word_of_nat (144 + l)"
    have c: "0x90 \<le> c" "c \<le> 0x9f" "array_header l = [c]" "unat (c AND 0x0f) = l"
      using 1 code_range [of 144 "144 + l" 159] fix_code(2) [OF 1] by (simp_all add: c_def array_header_def del: of_nat_add)
    have "0x80 \<le> c" using c(1) by (rule order_trans [rotated]) simp
    then show ?thesis using c scalar_none [OF _ c(2)] by simp
  next
    case 2
    then show ?thesis using with_len_put [of l 2] by (simp add: array_header_def scalar_code readUint16_def)
  next
    case 3
    then show ?thesis using with_len_put [of l 4] assms by (simp add: array_header_def scalar_code readUint32_def)
  qed
qed

lemma decode_map_header:
  assumes "l < 2 ^ 32"
  shows "decodeValue rt opts (Suc m) t old (map_header l @ bs) = decodeMap rt opts m t old l bs"
proof -
  consider "l \<le> 15" | "\<not> l \<le> 15" "l \<le> 0xffff" | "\<not> l \<le> 15" "\<not> l \<le> 0xffff" by blast
  then show ?thesis
  proof cases
    case 1
    define c :: byte where "c = word_of_nat (128 + l)"
    have c: "0x80 \<le> c" "c \<le> 0x8f" "map_header l = [c]" "unat (c AND 0x0f) = l"
      using 1 code_range [of 128 "128 + l" 143] fix_code(3) [OF 1] by (simp_all add: c_def map_header_def del: of_nat_add)
    have "c \<le> 0x9f" using c(2) by (rule order_trans) simp
    moreover have "\<not> 0x90 \<le> c" "c \<noteq> mpArray16" "c \<noteq> mpArray32" using order_trans [of "0x90" c "0x8f"] c(2) by auto
    ultimately show ?thesis using c scalar_none [OF c(1)] by simp
  next
    case 2
    then show ?thesis using with_len_put [of l 2] by (simp add: map_header_def scalar_code readUint16_def)
  next
    case 3
    then show ?thesis using with_len_put [of l 4] assms by (simp add: map_header_def scalar_code readUint32_def)
  qed
qed

subsection \<open>Types and values that are restored\<close>

text \<open>
  No field is found under the name of another: its name is neither the name of another field nor that name in lower case.
\<close>

definition names_ok :: "runtime \<Rightarrow> field list \<Rightarrow> bool" where
  "names_ok rt fs \<longleftrightarrow>
     (\<forall>i < length fs. serialized (fs ! i) \<longrightarrow>
        getFieldName (fs ! i) \<noteq> version_key \<and> length (getFieldName (fs ! i)) < 2 ^ 32 \<and>
        (\<forall>j < length fs. j \<noteq> i \<and> serialized (fs ! j) \<longrightarrow>
           getFieldName (fs ! i) \<noteq> getFieldName (fs ! j) \<and> getFieldName (fs ! i) \<noteq> ToLower rt (getFieldName (fs ! j))))"

fun scalar :: "ty \<Rightarrow> bool" where
  "scalar (TSlice t) \<longleftrightarrow> False"
| "scalar (TArray n t) \<longleftrightarrow> False"
| "scalar (TMap k t) \<longleftrightarrow> False"
| "scalar (TStruct fs ts) \<longleftrightarrow> False"
| "scalar (TPtr t) \<longleftrightarrow> False"
| "scalar TInterface \<longleftrightarrow> False"
| "scalar TOther \<longleftrightarrow> False"
| "scalar _ \<longleftrightarrow> True"

text \<open>Types without pointers, interfaces, channels and functions, whose map keys are scalars.\<close>

fun plain :: "runtime \<Rightarrow> ty \<Rightarrow> bool" where
  "plain rt (TSlice t) \<longleftrightarrow> plain rt t"
| "plain rt (TArray n t) \<longleftrightarrow> plain rt t"
| "plain rt (TMap kt vt) \<longleftrightarrow> scalar kt \<and> plain rt vt"
| "plain rt (TStruct fs ts) \<longleftrightarrow>
     length fs = length ts \<and> length fs < 2 ^ 32 - 1 \<and> names_ok rt fs \<and> (\<forall>t \<in> set ts. plain rt t)"
| "plain rt t \<longleftrightarrow> scalar t"

text \<open>Lengths below \<open>2 ^ 32\<close>, different keys and no signalling NaN.\<close>

fun fits :: "val \<Rightarrow> bool" where
  "fits (VFloat32 x) \<longleftrightarrow> \<not> signalling x"
| "fits (VString s) \<longleftrightarrow> length s < 2 ^ 32"
| "fits (VSlice vs) \<longleftrightarrow> length vs < 2 ^ 32 \<and> (\<forall>v \<in> set vs. fits v)"
| "fits (VArray vs) \<longleftrightarrow> length vs < 2 ^ 32 \<and> (\<forall>v \<in> set vs. fits v)"
| "fits (VMap kvs) \<longleftrightarrow>
     length kvs < 2 ^ 32 \<and> sorted_wrt (\<lambda>p q. \<not> key_eq (fst q) (fst p)) kvs \<and> (\<forall>(k, v) \<in> set kvs. fits k \<and> fits v)"
| "fits (VStruct vs) \<longleftrightarrow> (\<forall>v \<in> set vs. fits v)"
| "fits _ \<longleftrightarrow> True"

text \<open>
  What a value is after decoding the encoding of another one into it: a field that is not serialized keeps its old value;
  the elements of a slice and the values of a map are decoded into zero values.
\<close>

function (sequential) restored :: "ty \<Rightarrow> val \<Rightarrow> val \<Rightarrow> val" where
  "restored t (VSlice vs) old = (case t of TSlice e \<Rightarrow> VSlice (map (\<lambda>v. restored e v (zero e)) vs) | _ \<Rightarrow> old)"
| "restored t (VArray vs) old =
     (case (t, old) of (TArray _ e, VArray os) \<Rightarrow> VArray (map (\<lambda>(v, u). restored e v u) (zip vs os)) | _ \<Rightarrow> old)"
| "restored t (VMap kvs) old =
     (case t of TMap _ e \<Rightarrow> VMap (map (\<lambda>(k, v). (k, restored e v (zero e))) kvs) | _ \<Rightarrow> old)"
| "restored t (VStruct vs) old =
     (case (t, old) of
        (TStruct fs ts, VStruct os) \<Rightarrow>
          VStruct (map (\<lambda>(v, f, e, u). if serialized f then restored e v u else u) (zip vs (zip fs (zip ts os))))
      | _ \<Rightarrow> old)"
| "restored t v old = v"
  by pat_completeness auto
termination
proof (relation "measure (\<lambda>(t, v, old). size v)", goal_cases)
  case (2 t vs old e v)
  then show ?case by (auto simp: less_Suc_eq_le size_list_estimation')
next
  case (3 t vs old)
  then show ?case by (auto simp: less_Suc_eq_le dest!: set_zip_leftD intro: size_list_estimation')
next
  case (4 t kvs old kt e p k v)
  then have "p = (k, v)" "p \<in> set kvs" by auto
  then show ?case by (auto simp: less_Suc_eq_le intro!: size_list_estimation' [where x = "(k, v)"])
next
  case (5 t vs old)
  then show ?case by (auto simp: less_Suc_eq_le dest!: set_zip_leftD intro: size_list_estimation')
qed simp

fun whole :: "ty \<Rightarrow> bool" where
  "whole (TSlice t) \<longleftrightarrow> whole t"
| "whole (TArray n t) \<longleftrightarrow> whole t"
| "whole (TMap kt vt) \<longleftrightarrow> whole vt"
| "whole (TStruct fs ts) \<longleftrightarrow> (\<forall>f \<in> set fs. serialized f) \<and> (\<forall>t \<in> set ts. whole t)"
| "whole _ \<longleftrightarrow> True"

lemma zip_restored:
  assumes "length os = length vs" "\<And>v u. v \<in> set vs \<Longrightarrow> u \<in> set os \<Longrightarrow> f v u = v"
  shows "map (\<lambda>(v, u). f v u) (zip vs os) = vs"
  using assms by (induction vs os rule: list_induct2') auto

lemma restored_scalar: "scalar t \<Longrightarrow> typed t v \<Longrightarrow> restored t v old = v"
  by (cases t) (auto simp: typed_of)

lemma restored_whole: "whole t \<Longrightarrow> typed t v \<Longrightarrow> typed t old \<Longrightarrow> plain rt t \<Longrightarrow> restored t v old = v"
proof (induction t arbitrary: v old)
  case (TSlice t)
  obtain vs where vs: "v = VSlice vs" "\<forall>u \<in> set vs. typed t u" using TSlice.prems(2) unfolding typed_of by blast
  have "restored t u (zero t) = u" if "u \<in> set vs" for u using TSlice.IH [of u "zero t"] TSlice.prems vs(2) that zero_typed by simp
  then show ?case by (simp add: vs(1) map_idI)
next
  case (TArray n t)
  obtain vs os where vs: "v = VArray vs" "old = VArray os" "length vs = n" "length os = n" "\<forall>u \<in> set vs \<union> set os. typed t u"
    using TArray.prems(2,3) unfolding typed_of by blast
  have "map (\<lambda>(u, w). restored t u w) (zip vs os) = vs"
    using vs TArray.IH TArray.prems by (intro zip_restored) auto
  then show ?case by (simp add: vs(1,2))
next
  case (TMap kt vt)
  obtain kvs where kvs: "v = VMap kvs" "\<forall>(k, u) \<in> set kvs. typed kt k \<and> typed vt u" using TMap.prems(2) unfolding typed_of by blast
  have "restored vt u (zero vt) = u" if "(k, u) \<in> set kvs" for k u
    using TMap.IH(2) [of u "zero vt"] TMap.prems kvs(2) that zero_typed by auto
  then show ?case by (auto simp: kvs(1) intro!: map_idI)
next
  case (TStruct fs ts)
  obtain vs os where vs: "v = VStruct vs" "old = VStruct os" "list_all2 (\<lambda>v u. typed u v) vs ts" "list_all2 (\<lambda>v u. typed u v) os ts"
    using TStruct.prems(2,3) unfolding typed_of by blast
  have "map (\<lambda>(u, f, e, w). if serialized f then restored e u w else w) (zip vs (zip fs (zip ts os))) = vs"
  proof (rule nth_equalityI)
    show len: "length (map (\<lambda>(u, f, e, w). if serialized f then restored e u w else w) (zip vs (zip fs (zip ts os)))) = length vs"
      using vs(3,4) TStruct.prems(4) by (simp add: list_all2_conv_all_nth)
    fix i assume "i < length (map (\<lambda>(u, f, e, w). if serialized f then restored e u w else w) (zip vs (zip fs (zip ts os))))"
    then have i: "i < length vs" "i < length fs" "i < length ts" "i < length os" by simp_all
    then have "restored (ts ! i) (vs ! i) (os ! i) = vs ! i"
      using vs(3,4) TStruct.prems(1,4) by (intro TStruct.IH) (auto simp: list_all2_conv_all_nth)
    then show "map (\<lambda>(u, f, e, w). if serialized f then restored e u w else w) (zip vs (zip fs (zip ts os))) ! i = vs ! i"
      using i TStruct.prems(1) by simp
  qed
  then show ?case by (simp add: vs(1,2))
qed (auto simp: typed_of)

lemma append_buf:
  "appendInt buf n = buf @ appendInt [] n" "appendUint buf n = buf @ appendUint [] n"
  "appendString buf s = buf @ appendString [] s" "appendBytes buf s = buf @ appendBytes [] s"
  by (simp_all add: appendInt_def appendUint_def appendString_def appendBytes_def Let_def)

lemma append_nonempty:
  "0 < length (appendInt [] n)" "0 < length (appendUint [] n)" "0 < length (appendString [] s)" "length s < length (appendString [] s)"
  "0 < length (appendBytes [] s)" "0 < length (array_header l)" "0 < length (map_header l)"
  by (simp_all add: appendInt_def appendUint_def appendString_def appendBytes_def array_header_def map_header_def Let_def)

lemma field_map_snoc:
  "field_map rt (fs @ [f]) =
     (if \<not> serialized f then field_map rt fs
      else (field_map rt fs)(getFieldName f \<mapsto> length fs, ToLower rt (getFieldName f) \<mapsto> length fs))"
  by (simp add: field_map_def enumerate_append_eq)

lemma field_map_name:
  "names_ok rt fs \<Longrightarrow> i < length fs \<Longrightarrow> serialized (fs ! i) \<Longrightarrow> field_map rt fs (getFieldName (fs ! i)) = Some i"
proof (induction fs rule: rev_induct)
  case (snoc f fs)
  have ok: "getFieldName ((fs @ [f]) ! i) \<noteq> getFieldName ((fs @ [f]) ! j) \<and>
      getFieldName ((fs @ [f]) ! i) \<noteq> ToLower rt (getFieldName ((fs @ [f]) ! j))"
    if "i < length (fs @ [f])" "serialized ((fs @ [f]) ! i)" "j < length (fs @ [f])" "j \<noteq> i" "serialized ((fs @ [f]) ! j)" for i j
    using snoc.prems(1) that unfolding names_ok_def by blast
  show ?case
  proof (cases "i = length fs")
    case True
    then show ?thesis using snoc.prems(3) by (simp add: field_map_snoc)
  next
    case False
    then have i: "i < length fs" using snoc.prems(2) by simp
    have "names_ok rt fs"
      using snoc.prems(1) unfolding names_ok_def by (metis length_append_singleton less_SucI nth_append)
    then have "field_map rt fs (getFieldName (fs ! i)) = Some i" using snoc.IH snoc.prems(3) i by (simp add: nth_append)
    then show ?thesis using ok [of i "length fs"] snoc.prems(3) i by (simp add: field_map_snoc nth_append)
  qed
qed simp

subsection \<open>Decoding what was encoded\<close>

definition codes :: "runtime \<Rightarrow> Options \<Rightarrow> ty \<Rightarrow> val \<Rightarrow> bytes \<Rightarrow> bool" where
  "codes rt opts t v enc \<longleftrightarrow>
     (\<forall>buf. appendValue t v buf = Inr (buf @ enc)) \<and>
     (\<forall>n old rest. typed t old \<longrightarrow> length enc < n \<longrightarrow> decodeValue rt opts n t old (enc @ rest) = (Done, restored t v old, rest))"

lemma codesI:
  assumes "\<And>buf. appendValue t v buf = Inr (buf @ enc)"
    and "\<And>n old rest. typed t old \<Longrightarrow> length enc \<le> n \<Longrightarrow> decodeValue rt opts (Suc n) t old (enc @ rest) = (Done, restored t v old, rest)"
  shows "codes rt opts t v enc"
  unfolding codes_def
proof (intro conjI allI impI)
  fix n old rest
  assume "typed t old" "length enc < n"
  then show "decodeValue rt opts n t old (enc @ rest) = (Done, restored t v old, rest)" using assms(2) by (cases n) auto
qed (rule assms(1))

lemma codes_scalar:
  assumes "scalar t" "typed t v" "fits v"
  shows "\<exists>enc. codes rt opts t v enc"
proof -
  have "restored t v old = v" for old using restored_scalar assms by blast
  note r = this
  show ?thesis
  proof (cases v)
    case (VBool b)
    then have "codes rt opts t v [if b then mpTrue else mpFalse]" using assms r
      by (intro codesI) (auto simp: scalar_code set_rest_def setFieldValue_def)
    then show ?thesis ..
  next
    case (VInt n)
    then obtain w where "t = TInt w" "signed_take_bit (w - 1) n = n" using assms by (cases t) auto
    note w = this
    have app: "appendValue t v buf = Inr (buf @ appendInt [] n)" for buf using w(1) append_buf(1) [of buf n] by (simp add: VInt)
    have "codes rt opts t v (appendInt [] n)" using w r VInt
      by (intro codesI [OF app]) (auto simp: decode_int set_rest_def setFieldValue_def int_val_def Convert_def)
    then show ?thesis ..
  next
    case (VUint n)
    then obtain w where "t = TUint w" "take_bit w n = n" using assms by (cases t) auto
    note w = this
    have app: "appendValue t v buf = Inr (buf @ appendUint [] n)" for buf using w(1) append_buf(2) [of buf n] by (simp add: VUint)
    have "codes rt opts t v (appendUint [] n)" using w r VUint
      by (intro codesI [OF app]) (auto simp: decode_uint set_rest_def setFieldValue_def int_val_def Convert_def)
    then show ?thesis ..
  next
    case (VFloat32 x)
    then have x: "t = TFloat32" "narrow (widen x) = x" using assms narrow_widen by auto
    have "decodeValue rt opts (Suc n) t old ((mpFloat32 # put_be 4 x) @ rest) = (Done, v, rest)" for n old rest
    proof -
      have "ucast (take_bit 32 (ucast x :: 64 word)) = x" by (rule bit_word_eqI) (auto simp: bit_simps)
      then show ?thesis using x VFloat32
        by (simp add: scalar_code put_be_32 decode_number_put set_rest_def setFieldValue_def Convert_def)
    qed
    then have "codes rt opts t v (mpFloat32 # put_be 4 x)" using x VFloat32 r by (intro codesI) auto
    then show ?thesis ..
  next
    case (VFloat64 x)
    then have "codes rt opts t v (mpFloat64 # put_be 8 x)" using assms r
      by (intro codesI) (auto simp: scalar_code decode_number_put take_bit_word_eq_self set_rest_def setFieldValue_def)
    then show ?thesis ..
  next
    case (VString s)
    have app: "appendValue t v buf = Inr (buf @ appendString [] s)" for buf using assms VString append_buf(3) [of buf s] by simp
    have "codes rt opts t v (appendString [] s)" using assms r VString
      by (intro codesI [OF app]) (auto simp: decode_string decodeString_def)
    then show ?thesis ..
  qed (use assms in \<open>auto split: ty.splits\<close>)
qed

lemma codes_seq:
  assumes "\<forall>v \<in> set vs. \<exists>enc. codes rt opts t v enc"
  shows "\<exists>enc. (\<forall>buf. append_elems t vs buf = Inr (buf @ enc)) \<and>
    (\<forall>n rest. length enc < n \<longrightarrow> decode_seq rt opts n t (length vs) (enc @ rest) = (Done, map (\<lambda>v. restored t v (zero t)) vs, rest)) \<and>
    (\<forall>n os rest. length enc < n \<longrightarrow> length os = length vs \<longrightarrow> (\<forall>u \<in> set os. typed t u) \<longrightarrow>
       decode_into rt opts n t os (length vs) (enc @ rest) = (Done, map (\<lambda>(v, u). restored t v u) (zip vs os), rest))"
  using assms
proof (induction vs)
  case (Cons v vs)
  obtain e1 where e1: "codes rt opts t v e1" using Cons.prems by auto
  obtain e2 where e2: "\<forall>buf. append_elems t vs buf = Inr (buf @ e2)"
    "\<forall>n rest. length e2 < n \<longrightarrow> decode_seq rt opts n t (length vs) (e2 @ rest) = (Done, map (\<lambda>v. restored t v (zero t)) vs, rest)"
    "\<forall>n os rest. length e2 < n \<longrightarrow> length os = length vs \<longrightarrow> (\<forall>u \<in> set os. typed t u) \<longrightarrow>
       decode_into rt opts n t os (length vs) (e2 @ rest) = (Done, map (\<lambda>(v, u). restored t v u) (zip vs os), rest)"
    using Cons by auto
  have "decode_into rt opts n t os (length (v # vs)) ((e1 @ e2) @ rest) = (Done, map (\<lambda>(v, u). restored t v u) (zip (v # vs) os), rest)"
    if "length (e1 @ e2) < n" "length os = length (v # vs)" "\<forall>u \<in> set os. typed t u" for n os rest
    using that e1 e2(3) by (cases os) (auto simp: codes_def)
  moreover have "decode_seq rt opts n t (length (v # vs)) ((e1 @ e2) @ rest) = (Done, map (\<lambda>v. restored t v (zero t)) (v # vs), rest)"
    if "length (e1 @ e2) < n" for n rest
    using that e1 e2(2) zero_typed [of t] by (auto simp: codes_def)
  moreover have "append_elems t (v # vs) buf = Inr (buf @ (e1 @ e2))" for buf using e1 e2(1) by (simp add: codes_def)
  ultimately show ?case by blast
qed simp

lemma SetMapIndex_fresh: "\<forall>p \<in> set m. \<not> key_eq k (fst p) \<Longrightarrow> SetMapIndex k v m = m @ [(k, v)]"
  by (induction m) auto

lemma scalar_comparable: "scalar t \<Longrightarrow> comparable t"
  by (cases t) auto

lemma codes_entries:
  assumes "scalar kt" "\<forall>(k, v) \<in> set kvs. typed kt k \<and> (\<exists>enc. codes rt opts kt k enc) \<and> (\<exists>enc. codes rt opts vt v enc)"
    and "sorted_wrt (\<lambda>p q. \<not> key_eq (fst q) (fst p)) kvs"
  shows "\<exists>enc. (\<forall>buf. append_entries kt vt kvs buf = Inr (buf @ enc)) \<and>
    (\<forall>n m rest. length enc < n \<longrightarrow> (\<forall>p \<in> set kvs. \<forall>q \<in> set m. \<not> key_eq (fst p) (fst q)) \<longrightarrow>
       decode_entries rt opts n kt vt m (length kvs) (enc @ rest) =
       (Done, m @ map (\<lambda>(k, v). (k, restored vt v (zero vt))) kvs, rest))"
  using assms(2,3)
proof (induction kvs)
  case (Cons p kvs)
  obtain k v where p: "p = (k, v)" by (cases p)
  obtain e1 e2 where e: "typed kt k" "codes rt opts kt k e1" "codes rt opts vt v e2" using Cons.prems(1) p by auto
  obtain e3 where e3: "\<forall>buf. append_entries kt vt kvs buf = Inr (buf @ e3)"
    "\<forall>n m rest. length e3 < n \<longrightarrow> (\<forall>p \<in> set kvs. \<forall>q \<in> set m. \<not> key_eq (fst p) (fst q)) \<longrightarrow>
       decode_entries rt opts n kt vt m (length kvs) (e3 @ rest) = (Done, m @ map (\<lambda>(k, v). (k, restored vt v (zero vt))) kvs, rest)"
    using Cons by auto
  have key: "restored kt k (zero kt) = k" "hashable k"
    using restored_scalar assms(1) e(1) comparable_hashable scalar_comparable by blast+
  have "decode_entries rt opts n kt vt m (length (p # kvs)) ((e1 @ e2 @ e3) @ rest) =
      (Done, m @ map (\<lambda>(k, v). (k, restored vt v (zero vt))) (p # kvs), rest)"
    if n: "length (e1 @ e2 @ e3) < n" and fresh: "\<forall>p \<in> set (p # kvs). \<forall>q \<in> set m. \<not> key_eq (fst p) (fst q)" for n m rest
  proof -
    have "decode_entries rt opts n kt vt (m @ [(k, restored vt v (zero vt))]) (length kvs) (e3 @ rest) =
        (Done, (m @ [(k, restored vt v (zero vt))]) @ map (\<lambda>(k, v). (k, restored vt v (zero vt))) kvs, rest)"
      using n fresh Cons.prems(2) p by (intro e3(2) [rule_format]) auto
    then show ?thesis using n fresh e(2,3) key zero_typed [of kt] zero_typed [of vt] p by (simp add: codes_def SetMapIndex_fresh)
  qed
  moreover have "append_entries kt vt (p # kvs) buf = Inr (buf @ (e1 @ e2 @ e3))" for buf using e e3(1) p by (simp add: codes_def)
  ultimately show ?case by blast
qed simp

abbreviation fields_restored :: "field list \<Rightarrow> ty list \<Rightarrow> val list \<Rightarrow> val list \<Rightarrow> val list" where
  "fields_restored fs ts vs os \<equiv> map (\<lambda>(v, f, e, u). if serialized f then restored e v u else u) (zip vs (zip fs (zip ts os)))"

text \<open>The fields from some position on, where the fields before it already have their values.\<close>

definition fields_decode :: "runtime \<Rightarrow> Options \<Rightarrow> field list \<Rightarrow> ty list \<Rightarrow> val list \<Rightarrow> bytes \<Rightarrow> bool" where
  "fields_decode rt opts fs ts vs enc \<longleftrightarrow>
     (\<forall>n m TS ds os ver rest. length enc < n \<longrightarrow> list_all2 (\<lambda>v u. typed u v) os ts \<longrightarrow>
        (\<forall>i < length fs. serialized (fs ! i) \<longrightarrow> m (getFieldName (fs ! i)) = Some (length ds + i)) \<longrightarrow>
        (\<forall>i < length ts. TS ! (length ds + i) = ts ! i) \<longrightarrow>
        decode_fields rt opts n m TS (ds @ os) ver (length (filter serialized fs)) (enc @ rest) =
        (Done, (ds @ fields_restored fs ts vs os, ver), rest))"

lemma fields_decode_step:
  assumes "fields_decode rt opts fs ts vs enc" "length enc < n" "list_all2 (\<lambda>v u. typed u v) os ts"
    and "\<forall>i < length (f # fs). serialized ((f # fs) ! i) \<longrightarrow> m (getFieldName ((f # fs) ! i)) = Some (length ds + i)"
    and "\<forall>i < length (t # ts). TS ! (length ds + i) = (t # ts) ! i"
  shows "decode_fields rt opts n m TS (ds @ d # os) ver (length (filter serialized fs)) (enc @ rest) =
    (Done, (ds @ d # fields_restored fs ts vs os, ver), rest)"
proof -
  have "decode_fields rt opts n m TS ((ds @ [d]) @ os) ver (length (filter serialized fs)) (enc @ rest) =
      (Done, ((ds @ [d]) @ fields_restored fs ts vs os, ver), rest)"
    by (rule assms(1) [unfolded fields_decode_def, rule_format]) (use assms(2-5) in auto)
  then show ?thesis by simp
qed

lemma fields_decode_serialized:
  assumes f: "serialized f" "getFieldName f \<noteq> version_key" "length (getFieldName f) < 2 ^ 32"
    and e: "codes rt opts t v e1" "fields_decode rt opts fs ts vs e2"
  shows "fields_decode rt opts (f # fs) (t # ts) (v # vs) (appendString [] (getFieldName f) @ e1 @ e2)"
  unfolding fields_decode_def
proof (intro allI impI)
  fix n m TS and ds os' :: "val list" and ver rest
  let ?nm = "getFieldName f"
  assume n: "length (appendString [] ?nm @ e1 @ e2) < n" and ty: "list_all2 (\<lambda>v u. typed u v) os' (t # ts)"
    and m: "\<forall>i < length (f # fs). serialized ((f # fs) ! i) \<longrightarrow> m (getFieldName ((f # fs) ! i)) = Some (length ds + i)"
    and TS: "\<forall>i < length (t # ts). TS ! (length ds + i) = (t # ts) ! i"
  obtain u os where os: "os' = u # os" "typed t u" "list_all2 (\<lambda>v u. typed u v) os ts" using ty by (cases os') auto
  obtain n' where n': "n = Suc n'" using n by (cases n) auto
  have "decodeValue rt opts n TString (VString []) (appendString [] ?nm @ e1 @ e2 @ rest) = (Done, VString ?nm, e1 @ e2 @ rest)"
    unfolding n' using f(3) by (simp add: decode_string decodeString_def)
  moreover have "m ?nm = Some (length ds)" "TS ! length ds = t" using m TS f(1) by auto
  moreover have "decodeValue rt opts n t u (e1 @ e2 @ rest) = (Done, restored t v u, e2 @ rest)"
    using e(1) os(2) n by (simp add: codes_def)
  ultimately show "decode_fields rt opts n m TS (ds @ os') ver (length (filter serialized (f # fs))) ((appendString [] ?nm @ e1 @ e2) @ rest) =
      (Done, (ds @ fields_restored (f # fs) (t # ts) (v # vs) os', ver), rest)"
    using f(1,2) n fields_decode_step [OF e(2) _ os(3) m TS] by (simp add: os(1))
qed

lemma fields_decode_skipped:
  assumes "\<not> serialized f" "fields_decode rt opts fs ts vs enc"
  shows "fields_decode rt opts (f # fs) (t # ts) (v # vs) enc"
  unfolding fields_decode_def
proof (intro allI impI)
  fix n m TS and ds os' :: "val list" and ver rest
  assume n: "length enc < n" and ty: "list_all2 (\<lambda>v u. typed u v) os' (t # ts)"
    and m: "\<forall>i < length (f # fs). serialized ((f # fs) ! i) \<longrightarrow> m (getFieldName ((f # fs) ! i)) = Some (length ds + i)"
    and TS: "\<forall>i < length (t # ts). TS ! (length ds + i) = (t # ts) ! i"
  obtain u os where os: "os' = u # os" "list_all2 (\<lambda>v u. typed u v) os ts" using ty by (cases os') auto
  show "decode_fields rt opts n m TS (ds @ os') ver (length (filter serialized (f # fs))) (enc @ rest) =
      (Done, (ds @ fields_restored (f # fs) (t # ts) (v # vs) os', ver), rest)"
    using assms(1) fields_decode_step [OF assms(2) n os(2) m TS] by (simp add: os(1))
qed

lemma codes_fields:
  assumes "length fs = length ts" "length ts = length vs"
    and "\<forall>i < length ts. \<exists>enc. codes rt opts (ts ! i) (vs ! i) enc"
    and "\<forall>f \<in> set fs. serialized f \<longrightarrow> getFieldName f \<noteq> version_key \<and> length (getFieldName f) < 2 ^ 32"
  shows "\<exists>enc. (\<forall>buf. append_fields fs ts vs buf = Inr (buf @ enc)) \<and> fields_decode rt opts fs ts vs enc"
  using assms
proof (induction fs ts vs rule: list_induct3)
  case Nil
  then show ?case by (auto simp: fields_decode_def)
next
  case (Cons f fs t ts v vs)
  have "\<forall>i < length ts. \<exists>enc. codes rt opts (ts ! i) (vs ! i) enc" using Cons.prems(1) by force
  then obtain e2 where e2: "\<forall>buf. append_fields fs ts vs buf = Inr (buf @ e2)" "fields_decode rt opts fs ts vs e2"
    using Cons.IH Cons.prems(2) by force
  obtain e1 where e1: "codes rt opts t v e1" using Cons.prems(1) by force
  show ?case
  proof (cases "serialized f")
    case True
    have "append_fields (f # fs) (t # ts) (v # vs) buf = Inr (buf @ (appendString [] (getFieldName f) @ e1 @ e2))" for buf
      using True e1 e2(1) append_buf(3) [of buf "getFieldName f"] by (simp add: codes_def)
    moreover have "fields_decode rt opts (f # fs) (t # ts) (v # vs) (appendString [] (getFieldName f) @ e1 @ e2)"
      using Cons.prems(2) True by (intro fields_decode_serialized [OF True _ _ e1 e2(2)]) auto
    ultimately show ?thesis by blast
  next
    case False
    then show ?thesis using fields_decode_skipped [OF False e2(2)] e2(1) by auto
  qed
qed

lemma codes_byte_slice:
  assumes "typed (TSlice (TUint 8)) v" "fits v"
  shows "\<exists>enc. codes rt opts (TSlice (TUint 8)) v enc"
proof -
  obtain vs where vs: "v = VSlice vs" "\<forall>u \<in> set vs. typed (TUint 8) u" "length vs < 2 ^ 32" using assms by (auto simp: typed_of(7))
  have app: "appendValue (TSlice (TUint 8)) v buf = Inr (buf @ appendBytes [] (val_bytes vs))" for buf
    using append_buf(4) [of buf "val_bytes vs"] by (simp add: vs(1))
  have "restored (TSlice (TUint 8)) v old = v" for old
    using vs(2) by (auto simp: vs(1) restored_scalar intro!: map_idI)
  moreover have "length (val_bytes vs) < 2 ^ 32" using vs(3) by (simp add: val_bytes_def)
  ultimately have "codes rt opts (TSlice (TUint 8)) v (appendBytes [] (val_bytes vs))"
    using bytes_val_bytes [OF vs(2)] by (intro codesI [OF app]) (simp add: decode_bytes decodeBytes_def vs(1))
  then show ?thesis ..
qed

lemma header_room:
  "length (array_header c) + k \<le> n \<Longrightarrow> k < n"
  "length (map_header c) + k \<le> n \<Longrightarrow> k < n"
  using append_nonempty(6,7) [of c] by (cases "array_header c"; cases "map_header c"; simp)+

lemma codes_slice:
  assumes e: "e \<noteq> TUint 8" and vs: "length vs < 2 ^ 32" "\<forall>v \<in> set vs. \<exists>enc. codes rt opts e v enc"
  shows "\<exists>enc. codes rt opts (TSlice e) (VSlice vs) enc"
proof -
  obtain enc where enc: "\<forall>buf. append_elems e vs buf = Inr (buf @ enc)"
    "\<forall>n rest. length enc < n \<longrightarrow> decode_seq rt opts n e (length vs) (enc @ rest) = (Done, map (\<lambda>v. restored e v (zero e)) vs, rest)"
    using codes_seq [OF vs(2)] by blast
  have "codes rt opts (TSlice e) (VSlice vs) (array_header (length vs) @ enc)"
    using e enc by (intro codesI) (auto simp: decode_array_header [OF vs(1)] decodeArray.simps dest!: header_room)
  then show ?thesis ..
qed

lemma codes_array:
  assumes vs: "length vs < 2 ^ 32" "\<forall>v \<in> set vs. \<exists>enc. codes rt opts e v enc"
  shows "\<exists>enc. codes rt opts (TArray (length vs) e) (VArray vs) enc"
proof -
  obtain enc where enc: "\<forall>buf. append_elems e vs buf = Inr (buf @ enc)"
    "\<forall>n os rest. length enc < n \<longrightarrow> length os = length vs \<longrightarrow> (\<forall>u \<in> set os. typed e u) \<longrightarrow>
       decode_into rt opts n e os (length vs) (enc @ rest) = (Done, map (\<lambda>(v, u). restored e v u) (zip vs os), rest)"
    using codes_seq [OF vs(2)] by blast
  have "codes rt opts (TArray (length vs) e) (VArray vs) (array_header (length vs) @ enc)"
  proof (rule codesI)
    fix n old rest
    assume "typed (TArray (length vs) e) old" "length (array_header (length vs) @ enc) \<le> n"
    then show "decodeValue rt opts (Suc n) (TArray (length vs) e) old ((array_header (length vs) @ enc) @ rest) =
        (Done, restored (TArray (length vs) e) (VArray vs) old, rest)"
      using enc(2) by (auto simp: typed_of(8) decode_array_header [OF vs(1)] decodeArray.simps dest!: header_room)
  qed (simp add: enc(1))
  then show ?thesis ..
qed

lemma codes_map:
  assumes kt: "scalar kt" and kvs: "length kvs < 2 ^ 32" "sorted_wrt (\<lambda>p q. \<not> key_eq (fst q) (fst p)) kvs"
    "\<forall>(k, v) \<in> set kvs. typed kt k \<and> (\<exists>enc. codes rt opts kt k enc) \<and> (\<exists>enc. codes rt opts vt v enc)"
  shows "\<exists>enc. codes rt opts (TMap kt vt) (VMap kvs) enc"
proof -
  obtain enc where enc: "\<forall>buf. append_entries kt vt kvs buf = Inr (buf @ enc)"
    "\<forall>n m rest. length enc < n \<longrightarrow> (\<forall>p \<in> set kvs. \<forall>q \<in> set m. \<not> key_eq (fst p) (fst q)) \<longrightarrow>
       decode_entries rt opts n kt vt m (length kvs) (enc @ rest) = (Done, m @ map (\<lambda>(k, v). (k, restored vt v (zero vt))) kvs, rest)"
    using codes_entries [OF kt kvs(3,2)] by blast
  have "codes rt opts (TMap kt vt) (VMap kvs) (map_header (length kvs) @ enc)"
    using enc by (intro codesI) (auto simp: decode_map_header [OF kvs(1)] decodeMap.simps dest!: header_room)
  then show ?thesis ..
qed

lemma codes_struct:
  assumes pl: "plain rt (TStruct fs ts)" and vs: "length ts = length vs" "\<forall>i < length ts. \<exists>enc. codes rt opts (ts ! i) (vs ! i) enc"
  shows "\<exists>enc. (\<forall>buf. append_fields fs ts vs buf = Inr (buf @ enc)) \<and>
    (\<forall>n os ver rest. length enc < n \<longrightarrow> list_all2 (\<lambda>v u. typed u v) os ts \<longrightarrow>
       decode_fields rt opts n (field_map rt fs) ts os ver (length (filter serialized fs)) (enc @ rest) =
       (Done, (fields_restored fs ts vs os, ver), rest))"
proof -
  have fs: "length fs = length ts" "names_ok rt fs" using pl by simp_all
  have "\<forall>f \<in> set fs. serialized f \<longrightarrow> getFieldName f \<noteq> version_key \<and> length (getFieldName f) < 2 ^ 32"
    using fs(2) unfolding names_ok_def by (metis in_set_conv_nth)
  from codes_fields [OF fs(1) vs this]
  obtain enc where enc: "\<forall>buf. append_fields fs ts vs buf = Inr (buf @ enc)" "fields_decode rt opts fs ts vs enc" by blast
  have "decode_fields rt opts n (field_map rt fs) ts ([] @ os) ver (length (filter serialized fs)) (enc @ rest) =
      (Done, ([] @ fields_restored fs ts vs os, ver), rest)" if "length enc < n" "list_all2 (\<lambda>v u. typed u v) os ts" for n os ver rest
    by (rule enc(2) [unfolded fields_decode_def, rule_format]) (use that field_map_name [OF fs(2)] in auto)
  then show ?thesis using enc(1) by auto
qed

lemma codes_value: "plain rt t \<Longrightarrow> typed t v \<Longrightarrow> fits v \<Longrightarrow> \<exists>enc. codes rt opts t v enc"
proof (induction t arbitrary: v)
  case (TSlice e)
  show ?case
  proof (cases "e = TUint 8")
    case True
    then show ?thesis using codes_byte_slice TSlice.prems by simp
  next
    case False
    obtain vs where "v = VSlice vs" "\<forall>u \<in> set vs. typed e u" using TSlice.prems(2) unfolding typed_of by blast
    then show ?thesis using TSlice codes_slice [OF False, of vs] by simp
  qed
next
  case (TArray n e)
  obtain vs where "v = VArray vs" "n = length vs" "\<forall>u \<in> set vs. typed e u" using TArray.prems(2) unfolding typed_of by blast
  then show ?case using TArray codes_array [of vs] by simp
next
  case (TMap kt vt)
  obtain kvs where kvs: "v = VMap kvs" "\<forall>(k, u) \<in> set kvs. typed kt k \<and> typed vt u" using TMap.prems(2) unfolding typed_of by blast
  have "\<forall>(k, u) \<in> set kvs. typed kt k \<and> (\<exists>enc. codes rt opts kt k enc) \<and> (\<exists>enc. codes rt opts vt u enc)"
    using kvs TMap.prems TMap.IH(2) codes_scalar [of kt] by fastforce
  then show ?case using codes_map [of kt kvs] TMap.prems kvs(1) by simp
next
  case (TStruct fs ts)
  obtain vs where vs: "v = VStruct vs" "list_all2 (\<lambda>v u. typed u v) vs ts" using TStruct.prems(2) unfolding typed_of by blast
  have len: "length ts = length vs" "length (filter serialized fs) < 2 ^ 32"
    using vs(2) TStruct.prems(1) length_filter_le [of serialized fs] by (auto simp: list_all2_lengthD)
  have "\<forall>i < length ts. \<exists>enc. codes rt opts (ts ! i) (vs ! i) enc"
    using TStruct vs by (auto simp: list_all2_conv_all_nth)
  from codes_struct [OF TStruct.prems(1) len(1) this] obtain enc where enc: "\<forall>buf. append_fields fs ts vs buf = Inr (buf @ enc)"
    "\<forall>n os ver rest. length enc < n \<longrightarrow> list_all2 (\<lambda>v u. typed u v) os ts \<longrightarrow>
       decode_fields rt opts n (field_map rt fs) ts os ver (length (filter serialized fs)) (enc @ rest) =
       (Done, (fields_restored fs ts vs os, ver), rest)" by blast
  have "codes rt opts (TStruct fs ts) v (map_header (length (filter serialized fs)) @ enc)"
  proof (rule codesI)
    fix n old rest
    assume "typed (TStruct fs ts) old" "length (map_header (length (filter serialized fs)) @ enc) \<le> n"
    then show "decodeValue rt opts (Suc n) (TStruct fs ts) old ((map_header (length (filter serialized fs)) @ enc) @ rest) =
        (Done, restored (TStruct fs ts) v old, rest)"
      using enc(2) by (auto simp: typed_of(10) vs(1) decode_map_header [OF len(2)] decodeMap.simps dest!: header_room)
  qed (simp add: enc(1) vs(1))
  then show ?case ..
qed (use codes_scalar in auto)

lemma codes_versioned:
  assumes pl: "plain rt (TStruct fs ts)" and ty: "typed (TStruct fs ts) v" "typed (TStruct fs ts) old" "fits v"
    and ver: "sint (Version eopts) > 0" "StrictMode opts \<longrightarrow> Version eopts = Version opts"
  shows "\<exists>enc. marshal_elem eopts (TStruct fs ts) v = Inr enc \<and> enc \<noteq> [] \<and>
    decodeValue rt opts (Suc (length enc)) (TStruct fs ts) old enc = (Done, restored (TStruct fs ts) v old, [])"
proof -
  obtain vs os where vs: "v = VStruct vs" "list_all2 (\<lambda>v u. typed u v) vs ts" "old = VStruct os" "list_all2 (\<lambda>v u. typed u v) os ts"
    using ty unfolding typed_of by blast
  let ?c = "length (filter serialized fs)" and ?key = "appendString [] version_key" and ?ver = "appendInt [] (Version eopts)"
  have len: "length ts = length vs" "1 + ?c < 2 ^ 32" "length version_key < 2 ^ 32"
    using vs(2) pl length_filter_le [of serialized fs] by (auto simp: list_all2_lengthD version_key_def bytes_of_def)
  have "\<forall>i < length ts. \<exists>enc. codes rt opts (ts ! i) (vs ! i) enc"
    using pl ty(3) vs(1,2) by (auto simp: list_all2_conv_all_nth intro!: codes_value)
  from codes_struct [OF pl len(1) this] obtain enc where enc: "\<forall>buf. append_fields fs ts vs buf = Inr (buf @ enc)"
    "\<forall>n os ver rest. length enc < n \<longrightarrow> list_all2 (\<lambda>v u. typed u v) os ts \<longrightarrow>
       decode_fields rt opts n (field_map rt fs) ts os ver ?c (enc @ rest) = (Done, (fields_restored fs ts vs os, ver), rest)" by blast
  let ?enc = "map_header (1 + ?c) @ ?key @ ?ver @ enc"
  have buf: "appendInt (appendString (map_header (1 + ?c)) version_key) (Version eopts) = map_header (1 + ?c) @ ?key @ ?ver"
    by (metis append.assoc append_buf(1,3))
  have "length ?enc \<noteq> 0" using append_nonempty(7) [of "1 + ?c"] by simp
  then obtain m where m: "length ?enc = Suc m" by (meson not0_implies_Suc)
  have "length enc < Suc m" using m append_nonempty(1) [of "Version eopts"] unfolding length_append by linarith
  then have "decode_fields rt opts (Suc m) (field_map rt fs) ts os None (1 + ?c) (?key @ ?ver @ enc) =
      (Done, (fields_restored fs ts vs os, Some (Version eopts)), [])"
    using enc(2) [rule_format, of "Suc m" os "Some (Version eopts)" "[]"] vs(4) len(3)
    by (simp add: decode_string decodeString_def decode_int set_rest_def setFieldValue_def int_val_def)
  then have "decodeValue rt opts (Suc (Suc m)) (TStruct fs ts) old ?enc = (Done, restored (TStruct fs ts) v old, [])"
    using decode_map_header [OF len(2)] ver(2) by (auto simp: vs(1,3) decodeMap.simps)
  moreover have "marshal_elem eopts (TStruct fs ts) v = Inr ?enc"
    using enc(1) ver(1) buf by (simp add: marshal_elem_def vs(1))
  ultimately show ?thesis using m by (intro exI [of _ ?enc]) (auto simp del: decodeValue.simps)
qed

lemma codes_marshal:
  assumes "plain rt t" "typed t v" "typed t old" "fits v" "agree eopts opts"
  shows "\<exists>enc. marshal_elem eopts t v = Inr enc \<and> enc \<noteq> [] \<and>
    decodeValue rt opts (Suc (length enc)) t old enc = (Done, restored t v old, [])"
proof (cases "(\<exists>fs ts. t = TStruct fs ts) \<and> sint (Version eopts) > 0")
  case True
  then obtain fs ts where "t = TStruct fs ts" by blast
  moreover have "StrictMode opts \<longrightarrow> Version eopts = Version opts" using assms(5) True by (simp add: agree_def)
  ultimately show ?thesis using codes_versioned assms(1-4) True by blast
next
  case False
  then have m: "marshal_elem eopts t v = appendValue t v []"
    by (auto simp: marshal_elem_def split: ty.splits val.splits)
  obtain enc where "codes rt opts t v enc" using codes_value assms by blast
  then have enc: "appendValue t v [] = Inr enc" "decodeValue rt opts (Suc (length enc)) t old enc = (Done, restored t v old, [])"
    using assms(3) append_Nil2 [of enc] unfolding codes_def by (metis append_Nil, metis lessI)
  then have "enc \<noteq> []" by auto
  then show ?thesis using m enc by simp
qed


lemma msgpack_reads_back:
  assumes "plain rt t" "typed t v" "typed t old" "fits v"
    and "agree eopts opts"
  shows "\<exists>data. Marshal eopts (Some (t, v)) = Inr data \<and> Marshal eopts (Some (TPtr t, VPtr v)) = Inr data \<and>
    Unmarshal rt opts data (Some (TPtr t, VPtr old)) = (Done, Some (TPtr t, VPtr (restored t v old))) \<and>
    (whole t \<longrightarrow> restored t v old = v)"
proof -
  obtain enc where enc: "marshal_elem eopts t v = Inr enc" "enc \<noteq> []"
    "decodeValue rt opts (Suc (length enc)) t old enc = (Done, restored t v old, [])"
    using codes_marshal [OF assms] by blast
  have "\<forall>u. t \<noteq> TPtr u" using assms(1) by (cases t) auto
  then have "Marshal eopts (Some (t, v)) = Inr enc" "Marshal eopts (Some (TPtr t, VPtr v)) = Inr enc"
    using enc(1) by (auto simp: Marshal_def split: ty.splits)
  then show ?thesis using enc(2,3) restored_whole assms(1-3) by (auto simp: Unmarshal_def simp del: decodeValue.simps)
qed

definition MsgPackSerializer :: "runtime \<Rightarrow> Serializer" where
  "MsgPackSerializer rt =
     \<lparr>Serializer_Name = bytes_of ''msgpack'', ContentType = bytes_of ''application/msgpack'',
      Serializer_Marshal = (\<lambda>opts v. Some (Marshal opts v)), Serializer_Unmarshal = Unmarshal rt\<rparr>"

definition mp_can_write :: "runtime \<Rightarrow> ty \<Rightarrow> val \<Rightarrow> bool" where
  "mp_can_write rt t v \<longleftrightarrow> plain rt t \<and> typed t v \<and> fits v"

interpretation mp_codec: codec "MsgPackSerializer rt" "mp_can_write rt" "\<lambda>t v. restored t v (zero t)"
proof
  fix t v eopts opts
  assume "mp_can_write rt t v" "agree eopts opts"
  then show "\<exists>data. Serializer_Marshal (MsgPackSerializer rt) eopts (Some (TPtr t, VPtr v)) = Some (Inr data) \<and>
      (length data < 2 ^ 63 \<longrightarrow>
        Serializer_Unmarshal (MsgPackSerializer rt) opts data (Some (TPtr t, VPtr (zero t))) =
        (Done, Some (TPtr t, VPtr (restored t v (zero t)))))"
    using msgpack_reads_back [of rt t v "zero t" eopts opts] zero_typed by (auto simp: MsgPackSerializer_def mp_can_write_def)
qed


text \<open>A runtime whose \<open>strings.ToLower\<close> is that of ASCII, and a struct of several kinds of fields.\<close>

definition ascii_runtime :: runtime where
  "ascii_runtime =
     \<lparr>ToLower = map (\<lambda>b. if 0x41 \<le> b \<and> b \<le> 0x5a then b + 0x20 else b), UnfitInt = (\<lambda>_. 0x8000000000000000),
      UnfitUint = (\<lambda>_. 0x8000000000000000)\<rparr>"

definition sample_type :: ty where
  "sample_type =
     TStruct
       [\<lparr>Name = bytes_of ''ID'', SerializeTag = bytes_of ''id'', Exported = True\<rparr>,
        \<lparr>Name = bytes_of ''Name'', SerializeTag = [], Exported = True\<rparr>,
        \<lparr>Name = bytes_of ''Scores'', SerializeTag = bytes_of ''protobuf:3'', Exported = True\<rparr>,
        \<lparr>Name = bytes_of ''cache'', SerializeTag = [], Exported = False\<rparr>]
       [TInt 64, TString, TMap TString (TSlice (TInt 32)), TBool]"

definition sample :: val where
  "sample = VStruct [VInt (- 5), VString (bytes_of ''ab''), VMap [(VString (bytes_of ''x''), VSlice [VInt 300, VInt 7])], VBool True]"


subsection \<open>Decoding arbitrary data\<close>

text \<open>
  Types whose decoding cannot panic: no byte array, to which a shorter byte slice would be converted, and no map keys that
  may hold a slice.
\<close>

fun panic_free :: "ty \<Rightarrow> bool" where
  "panic_free (TSlice t) \<longleftrightarrow> panic_free t"
| "panic_free (TArray n t) \<longleftrightarrow> t \<noteq> TUint 8 \<and> panic_free t"
| "panic_free (TMap kt vt) \<longleftrightarrow> comparable kt \<and> panic_free kt \<and> panic_free vt"
| "panic_free (TStruct fs ts) \<longleftrightarrow> (\<forall>t \<in> set ts. panic_free t)"
| "panic_free (TPtr t) \<longleftrightarrow> (case t of TArray n e \<Rightarrow> e \<noteq> TUint 8 | _ \<Rightarrow> True)"
| "panic_free _ \<longleftrightarrow> True"

definition safe :: "bool \<Rightarrow> ('a \<Rightarrow> bool) \<Rightarrow> bytes \<Rightarrow> 'a decoded \<Rightarrow> bool" where
  "safe calm P bs r \<longleftrightarrow>
     (case r of (out, v, bs') \<Rightarrow> out \<noteq> OutOfFuel \<and> (calm \<longrightarrow> out \<noteq> Panicked) \<and> P v \<and> length bs' \<le> length bs)"

lemma safe_simp [simp]:
  "safe calm P bs (out, v, bs') \<longleftrightarrow> out \<noteq> OutOfFuel \<and> (calm \<longrightarrow> out \<noteq> Panicked) \<and> P v \<and> length bs' \<le> length bs"
  by (simp add: safe_def)

lemma safe_shorter: "safe calm P bs r \<Longrightarrow> length bs \<le> length bs' \<Longrightarrow> safe calm P bs' r"
  by (cases r) auto

lemma signed_whole [simp]: "signed_take_bit 63 (n :: 64 word) = n"
proof (rule bit_word_eqI)
  fix m assume "m < LENGTH(64)"
  then have "m < 63 \<or> m = 63" by auto
  then show "bit (signed_take_bit 63 n) m \<longleftrightarrow> bit n m" by (auto simp: bit_simps min_def)
qed

lemma Convert_typed:
  assumes "Convert rt v t = Some (Some v')" "typed src v" "src \<in> {TBool, TInt 64, TFloat64, TString, TSlice (TUint 8)}"
  shows "typed t v'"
proof (cases v)
  case (VSlice vs)
  then have vs: "\<forall>u \<in> set vs. typed (TUint 8) u" using assms(2,3) by (auto simp: typed_of)
  then have "\<forall>u \<in> set (take n vs). typed (TUint 8) u" for n by (meson in_set_takeD)
  then show ?thesis using assms(1) VSlice by (auto simp: Convert_def simp del: typed.simps(3) split: ty.splits if_splits)
qed (use assms bytes_val_typed rune_typed in \<open>auto simp: Convert_def split: ty.splits if_splits\<close>)

lemma Convert_panics: "Convert rt v t = Some None \<Longrightarrow> \<not> panic_free t"
  by (cases v) (auto simp: Convert_def split: ty.splits if_splits)

lemma set_rest_safe:
  assumes "typed t old" "typed src v" "src \<in> {TBool, TInt 64, TFloat64, TString, TSlice (TUint 8)}"
  shows "safe (panic_free t) (typed t) bs (set_rest rt t old (src, v) bs)"
  using assms Convert_typed [OF _ assms(2,3)] Convert_panics
  by (auto simp: set_rest_def setFieldValue_def split: option.splits)

lemma read_be_rest: "read_be k bs = Some (n, bs') \<Longrightarrow> length bs' \<le> length bs"
  by (auto simp: read_be_def split: if_splits)

lemma with_len_safe:
  assumes "P old" "\<And>n bs'. len = Some (n, bs') \<Longrightarrow> length bs' \<le> length bs"
    and "\<And>l bs'. length bs' \<le> length bs \<Longrightarrow> safe calm P bs' (f l bs')"
  shows "safe calm P bs (with_len old len bs f)"
  using assms by (auto simp: with_len_def split: option.splits intro: safe_shorter [rotated])

lemma decode_number_safe:
  assumes "typed t old" "\<And>n. typed (fst (f n)) (snd (f n))" "\<And>n. fst (f n) \<in> {TBool, TInt 64, TFloat64, TString, TSlice (TUint 8)}"
  shows "safe (panic_free t) (typed t) bs (decode_number rt t old k f bs)"
  unfolding decode_number_def
  using assms set_rest_safe [OF assms(1,2,3)] by (auto split: option.splits dest!: read_be_rest intro: safe_shorter [rotated])

lemma decodeString_safe: "typed t old \<Longrightarrow> safe (panic_free t) (typed t) bs (decodeString rt t old l bs)"
  by (auto simp: decodeString_def intro!: safe_shorter [OF set_rest_safe])

lemma decodeBytes_safe: "typed t old \<Longrightarrow> safe (panic_free t) (typed t) bs (decodeBytes rt t old l bs)"
  using bytes_val_typed by (auto simp: decodeBytes_def simp del: typed.simps intro!: safe_shorter [OF set_rest_safe])

lemma decode_scalar_safe:
  assumes "decode_scalar rt t old code bs = Some r" "typed t old"
  shows "safe (panic_free t) (typed t) bs r"
  using assms zero_typed [of t] unfolding decode_scalar_def
  by (auto simp: int_val_def readUint8_def readUint16_def readUint32_def split: if_splits
      intro!: set_rest_safe decode_number_safe decodeString_safe decodeBytes_safe with_len_safe dest: read_be_rest)

text \<open>The loops are safe when the decoding of single values is, with the same fuel.\<close>

definition value_safe :: "runtime \<Rightarrow> Options \<Rightarrow> nat \<Rightarrow> bool" where
  "value_safe rt opts n \<longleftrightarrow>
     (\<forall>t old bs. wf_ty t \<and> typed t old \<and> length bs < n \<longrightarrow>
        safe (panic_free t) (typed t) bs (decodeValue rt opts n t old bs))"

lemma value_safeE:
  assumes "value_safe rt opts n" "wf_ty t" "typed t old" "length bs < n"
  obtains out v bs' where "decodeValue rt opts n t old bs = (out, v, bs')" "out \<noteq> OutOfFuel" "panic_free t \<longrightarrow> out \<noteq> Panicked"
    "typed t v" "length bs' \<le> length bs" "length bs' < n"
proof (cases "decodeValue rt opts n t old bs")
  case (fields out v bs')
  then show ?thesis using that [of out v bs'] assms unfolding value_safe_def by fastforce
qed

lemma decode_seq_safe:
  assumes "value_safe rt opts n" "wf_ty t"
  shows "length bs < n \<Longrightarrow> safe (panic_free t) (list_all (typed t)) bs (decode_seq rt opts n t l bs)"
proof (induction l arbitrary: bs)
  case (Suc l)
  obtain out v bs' where d: "decodeValue rt opts n t (zero t) bs = (out, v, bs')" "out \<noteq> OutOfFuel" "panic_free t \<longrightarrow> out \<noteq> Panicked"
    "typed t v" "length bs' \<le> length bs" "length bs' < n"
    by (rule value_safeE [OF assms zero_typed Suc.prems])
  obtain out2 vs bs2 where r: "decode_seq rt opts n t l bs' = (out2, vs, bs2)" by (cases "decode_seq rt opts n t l bs'")
  show ?case using Suc.IH [OF d(6)] d r by auto
qed simp

lemma decode_into_safe:
  assumes "value_safe rt opts n" "wf_ty t"
  shows "length bs < n \<Longrightarrow> list_all (typed t) vs \<Longrightarrow>
    safe (panic_free t) (\<lambda>us. list_all (typed t) us \<and> length us = length vs) bs (decode_into rt opts n t vs l bs)"
proof (induction l arbitrary: vs bs)
  case (Suc l)
  show ?case
  proof (cases vs)
    case (Cons u us)
    then have u: "typed t u" "list_all (typed t) us" using Suc.prems(2) by simp_all
    obtain out v bs' where d: "decodeValue rt opts n t u bs = (out, v, bs')" "out \<noteq> OutOfFuel" "panic_free t \<longrightarrow> out \<noteq> Panicked"
      "typed t v" "length bs' \<le> length bs" "length bs' < n"
      by (rule value_safeE [OF assms u(1) Suc.prems(1)])
    obtain out2 vs2 bs2 where r: "decode_into rt opts n t us l bs' = (out2, vs2, bs2)" by (cases "decode_into rt opts n t us l bs'")
    show ?thesis using Suc.IH [OF d(6) u(2)] d r u by (auto simp: Cons)
  qed simp
qed simp

lemma SetMapIndex_typed:
  "typed kt k \<Longrightarrow> typed vt v \<Longrightarrow> \<forall>(k, v) \<in> set m. typed kt k \<and> typed vt v \<Longrightarrow> \<forall>(k, v) \<in> set (SetMapIndex k v m). typed kt k \<and> typed vt v"
  by (induction m rule: SetMapIndex.induct) auto

lemma decode_entries_safe:
  assumes "value_safe rt opts n" "wf_ty kt" "wf_ty vt"
  shows "length bs < n \<Longrightarrow> \<forall>(k, v) \<in> set m. typed kt k \<and> typed vt v \<Longrightarrow>
    safe (panic_free (TMap kt vt)) (\<lambda>m. \<forall>(k, v) \<in> set m. typed kt k \<and> typed vt v) bs (decode_entries rt opts n kt vt m l bs)"
proof (induction l arbitrary: m bs)
  case (Suc l)
  obtain out k bs' where d: "decodeValue rt opts n kt (zero kt) bs = (out, k, bs')" "out \<noteq> OutOfFuel" "panic_free kt \<longrightarrow> out \<noteq> Panicked"
    "typed kt k" "length bs' \<le> length bs" "length bs' < n"
    by (rule value_safeE [OF assms(1,2) zero_typed Suc.prems(1)])
  obtain out2 v bs2 where e: "decodeValue rt opts n vt (zero vt) bs' = (out2, v, bs2)" "out2 \<noteq> OutOfFuel" "panic_free vt \<longrightarrow> out2 \<noteq> Panicked"
    "typed vt v" "length bs2 \<le> length bs'" "length bs2 < n"
    by (rule value_safeE [OF assms(1,3) zero_typed d(6)])
  have "safe (panic_free (TMap kt vt)) (\<lambda>m. \<forall>(k, v) \<in> set m. typed kt k \<and> typed vt v) bs
      (decode_entries rt opts n kt vt (SetMapIndex k v m) l bs2)"
    using d(5) e(5) by (intro safe_shorter [OF Suc.IH [OF e(6) SetMapIndex_typed [OF d(4) e(4) Suc.prems(2)]]]) simp
  then show ?case using d e Suc.prems(2) comparable_hashable [of kt k] by (auto simp del: typed.simps)
qed simp

lemma decode_fields_safe:
  assumes "value_safe rt opts n" "\<forall>t \<in> set ts. wf_ty t" "\<forall>key i. m key = Some i \<longrightarrow> i < length ts"
  shows "length bs < n \<Longrightarrow> list_all2 (\<lambda>v u. typed u v) vs ts \<Longrightarrow>
    safe (\<forall>t \<in> set ts. panic_free t) (\<lambda>(vs, ver). list_all2 (\<lambda>v u. typed u v) vs ts) bs (decode_fields rt opts n m ts vs ver l bs)"
proof (induction l arbitrary: vs ver bs)
  case (Suc l)
  let ?safe = "safe (\<forall>t \<in> set ts. panic_free t) (\<lambda>(vs, ver). list_all2 (\<lambda>v u. typed u v) vs ts)"
  obtain out k bs' where d: "decodeValue rt opts n TString (VString []) bs = (out, k, bs')" "out \<noteq> OutOfFuel"
    "panic_free TString \<longrightarrow> out \<noteq> Panicked" "typed TString k" "length bs' \<le> length bs" "length bs' < n"
    by (rule value_safeE [OF assms(1) _ _ Suc.prems(1), of TString "VString []"]) simp_all
  obtain key where key: "k = VString key" using d(4) by (auto simp: typed_of)
  have go: "?safe bs (decode_fields rt opts n m ts us w l bs2)" if "list_all2 (\<lambda>v u. typed u v) us ts" "length bs2 \<le> length bs'" for us w bs2
    using Suc.IH [of bs2 us w] that d(5,6) by (auto intro: safe_shorter)
  obtain out2 v bs2 where w: "decodeValue rt opts n (TInt 64) (VInt 0) bs' = (out2, v, bs2)" "out2 \<noteq> OutOfFuel"
    "panic_free (TInt 64) \<longrightarrow> out2 \<noteq> Panicked" "typed (TInt 64) v" "length bs2 \<le> length bs'" "length bs2 < n"
    by (rule value_safeE [OF assms(1) _ _ d(6), of "TInt 64" "VInt 0"]) simp_all
  obtain x where x: "v = VInt x" using w(4) by (auto simp: typed_of)
  obtain out3 v3 bs3 where s: "decodeValue rt opts n TInterface VNilInterface bs' = (out3, v3, bs3)" "out3 \<noteq> OutOfFuel"
    "panic_free TInterface \<longrightarrow> out3 \<noteq> Panicked" "typed TInterface v3" "length bs3 \<le> length bs'" "length bs3 < n"
    by (rule value_safeE [OF assms(1) _ _ d(6), of TInterface VNilInterface]) simp_all
  have field: "?safe bs (case decodeValue rt opts n (ts ! i) (vs ! i) bs' of (out, v, bs2) \<Rightarrow>
      if out \<noteq> Done then (out, (vs[i := v], ver), bs2) else decode_fields rt opts n m ts (vs[i := v]) ver l bs2)" if "i < length ts" for i
  proof -
    have i: "wf_ty (ts ! i)" "typed (ts ! i) (vs ! i)" using that assms(2) Suc.prems(2) by (auto simp: list_all2_conv_all_nth)
    obtain out v bs2 where f: "decodeValue rt opts n (ts ! i) (vs ! i) bs' = (out, v, bs2)" "out \<noteq> OutOfFuel"
      "panic_free (ts ! i) \<longrightarrow> out \<noteq> Panicked" "typed (ts ! i) v" "length bs2 \<le> length bs'" "length bs2 < n"
      by (rule value_safeE [OF assms(1) i d(6)])
    have "list_all2 (\<lambda>v u. typed u v) (vs[i := v]) ts"
      using that Suc.prems(2) f(4) by (auto simp: list_all2_conv_all_nth nth_list_update)
    then show ?thesis using f d(5) go that by auto
  qed
  consider "out \<noteq> Done" | "out = Done" "key = version_key"
    | "out = Done" "key \<noteq> version_key" "m key = None" "m (ToLower rt key) = None"
    | i where "out = Done" "key \<noteq> version_key" "(case m key of Some i \<Rightarrow> Some i | None \<Rightarrow> m (ToLower rt key)) = Some i" "i < length ts"
    using assms(3) by (cases "m key"; cases "m (ToLower rt key)") auto
  then show ?case
  proof cases
    case 1
    then show ?thesis using d Suc.prems(2) by (cases out) (auto simp: key)
  next
    case 2
    then show ?thesis using d w go Suc.prems(2) by (cases out2) (auto simp: key x)
  next
    case 3
    then show ?thesis using d s go Suc.prems(2) by (auto simp: key)
  next
    case (4 i)
    then show ?thesis using d(1) field [OF 4(4)] by (simp add: key)
  qed
qed simp

lemma field_map_bound: "field_map rt fs key = Some i \<Longrightarrow> i < length fs"
proof (induction fs rule: rev_induct)
  case (snoc f fs)
  then show ?case by (auto simp: field_map_snoc split: if_splits)
qed (simp add: field_map_def)


lemma decodeArray_safe:
  assumes "value_safe rt opts n" "wf_ty t" "typed t old" "length bs < n"
  shows "safe (panic_free t) (typed t) bs (decodeArray rt opts n t old l bs)"
proof -
  consider e where "t = TSlice e" | k e where "t = TArray k e" | "\<forall>e. t \<noteq> TSlice e" "\<forall>k e. t \<noteq> TArray k e" by blast
  then show ?thesis
  proof cases
    case 1
    then show ?thesis using decode_seq_safe [OF assms(1) _ assms(4), of e l] assms(2,3)
      by (auto simp: decodeArray.simps list_all_iff safe_def split: prod.splits)
  next
    case 2
    then obtain vs where vs: "old = VArray vs" "length vs = k" "list_all (typed e) vs" using assms(3) by (auto simp: typed_of list_all_iff)
    then show ?thesis using decode_into_safe [OF assms(1) _ assms(4) vs(3), of l] assms(2) 2
      by (auto simp: decodeArray.simps list_all_iff safe_def split: prod.splits)
  next
    case 3
    then show ?thesis using decode_seq_safe [OF assms(1) _ assms(4), of TInterface l] assms(3)
      by (auto simp: decodeArray.simps safe_def split: prod.splits ty.splits)
  qed
qed

lemma decodeMap_safe:
  assumes "value_safe rt opts n" "wf_ty t" "typed t old" "length bs < n"
  shows "safe (panic_free t) (typed t) bs (decodeMap rt opts n t old l bs)"
proof -
  consider fs ts where "t = TStruct fs ts" | kt vt where "t = TMap kt vt" | "\<forall>fs ts. t \<noteq> TStruct fs ts" "\<forall>k e. t \<noteq> TMap k e" by blast
  then show ?thesis
  proof cases
    case 1
    then obtain vs where vs: "old = VStruct vs" "list_all2 (\<lambda>v u. typed u v) vs ts" using assms(3) by (auto simp: typed_of)
    have "\<forall>key i. field_map rt fs key = Some i \<longrightarrow> i < length ts" "\<forall>t \<in> set ts. wf_ty t" using field_map_bound [of rt fs] 1 assms(2) by auto
    then show ?thesis using decode_fields_safe [OF assms(1) _ _ assms(4) vs(2), of "field_map rt fs" None l] 1 vs(1)
      by (auto simp: decodeMap.simps safe_def split: prod.splits option.splits)
  next
    case 2
    then show ?thesis using decode_entries_safe [OF assms(1) _ _ assms(4), of kt vt "[]" l] assms(2,3)
      by (auto simp: decodeMap.simps safe_def split: prod.splits)
  next
    case 3
    then show ?thesis using decode_seq_safe [OF assms(1) _ assms(4), of TInterface "2 * l"] assms(3)
      by (auto simp: decodeMap.simps safe_def split: prod.splits ty.splits)
  qed
qed

lemma value_safe: "value_safe rt opts n"
proof (induction n)
  case (Suc n)
  have "safe (panic_free t) (typed t) bs (decodeValue rt opts (Suc n) t old bs)" if t: "wf_ty t" "typed t old" "length bs < Suc n" for t old bs
  proof (cases bs)
    case (Cons code r)
    have r: "safe (panic_free t) (typed t) bs' (decodeArray rt opts n t old l bs')" "safe (panic_free t) (typed t) bs' (decodeMap rt opts n t old l bs')"
      if "length bs' \<le> length r" for bs' l
      using decodeArray_safe [OF Suc t(1,2)] decodeMap_safe [OF Suc t(1,2)] that t(3) Cons by simp_all
    have "safe (panic_free t) (typed t) r (decodeValue rt opts (Suc n) t old (code # r))"
      using decode_scalar_safe t(2) r
      by (auto simp: readUint16_def readUint32_def split: option.splits intro!: with_len_safe dest: read_be_rest)
    then show ?thesis unfolding Cons by (rule safe_shorter) simp
  qed (use t in simp)
  then show ?case by (simp add: value_safe_def)
qed (simp add: value_safe_def)




subsection \<open>What is not restored\<close>

lemmas decode_run = Unmarshal_def decode_scalar_def set_rest_def setFieldValue_def int_val_def Convert_def

text \<open>Pointers are written as what they point to, and cannot be read.\<close>

lemma pointer_not_restored:
  "Marshal DefaultOptions (Some (TSlice (TPtr (TInt 64)), VSlice [VPtr (VInt 5)])) = Inr [0x91, 0x05]"
  "fst (Unmarshal ascii_runtime DefaultOptions [0x91, 0x05] (Some (TPtr (TSlice (TPtr (TInt 64))), VPtr (VSlice [])))) =
     Failed ErrInvalidType"
  by (simp_all add: Marshal_def marshal_elem_def appendInt_def array_header_def decode_run decodeArray.simps)

text \<open>A slice in an interface is written, and silently skipped when it is read.\<close>

lemma interface_slice_dropped:
  "Marshal DefaultOptions (Some (TSlice TInterface, VSlice [VInterface (TSlice (TInt 64)) (VSlice [VInt 5])])) = Inr [0x91, 0x91, 0x05]"
  "Unmarshal ascii_runtime DefaultOptions [0x91, 0x91, 0x05] (Some (TPtr (TSlice TInterface), VPtr (VSlice []))) =
     (Done, Some (TPtr (TSlice TInterface), VPtr (VSlice [VNilInterface])))"
  by (simp_all add: Marshal_def marshal_elem_def appendInt_def array_header_def decode_run decodeArray.simps)

text \<open>The elements that an array has no room for are left in the data, and are taken for what comes next.\<close>

lemma array_surplus_left:
  "decodeValue ascii_runtime DefaultOptions (Suc (Suc n)) (TArray 1 (TInt 64)) (VArray [VInt 0]) [0x92, 0x05, 0x06] =
     (Done, VArray [VInt 5], [0x06])"
  by (simp add: decode_run decodeArray.simps decode_into.simps(3) [where l = 1, unfolded Suc_1])

text \<open>A byte slice as the key of a map with interface keys, and a byte slice for a longer array: both panic.\<close>

lemma unmarshal_panics:
  "fst (Unmarshal ascii_runtime DefaultOptions [0x81, 0xc4, 0x00, 0x05] (Some (TPtr (TMap TInterface (TInt 64)), VPtr (VMap [])))) = Panicked"
  "fst (Unmarshal ascii_runtime DefaultOptions [0xc4, 0x01, 0x05]
     (Some (TPtr (TArray 2 (TUint 8)), VPtr (VArray [VUint 0, VUint 0])))) = Panicked"
  by (simp_all add: decode_run decodeMap.simps decodeBytes_def with_len_def readUint8_def read_be_def get_be_def bytes_val_def)

text \<open>A number that is read into a string becomes the character with that number.\<close>

lemma number_as_string:
  "Unmarshal ascii_runtime DefaultOptions [0x41] (Some (TPtr TString, VPtr (VString []))) =
     (Done, Some (TPtr TString, VPtr (VString (bytes_of ''A''))))"
  by (simp add: decode_run string_of_int_def rune_bytes_def bytes_of_def)

text \<open>With fields named \<open>id\<close> and \<open>ID\<close>, the lower-case name of the second hides the first.\<close>

lemma lower_case_hides_field:
  "field_map ascii_runtime [\<lparr>Name = bytes_of ''A'', SerializeTag = bytes_of ''id'', Exported = True\<rparr>,
     \<lparr>Name = bytes_of ''B'', SerializeTag = bytes_of ''ID'', Exported = True\<rparr>] (bytes_of ''id'') = Some 1"
  by (simp add: field_map_def getFieldName_def serialized_def bytes_of_def ascii_runtime_def)

end
