(* ===== verification/Protobuf.thy ===== *)
theory Protobuf
  imports Serialize Gostrings
begin

unbundle bit_operations_syntax

section \<open>Protocol buffers (\<open>src/internal/serialize/protobuf.go\<close>)\<close>

text \<open>
  The protobuf serializer over the types and values of \<open>Goreflect\<close>. A decoder is the data with a position in it. The
  position is a Go \<open>int\<close>: a length in the data is an unsigned number that \<open>skipValue\<close> adds to the position after a
  conversion to \<open>int\<close>, so that the position can move backwards and the loop over the fields can run forever. That loop has
  as much fuel as the data has bytes, and one more: what it does depends on the position only, so that a longer run meets a
  position twice. Slices have no spare capacity with old elements in it.
\<close>

subsection \<open>Fields\<close>

definition chars :: "bytes \<Rightarrow> string" where "chars bs = map (\<lambda>b. char_of (unat b)) bs"

definition last_space :: "string \<Rightarrow> nat" where
  "last_space s =
     (case find (\<lambda>r. length r \<le> length s \<and> drop (length s - length r) (map of_char s) = r) spaces of
        None \<Rightarrow> 0
      | Some r \<Rightarrow> length r)"

lemma space_shorter:
  "space_width s \<noteq> 0 \<Longrightarrow> length s - space_width s < length s" "last_space s \<noteq> 0 \<Longrightarrow> length s - last_space s < length s"
proof -
  have "space_width [] = 0" "last_space [] = 0" by (simp_all add: space_width_def last_space_def spaces_def)
  then show "space_width s \<noteq> 0 \<Longrightarrow> length s - space_width s < length s" "last_space s \<noteq> 0 \<Longrightarrow> length s - last_space s < length s"
    by (cases s; simp)+
qed

function TrimSpace_left :: "string \<Rightarrow> string" where
  "TrimSpace_left s = (if space_width s = 0 then s else TrimSpace_left (drop (space_width s) s))"
  by pat_completeness auto
termination
  by (relation "measure length") (auto intro: space_shorter)

function TrimSpace_right :: "string \<Rightarrow> string" where
  "TrimSpace_right s = (if last_space s = 0 then s else TrimSpace_right (take (length s - last_space s) s))"
  by pat_completeness auto
termination
  by (relation "measure length") (auto intro: space_shorter)

declare TrimSpace_left.simps [simp del] TrimSpace_right.simps [simp del]

fun split_commas :: "string \<Rightarrow> string list" where
  "split_commas [] = [[]]"
| "split_commas (c # cs) =
     (if c = CHR '','' then [] # split_commas cs else case split_commas cs of [] \<Rightarrow> [[c]] | p # ps \<Rightarrow> (c # p) # ps)"

abbreviation (input) "pbWireTypeVarint \<equiv> 0 :: nat"
abbreviation (input) "pbWireType64bit \<equiv> 1 :: nat"
abbreviation (input) "pbWireTypeLengthDelim \<equiv> 2 :: nat"
abbreviation (input) "pbWireType32bit \<equiv> 5 :: nat"

record pbFieldInfo =
  fieldNum :: "64 word"
  wireType :: nat
  field_name :: bytes
  index :: nat

definition getWireType :: "ty \<Rightarrow> nat" where
  "getWireType t =
     (case t of
        TBool \<Rightarrow> pbWireTypeVarint | TInt _ \<Rightarrow> pbWireTypeVarint | TUint _ \<Rightarrow> pbWireTypeVarint
      | TFloat32 \<Rightarrow> pbWireType32bit
      | TFloat64 \<Rightarrow> pbWireType64bit
      | _ \<Rightarrow> pbWireTypeLengthDelim)"

text \<open>One part of a tag: the field number it declares, or the one so far.\<close>

definition declared_number :: "string \<Rightarrow> 64 word \<Rightarrow> 64 word" where
  "declared_number part num =
     (let part = TrimSpace_right (TrimSpace_left part)
      in if \<not> HasPrefix part ''protobuf:'' then num
         else case Sscanf_d (TrimPrefix part ''protobuf:'') of
                None \<Rightarrow> num
              | Some n \<Rightarrow> if n > 0 then (if n = 1 then 2 else word_of_int n) else num)"

definition getPBFieldInfo :: "nat \<Rightarrow> field \<Rightarrow> ty \<Rightarrow> pbFieldInfo option" where
  "getPBFieldInfo i f t =
     (if \<not> Exported f then None
      else if SerializeTag f = bytes_of ''-'' then None
      else let num = (if SerializeTag f \<noteq> [] then fold declared_number (split_commas (chars (SerializeTag f))) 0 else 0)
           in Some \<lparr>fieldNum = (if num = 0 then word_of_nat (i + 2) else num), wireType = getWireType t,
                    field_name = getFieldName f, index = i\<rparr>)"

subsection \<open>Encoding\<close>

definition isZeroValue :: "val \<Rightarrow> bool" where
  "isZeroValue v =
     (case v of
        VBool b \<Rightarrow> \<not> b
      | VInt n \<Rightarrow> n = 0
      | VUint n \<Rightarrow> n = 0
      | VFloat32 x \<Rightarrow> float32_eq x 0
      | VFloat64 x \<Rightarrow> float64_eq x 0
      | VString s \<Rightarrow> s = []
      | VSlice vs \<Rightarrow> vs = []
      | VMap m \<Rightarrow> m = []
      | VNilPtr \<Rightarrow> True
      | VNilInterface \<Rightarrow> True
      | _ \<Rightarrow> False)"

function encodeVarint :: "64 word \<Rightarrow> bytes" where
  "encodeVarint v =
     (let b = ucast (v AND 0x7f); v' = drop_bit 7 v
      in if v' \<noteq> 0 then (b OR 0x80) # encodeVarint v' else [b])"
  by pat_completeness auto
termination
proof (relation "measure unat", goal_cases)
  case (2 v b v')
  then have "unat v \<noteq> 0" by (metis drop_bit_of_0 unat_eq_zero)
  then have "unat (drop_bit 7 v) < unat v" unfolding unat_drop_bit_eq by (simp add: drop_bit_eq_div)
  then show ?case using 2 by simp
qed simp

declare encodeVarint.simps [simp del]

definition encodeVarintValue :: "val \<Rightarrow> (serialize_error, bytes) result" where
  "encodeVarintValue v =
     (case v of
        VBool b \<Rightarrow> Inr [if b then 1 else 0]
      | VInt n \<Rightarrow> Inr (encodeVarint n)
      | VUint n \<Rightarrow> Inr (encodeVarint n)
      | _ \<Rightarrow> Inl ErrInvalidType)"

definition encode32bitValue :: "val \<Rightarrow> (serialize_error, bytes) result" where
  "encode32bitValue v = (case v of VFloat32 x \<Rightarrow> Inr (rev (put_be 4 (narrow (widen x)))) | _ \<Rightarrow> Inl ErrInvalidType)"

definition encode64bitValue :: "val \<Rightarrow> (serialize_error, bytes) result" where
  "encode64bitValue v = (case v of VFloat64 x \<Rightarrow> Inr (rev (put_be 8 x)) | _ \<Rightarrow> Inl ErrInvalidType)"

definition delimited :: "bytes \<Rightarrow> bytes" where
  "delimited bs = encodeVarint (word_of_nat (length bs)) @ bs"

text \<open>
  The value comes with its type and whether it can be addressed: what a pointer points to, the elements of a slice, and the
  fields and elements of such a value can. The address of another value is a panic, \<^const>\<open>None\<close>.
\<close>

type_synonym encoded = "(serialize_error, bytes) result option"

definition wrap_delimited :: "encoded \<Rightarrow> encoded" where
  "wrap_delimited r = map_option (map_sum id delimited) r"

definition append_encoded :: "encoded \<Rightarrow> encoded \<Rightarrow> encoded" where
  "append_encoded r s = (case r of Some (Inr a) \<Rightarrow> map_option (map_sum id ((@) a)) s | _ \<Rightarrow> r)"

definition field_tag :: "64 word \<Rightarrow> nat \<Rightarrow> bytes" where
  "field_tag num wt = encodeVarint (push_bit 3 num OR word_of_nat wt)"

function (sequential)
  encodeLengthDelimValue :: "bool \<Rightarrow> ty \<Rightarrow> val \<Rightarrow> encoded" and
  encode_elems :: "bool \<Rightarrow> ty \<Rightarrow> val list \<Rightarrow> encoded" and
  encodeValue :: "nat \<Rightarrow> bool \<Rightarrow> ty \<Rightarrow> val \<Rightarrow> encoded" and
  encodeField :: "64 word \<Rightarrow> nat \<Rightarrow> bool \<Rightarrow> ty \<Rightarrow> val \<Rightarrow> encoded" and
  encode_fields :: "nat \<Rightarrow> bool \<Rightarrow> field list \<Rightarrow> ty list \<Rightarrow> val list \<Rightarrow> encoded" where
  "encodeLengthDelimValue a t (VString s) = Some (Inr (delimited s))"
| "encodeLengthDelimValue a t (VSlice vs) =
     (case t of
        TSlice e \<Rightarrow> if e = TUint 8 then Some (Inr (delimited (val_bytes vs))) else wrap_delimited (encode_elems True e vs)
      | _ \<Rightarrow> Some (Inl ErrInvalidType))"
| "encodeLengthDelimValue a t (VArray vs) =
     (case t of TArray _ e \<Rightarrow> wrap_delimited (encode_elems a e vs) | _ \<Rightarrow> Some (Inl ErrInvalidType))"
| "encodeLengthDelimValue a t (VStruct vs) =
     (case t of
        TStruct fs ts \<Rightarrow> if a then wrap_delimited (encode_fields 0 True fs ts vs) else None
      | _ \<Rightarrow> Some (Inl ErrInvalidType))"
| "encodeLengthDelimValue a t VNilPtr = Some (Inr (encodeVarint 0))"
| "encodeLengthDelimValue a t (VPtr v) =
     (case t of TPtr e \<Rightarrow> encodeLengthDelimValue True e v | _ \<Rightarrow> Some (Inl ErrInvalidType))"
| "encodeLengthDelimValue a t v = Some (Inl ErrInvalidType)"
| "encode_elems a e [] = Some (Inr [])"
| "encode_elems a e (v # vs) = append_encoded (encodeValue (getWireType e) a e v) (encode_elems a e vs)"
| "encodeValue wt a t v =
     (if wt = pbWireTypeVarint then Some (encodeVarintValue v)
      else if wt = pbWireType32bit then Some (encode32bitValue v)
      else if wt = pbWireType64bit then Some (encode64bitValue v)
      else if wt = pbWireTypeLengthDelim then encodeLengthDelimValue a t v
      else Some (Inl ErrInvalidFormat))"
| "encodeField num wt a t v = append_encoded (Some (Inr (field_tag num wt))) (encodeValue wt a t v)"
| "encode_fields i a (f # fs) (t # ts) (v # vs) =
     (case getPBFieldInfo i f t of
        None \<Rightarrow> encode_fields (Suc i) a fs ts vs
      | Some info \<Rightarrow>
          if isZeroValue v then encode_fields (Suc i) a fs ts vs
          else append_encoded (encodeField (fieldNum info) (wireType info) a t v) (encode_fields (Suc i) a fs ts vs))"
| "encode_fields i a fs ts vs = Some (Inr [])"
  by pat_completeness auto
termination
  by (relation "measure (\<lambda>x. case x of
        Inl (Inl (a, t, v)) \<Rightarrow> 3 * size v
      | Inl (Inr (a, e, vs)) \<Rightarrow> 3 * size_list size vs
      | Inr (Inl (wt, a, t, v)) \<Rightarrow> 3 * size v + 1
      | Inr (Inr (Inl (num, wt, a, t, v))) \<Rightarrow> 3 * size v + 2
      | Inr (Inr (Inr (i, a, fs, ts, vs))) \<Rightarrow> 3 * size_list size vs)") simp_all

definition marshal_struct :: "Options \<Rightarrow> bool \<Rightarrow> ty \<Rightarrow> val \<Rightarrow> encoded" where
  "marshal_struct opts a t v =
     (case (t, v) of
        (TStruct fs ts, VStruct vs) \<Rightarrow>
          append_encoded
            (if sint (Version opts) > 0 then encodeField 1 pbWireTypeVarint True (TInt 64) (VInt (Version opts)) else Some (Inr []))
            (encode_fields 0 a fs ts vs)
      | _ \<Rightarrow> Some (Inl ErrInvalidType))"

definition Marshal :: "Options \<Rightarrow> (ty \<times> val) option \<Rightarrow> encoded" where
  "Marshal opts arg =
     (case arg of
        None \<Rightarrow> Some (Inl ErrNilInput)
      | Some (TPtr t, VNilPtr) \<Rightarrow> Some (Inr [])
      | Some (TPtr t, VPtr v) \<Rightarrow> marshal_struct opts True t v
      | Some (t, v) \<Rightarrow> marshal_struct opts False t v)"

subsection \<open>Decoding\<close>

text \<open>A decoder's answer: how it ended, the value, and the position it is at.\<close>

type_synonym 'a at = "outcome \<times> 'a \<times> int"

text \<open>The value of a Go \<open>int\<close> that a sum overflows into.\<close>

definition wrap :: "int \<Rightarrow> int" where "wrap i = sint (word_of_int i :: 64 word)"

function varint_loop :: "bytes \<Rightarrow> int \<Rightarrow> 64 word \<Rightarrow> nat \<Rightarrow> 64 word at" where
  "varint_loop data pos result shift =
     (if pos \<ge> int (length data) then (Failed ErrInvalidFormat, 0, pos)
      else if pos < 0 then (Panicked, 0, pos)
      else let b = data ! nat pos; result' = result OR push_bit shift (ucast (b AND 0x7f))
           in if b AND 0x80 = 0 then (Done, result', pos + 1)
              else if shift + 7 \<ge> 64 then (Failed ErrInvalidFormat, 0, pos + 1)
              else varint_loop data (pos + 1) result' (shift + 7))"
  by pat_completeness auto
termination
  by (relation "measure (\<lambda>(data, pos, result, shift). 64 - shift)") auto

declare varint_loop.simps [simp del]

definition readVarint :: "bytes \<Rightarrow> int \<Rightarrow> 64 word at" where
  "readVarint data pos = varint_loop data pos 0 0"

text \<open>After a varint the position is positive, so that only the sum with a length can be out of range below.\<close>

definition skipValue :: "nat \<Rightarrow> bytes \<Rightarrow> int \<Rightarrow> outcome \<times> int" where
  "skipValue wt data pos =
     (if wt = pbWireTypeVarint then (case readVarint data pos of (out, _, pos') \<Rightarrow> (out, pos'))
      else if wt = pbWireType32bit then
        (if pos + 4 > int (length data) then (Failed ErrInvalidFormat, pos) else (Done, pos + 4))
      else if wt = pbWireType64bit then
        (if pos + 8 > int (length data) then (Failed ErrInvalidFormat, pos) else (Done, pos + 8))
      else if wt = pbWireTypeLengthDelim then
        (case readVarint data pos of
           (out, l, pos1) \<Rightarrow>
             if out \<noteq> Done then (out, pos1)
             else if wrap (pos1 + sint l) > int (length data) then (Failed ErrInvalidFormat, pos1)
             else (Done, wrap (pos1 + sint l)))
      else (Failed ErrInvalidFormat, pos))"

definition setVarintValue :: "ty \<Rightarrow> val \<Rightarrow> 64 word \<Rightarrow> outcome \<times> val" where
  "setVarintValue t old v =
     (case t of
        TBool \<Rightarrow> (Done, VBool (v \<noteq> 0))
      | TInt w \<Rightarrow> (Done, VInt (signed_take_bit (w - 1) v))
      | TUint w \<Rightarrow> (Done, VUint (take_bit w v))
      | _ \<Rightarrow> (Failed ErrInvalidType, old))"

definition set32bitValue :: "ty \<Rightarrow> val \<Rightarrow> 32 word \<Rightarrow> outcome \<times> val" where
  "set32bitValue t old v = (case t of TFloat32 \<Rightarrow> (Done, VFloat32 (narrow (widen v))) | _ \<Rightarrow> (Failed ErrInvalidType, old))"

definition set64bitValue :: "ty \<Rightarrow> val \<Rightarrow> 64 word \<Rightarrow> outcome \<times> val" where
  "set64bitValue t old v = (case t of TFloat64 \<Rightarrow> (Done, VFloat64 v) | _ \<Rightarrow> (Failed ErrInvalidType, old))"

definition pb_field_map :: "field list \<Rightarrow> ty list \<Rightarrow> 64 word \<rightharpoonup> nat" where
  "pb_field_map fs ts =
     fold (\<lambda>(i, f, t) m. case getPBFieldInfo i f t of None \<Rightarrow> m | Some info \<Rightarrow> m(fieldNum info \<mapsto> i))
       (enumerate 0 (zip fs ts)) Map.empty"

definition strict_outcome :: "Options \<Rightarrow> 64 word option \<Rightarrow> outcome" where
  "strict_outcome opts ver =
     (case ver of
        None \<Rightarrow> Done
      | Some dataVersion \<Rightarrow>
          if StrictMode opts \<and> sint dataVersion > 0 \<and> dataVersion \<noteq> Version opts
          then Failed (ErrVersionMismatch (Version opts) dataVersion) else Done)"

text \<open>
  \<open>decode_elems\<close> is the loop over the elements of a slice or an array, with the old elements that are left; a slice
  grows by zero values. \<open>field_loop\<close> is the loop of \<open>Unmarshal\<close> over the fields of a struct, with the version found so far.
\<close>

lemma size_field: "i < length ts \<Longrightarrow> Suc (2 * size (ts ! i)) < 2 * size_list size (ts :: ty list)"
proof (induction ts arbitrary: i)
  case (Cons t ts)
  show ?case
  proof (cases i)
    case (Suc j)
    then have "Suc (2 * size (ts ! j)) < 2 * size_list size ts" using Cons by simp
    then show ?thesis using Suc by simp
  qed simp
qed simp

function (sequential)
  decodeValue :: "Options \<Rightarrow> nat \<Rightarrow> ty \<Rightarrow> val \<Rightarrow> bytes \<Rightarrow> int \<Rightarrow> val at" and
  setLengthDelimValue :: "Options \<Rightarrow> ty \<Rightarrow> val \<Rightarrow> bytes \<Rightarrow> outcome \<times> val" and
  decode_elems :: "Options \<Rightarrow> nat \<Rightarrow> bool \<Rightarrow> ty \<Rightarrow> val list \<Rightarrow> bytes \<Rightarrow> int \<Rightarrow> outcome \<times> val list" and
  field_loop ::
    "Options \<Rightarrow> nat \<Rightarrow> (64 word \<rightharpoonup> nat) \<Rightarrow> ty list \<Rightarrow> val list \<Rightarrow> 64 word option \<Rightarrow> bytes \<Rightarrow> int \<Rightarrow> outcome \<times> val list" where
  "decodeValue opts wt t old data pos =
     (if wt = pbWireTypeVarint then
        (case readVarint data pos of
           (out, v, pos1) \<Rightarrow>
             if out \<noteq> Done then (out, old, pos1) else case setVarintValue t old v of (out, v') \<Rightarrow> (out, v', pos1))
      else if wt = pbWireType32bit then
        (if pos + 4 > int (length data) then (Failed ErrInvalidFormat, old, pos)
         else case set32bitValue t old (get_be (rev (take 4 (drop (nat pos) data)))) of (out, v) \<Rightarrow> (out, v, pos + 4))
      else if wt = pbWireType64bit then
        (if pos + 8 > int (length data) then (Failed ErrInvalidFormat, old, pos)
         else case set64bitValue t old (get_be (rev (take 8 (drop (nat pos) data)))) of (out, v) \<Rightarrow> (out, v, pos + 8))
      else if wt = pbWireTypeLengthDelim then
        (case readVarint data pos of
           (out, l, pos1) \<Rightarrow>
             if out \<noteq> Done then (out, old, pos1)
             else if wrap (pos1 + sint l) > int (length data) then (Failed ErrInvalidFormat, old, pos1)
             else if wrap (pos1 + sint l) < pos1 then (Panicked, old, pos1)
             else case setLengthDelimValue opts t old (take (unat l) (drop (nat pos1) data)) of
                    (out, v) \<Rightarrow> (out, v, pos1 + sint l))
      else (Failed ErrInvalidFormat, old, pos))"
| "setLengthDelimValue opts TString old data = (Done, VString data)"
| "setLengthDelimValue opts (TSlice e) old data =
     (if e = TUint 8 then (Done, bytes_val data)
      else case old of
             VSlice vs \<Rightarrow>
               (case decode_elems opts (Suc (length data)) False e vs data 0 of (out, vs') \<Rightarrow> (out, VSlice vs'))
           | _ \<Rightarrow> (Panicked, old))"
| "setLengthDelimValue opts (TArray n e) old data =
     (case old of
        VArray vs \<Rightarrow>
          (case decode_elems opts (Suc (length data)) True e vs data 0 of (out, vs') \<Rightarrow> (out, VArray vs'))
      | _ \<Rightarrow> (Panicked, old))"
| "setLengthDelimValue opts (TStruct fs ts) old data =
     (if data = [] then (Done, old)
      else case old of
             VStruct vs \<Rightarrow>
               (case field_loop opts (Suc (length data)) (pb_field_map fs ts) ts vs None data 0 of
                  (out, vs') \<Rightarrow> (out, VStruct vs'))
           | _ \<Rightarrow> (Panicked, old))"
| "setLengthDelimValue opts (TPtr e) old data =
     (case setLengthDelimValue opts e (zero e) data of (out, v) \<Rightarrow> (out, if out = Done then VPtr v else old))"
| "setLengthDelimValue opts t old data = (Failed ErrInvalidType, old)"
| "decode_elems opts 0 fixed e vs data pos = (OutOfFuel, vs)"
| "decode_elems opts (Suc n) fixed e vs data pos =
     (if pos \<ge> int (length data) \<or> vs = [] \<and> fixed then (Done, vs)
      else case decodeValue opts (getWireType e) e (if vs = [] then zero e else hd vs) data pos of
             (out, v, pos1) \<Rightarrow>
               if out \<noteq> Done then (out, v # tl vs)
               else case decode_elems opts n fixed e (tl vs) data pos1 of (out, vs') \<Rightarrow> (out, v # vs'))"
| "field_loop opts 0 m ts vs ver data pos = (OutOfFuel, vs)"
| "field_loop opts (Suc n) m ts vs ver data pos =
     (if pos \<ge> int (length data) then (strict_outcome opts ver, vs)
      else case readVarint data pos of
             (out, tag, pos1) \<Rightarrow>
               if out \<noteq> Done then (out, vs)
               else let num = drop_bit 3 tag; wt = unat (tag AND 7)
                    in if num = 1 then
                         (case readVarint data pos1 of
                            (out, version, pos2) \<Rightarrow>
                              if out \<noteq> Done then (out, vs) else field_loop opts n m ts vs (Some version) data pos2)
                       else case m num of
                              None \<Rightarrow>
                                if OnUnknownField opts = ReturnUnknownFieldError
                                then (Failed (ErrUnknownField (bytes_of (''field number '' @ show_nat (unat num)))), vs)
                                else (case skipValue wt data pos1 of
                                        (out, pos2) \<Rightarrow> if out \<noteq> Done then (out, vs) else field_loop opts n m ts vs ver data pos2)
                            | Some i \<Rightarrow>
                                if i < length ts then
                                  (case decodeValue opts wt (ts ! i) (vs ! i) data pos1 of
                                     (out, v, pos2) \<Rightarrow>
                                       if out \<noteq> Done then (out, vs[i := v])
                                       else field_loop opts n m ts (vs[i := v]) ver data pos2)
                                else (Panicked, vs))"
  by pat_completeness auto
termination
proof (relation "measures
     [\<lambda>x. case x of
        Inl (Inl (opts, wt, t, _)) \<Rightarrow> 2 * size t + 1
      | Inl (Inr (opts, t, _)) \<Rightarrow> 2 * size t
      | Inr (Inl (opts, n, fixed, e, _)) \<Rightarrow> 2 * size e + 1
      | Inr (Inr (opts, n, m, ts, _)) \<Rightarrow> 2 * size_list size ts,
      \<lambda>x. case x of
        Inr (Inl (opts, n, _)) \<Rightarrow> Suc n
      | Inr (Inr (opts, n, _)) \<Rightarrow> n
      | _ \<Rightarrow> 0]")
qed (auto simp: size_field)

declare decodeValue.simps [simp del]

definition Unmarshal :: "Options \<Rightarrow> bytes \<Rightarrow> (ty \<times> val) option \<Rightarrow> outcome \<times> (ty \<times> val) option" where
  "Unmarshal opts data arg =
     (case arg of
        None \<Rightarrow> (Failed ErrUnmarshalNil, arg)
      | Some tv \<Rightarrow>
          if data = [] then (Done, arg)
          else case tv of
                 (TPtr (TStruct fs ts), VPtr old) \<Rightarrow>
                   (case setLengthDelimValue opts (TStruct fs ts) old data of
                      (out, v) \<Rightarrow> (out, Some (TPtr (TStruct fs ts), VPtr v)))
               | (TPtr t, VPtr old) \<Rightarrow> (Failed ErrInvalidType, arg)
               | _ \<Rightarrow> (Failed ErrUnmarshalNil, arg))"

subsection \<open>Varints\<close>

lemma encodeVarint_nonempty [simp]: "encodeVarint v \<noteq> []" "0 < length (encodeVarint v)"
  by (simp_all add: encodeVarint.simps [of v] Let_def)

lemma varint_masks:
  "bit (0x7f :: 64 word) k \<longleftrightarrow> k < 7" "bit (0x7f :: byte) k \<longleftrightarrow> k < 7" "bit (0x80 :: byte) k \<longleftrightarrow> k = 7"
proof -
  have e: "(0x7f :: 64 word) = mask 7" "(0x7f :: byte) = mask 7" "(0x80 :: byte) = push_bit 7 1" by (simp_all add: mask_eq_decr_exp)
  show "bit (0x7f :: 64 word) k \<longleftrightarrow> k < 7" "bit (0x7f :: byte) k \<longleftrightarrow> k < 7" unfolding e bit_mask_iff by auto
  show "bit (0x80 :: byte) k \<longleftrightarrow> k = 7" unfolding e bit_push_bit_iff bit_1_iff by auto
qed

lemma varint_bits:
  fixes v result :: "64 word"
  shows "(result OR push_bit s (ucast (ucast (v AND 0x7f) :: byte))) OR push_bit (s + 7) (drop_bit 7 v) = result OR push_bit s v"
proof -
  define m where "m = (0x7f :: 64 word)"
  have m: "bit m k \<longleftrightarrow> k < 7" for k unfolding m_def by (rule varint_masks)
  have "bit ((result OR push_bit s (ucast (ucast (v AND m) :: byte))) OR push_bit (s + 7) (drop_bit 7 v)) n \<longleftrightarrow>
      bit (result OR push_bit s v) n" if "n < LENGTH(64)" for n
  proof (cases "s + 7 \<le> n")
    case True
    then have "7 + (n - (s + 7)) = n - s" "s \<le> n" by simp_all
    then show ?thesis using True that by (auto simp: bit_simps m)
  next
    case False
    then show ?thesis using that by (auto simp: bit_simps m)
  qed
  then show ?thesis unfolding m_def by (rule bit_word_eqI)
qed

lemma varint_byte:
  fixes v :: "64 word"
  shows "(ucast (v AND 0x7f) :: byte) AND 0x7f = ucast (v AND 0x7f)" "(ucast (v AND 0x7f) :: byte) AND 0x80 = 0"
    "((ucast (v AND 0x7f) :: byte) OR 0x80) AND 0x7f = ucast (v AND 0x7f)" "((ucast (v AND 0x7f) :: byte) OR 0x80) AND 0x80 \<noteq> 0"
proof -
  define m where "m = (0x7f :: 64 word)"
  define c where "c = (0x7f :: byte)"
  define d where "d = (0x80 :: byte)"
  have m: "bit m k \<longleftrightarrow> k < 7" "bit c k \<longleftrightarrow> k < 7" "bit d k \<longleftrightarrow> k = 7" for k unfolding m_def c_def d_def by (rule varint_masks)+
  have "(ucast (v AND m) :: byte) AND c = ucast (v AND m)" "(ucast (v AND m) :: byte) AND d = 0"
    "((ucast (v AND m) :: byte) OR d) AND c = ucast (v AND m)"
    by (rule bit_word_eqI, auto simp: bit_simps m)+
  moreover have "bit (((ucast (v AND m) :: byte) OR d) AND d) 7" by (simp add: bit_simps m)
  then have "((ucast (v AND m) :: byte) OR d) AND d \<noteq> 0" by (rule contrapos_pn) simp
  ultimately show "(ucast (v AND 0x7f) :: byte) AND 0x7f = ucast (v AND 0x7f)" "(ucast (v AND 0x7f) :: byte) AND 0x80 = 0"
    "((ucast (v AND 0x7f) :: byte) OR 0x80) AND 0x7f = ucast (v AND 0x7f)" "((ucast (v AND 0x7f) :: byte) OR 0x80) AND 0x80 \<noteq> 0"
    unfolding m_def c_def d_def by simp_all
qed

lemma varint_step:
  "0 \<le> pos \<Longrightarrow> pos < int (length data) \<Longrightarrow> data ! nat pos AND 0x80 \<noteq> 0 \<Longrightarrow> s + 7 < 64 \<Longrightarrow>
   varint_loop data pos result s = varint_loop data (pos + 1) (result OR push_bit s (ucast (data ! nat pos AND 0x7f))) (s + 7)"
  "0 \<le> pos \<Longrightarrow> pos < int (length data) \<Longrightarrow> data ! nat pos AND 0x80 = 0 \<Longrightarrow>
   varint_loop data pos result s = (Done, result OR push_bit s (ucast (data ! nat pos AND 0x7f)), pos + 1)"
  by (subst varint_loop.simps, simp add: Let_def)+

lemma varint_loop_encode:
  "s \<le> 63 \<Longrightarrow> unat v < 2 ^ (64 - s) \<Longrightarrow>
   varint_loop (pre @ encodeVarint v @ rest) (int (length pre)) result s =
     (Done, result OR push_bit s v, int (length pre + length (encodeVarint v)))"
proof (induction v arbitrary: pre result s rule: encodeVarint.induct)
  case (1 v)
  let ?b = "ucast (v AND 0x7f) :: byte" and ?v = "drop_bit 7 v"
  show ?case
  proof (cases "?v = 0")
    case True
    then have "encodeVarint v = [?b]" by (simp add: encodeVarint.simps [of v] Let_def)
    moreover have "result OR push_bit s (ucast ?b) = result OR push_bit s v" using varint_bits [of result s v] True by simp
    ultimately show ?thesis by (simp add: varint_step(2) nth_append varint_byte(1,2))
  next
    case False
    then have e: "encodeVarint v = (?b OR 0x80) # encodeVarint ?v" by (simp add: encodeVarint.simps [of v] Let_def)
    have "unat v \<ge> 2 ^ 7"
    proof (rule ccontr)
      assume "\<not> unat v \<ge> 2 ^ 7"
      then have "unat ?v = 0" unfolding unat_drop_bit_eq by (simp add: drop_bit_eq_div)
      then show False using False by (simp add: unat_eq_zero)
    qed
    then have "(2 :: nat) ^ 7 < 2 ^ (64 - s)" using "1.prems"(2) by linarith
    then have s: "7 < 64 - s" by (rule power_less_imp_less_exp [rotated]) simp
    have "64 - s = 64 - (s + 7) + 7" using s by simp
    then have "unat v < 2 ^ (64 - (s + 7)) * 2 ^ 7" using "1.prems"(2) by (metis power_add)
    then have "unat ?v < 2 ^ (64 - (s + 7))" unfolding unat_drop_bit_eq by (simp add: drop_bit_eq_div less_mult_imp_div_less)
    then have IH: "varint_loop ((pre @ [?b OR 0x80]) @ encodeVarint ?v @ rest) (int (length (pre @ [?b OR 0x80]))) (result OR push_bit s (ucast ?b)) (s + 7) =
        (Done, (result OR push_bit s (ucast ?b)) OR push_bit (s + 7) ?v, int (length (pre @ [?b OR 0x80]) + length (encodeVarint ?v)))"
      using s False by (intro "1.IH") auto
    have "varint_loop (pre @ encodeVarint v @ rest) (int (length pre)) result s =
        varint_loop (pre @ encodeVarint v @ rest) (int (length pre) + 1) (result OR push_bit s (ucast ?b)) (s + 7)"
      using s varint_byte(4) [of v] by (subst varint_step(1)) (simp_all add: e nth_append varint_byte(3))
    also have "\<dots> = (Done, result OR push_bit s v, int (length pre + length (encodeVarint v)))"
      using IH by (simp add: e varint_bits algebra_simps)
    finally show ?thesis .
  qed
qed

lemma readVarint_encode:
  "readVarint (pre @ encodeVarint v @ rest) (int (length pre)) = (Done, v, int (length pre + length (encodeVarint v)))"
  unfolding readVarint_def using varint_loop_encode [of 0 v pre rest 0] unsigned_less [of v] by simp

subsection \<open>What is restored\<close>

text \<open>
  The types that can be written and read: no maps, interfaces, channels or functions, no pointers to numbers, and the field
  numbers of a struct are different and fit into a tag.
\<close>

definition numbers_ok :: "field list \<Rightarrow> ty list \<Rightarrow> bool" where
  "numbers_ok fs ts \<longleftrightarrow>
     (\<forall>i < length fs. case getPBFieldInfo i (fs ! i) (ts ! i) of
        None \<Rightarrow> True
      | Some info \<Rightarrow>
          unat (fieldNum info) < 2 ^ 61 \<and>
          (\<forall>j < length fs. j \<noteq> i \<longrightarrow>
             (case getPBFieldInfo j (fs ! j) (ts ! j) of None \<Rightarrow> True | Some info' \<Rightarrow> fieldNum info' \<noteq> fieldNum info)))"

fun pb_type :: "ty \<Rightarrow> bool" where
  "pb_type (TSlice e) \<longleftrightarrow> pb_type e"
| "pb_type (TArray n e) \<longleftrightarrow> pb_type e"
| "pb_type (TStruct fs ts) \<longleftrightarrow>
     length fs = length ts \<and> length fs < 2 ^ 61 \<and> numbers_ok fs ts \<and> (\<forall>t \<in> set ts. pb_type t)"
| "pb_type (TPtr e) \<longleftrightarrow> getWireType e = pbWireTypeLengthDelim \<and> pb_type e"
| "pb_type (TMap k e) \<longleftrightarrow> False"
| "pb_type TInterface \<longleftrightarrow> False"
| "pb_type TOther \<longleftrightarrow> False"
| "pb_type _ \<longleftrightarrow> True"

text \<open>No signalling NaN: the conversion to \<open>float64\<close> and back makes it a quiet one.\<close>

fun quiet :: "val \<Rightarrow> bool" where
  "quiet (VFloat32 x) \<longleftrightarrow> \<not> signalling x"
| "quiet (VSlice vs) \<longleftrightarrow> (\<forall>v \<in> set vs. quiet v)"
| "quiet (VArray vs) \<longleftrightarrow> (\<forall>v \<in> set vs. quiet v)"
| "quiet (VStruct vs) \<longleftrightarrow> (\<forall>v \<in> set vs. quiet v)"
| "quiet (VPtr v) \<longleftrightarrow> quiet v"
| "quiet _ \<longleftrightarrow> True"

text \<open>
  What is read back into a zero value: fields that are not serialized are zero, and so are those that count as zero, which
  negative zero does; a nil pointer that is not a field of its own becomes a pointer to a zero value.
\<close>

fun filled :: "ty \<Rightarrow> val" where
  "filled (TPtr t) = VPtr (filled t)"
| "filled t = zero t"

function (sequential) kept :: "ty \<Rightarrow> val \<Rightarrow> val" where
  "kept t (VSlice vs) = (case t of TSlice e \<Rightarrow> VSlice (map (kept e) vs) | _ \<Rightarrow> VSlice vs)"
| "kept t (VArray vs) = (case t of TArray _ e \<Rightarrow> VArray (map (kept e) vs) | _ \<Rightarrow> VArray vs)"
| "kept t (VStruct vs) =
     (case t of
        TStruct fs ts \<Rightarrow>
          VStruct (map (\<lambda>(v, f, e). if serialized f \<and> \<not> isZeroValue v then kept e v else zero e) (zip vs (zip fs ts)))
      | _ \<Rightarrow> VStruct vs)"
| "kept t (VPtr v) = (case t of TPtr e \<Rightarrow> VPtr (kept e v) | _ \<Rightarrow> VPtr v)"
| "kept t VNilPtr = filled t"
| "kept t v = v"
  by pat_completeness auto
termination
proof (relation "measure (\<lambda>(t, v). size v)", goal_cases)
  case (2 t vs e v)
  then show ?case by (auto simp: less_Suc_eq_le size_list_estimation')
next
  case (3 t vs k e v)
  then show ?case by (auto simp: less_Suc_eq_le size_list_estimation')
next
  case (4 t vs fs ts x v y f e)
  then show ?case by (auto simp: less_Suc_eq_le dest!: set_zip_leftD intro: size_list_estimation')
qed auto

abbreviation fields_kept :: "field list \<Rightarrow> ty list \<Rightarrow> val list \<Rightarrow> val list" where
  "fields_kept fs ts vs \<equiv> map (\<lambda>(v, f, e). if serialized f \<and> \<not> isZeroValue v then kept e v else zero e) (zip vs (zip fs ts))"

lemma info_serialized: "getPBFieldInfo i f t = None \<longleftrightarrow> \<not> serialized f"
  by (simp add: getPBFieldInfo_def serialized_def Let_def)

lemma info_wireType: "getPBFieldInfo i f t = Some info \<Longrightarrow> wireType info = getWireType t"
  by (auto simp: getPBFieldInfo_def Let_def split: if_splits)

lemma declared_not_one:
  assumes "num \<noteq> 1"
  shows "declared_number part num \<noteq> 1"
proof -
  have "word_of_int n \<noteq> (1 :: 64 word)" if "Sscanf_d s = Some n" "n > 0" "n \<noteq> 1" for s n
  proof
    assume "word_of_int n = (1 :: 64 word)"
    moreover have "n < 2 ^ 63" using that(1) by (auto simp: Sscanf_d_def Let_def split: option.splits if_splits prod.splits)
    moreover have "uint (word_of_int n :: 64 word) = n" if "n < 2 ^ 63"
      using that \<open>n > 0\<close> by (simp add: unsigned_of_int take_bit_int_eq_self)
    ultimately show False using that(3) by simp
  qed
  then show ?thesis using assms by (auto simp: declared_number_def Let_def split: option.splits)
qed

lemma number_not_one:
  assumes "getPBFieldInfo i f t = Some info" "i + 2 < 2 ^ 64"
  shows "fieldNum info \<noteq> 1"
proof -
  have "fold declared_number ps num \<noteq> 1" if "num \<noteq> 1" for ps num using that
    by (induction ps arbitrary: num) (auto simp: declared_not_one)
  moreover have "(word_of_nat (i + 2) :: 64 word) \<noteq> 1"
  proof
    assume "(word_of_nat (i + 2) :: 64 word) = 1"
    then have "unat (word_of_nat (i + 2) :: 64 word) = 1" by simp
    moreover have "unat (word_of_nat (i + 2) :: 64 word) = i + 2" using assms(2) unfolding unsigned_of_nat by (simp add: take_bit_nat_eq_self)
    ultimately show False by simp
  qed
  ultimately show ?thesis using assms(1) by (auto simp: getPBFieldInfo_def Let_def split: if_splits)
qed

lemma pb_field_map_snoc:
  "length fs = length ts \<Longrightarrow> pb_field_map (fs @ [f]) (ts @ [t]) =
     (case getPBFieldInfo (length fs) f t of
        None \<Rightarrow> pb_field_map fs ts
      | Some info \<Rightarrow> (pb_field_map fs ts)(fieldNum info \<mapsto> length fs))"
  by (cases "getPBFieldInfo (length fs) f t") (simp_all add: pb_field_map_def enumerate_append_eq)

lemma pb_field_map_number:
  assumes "length fs = length ts" "numbers_ok fs ts" "i < length fs" "getPBFieldInfo i (fs ! i) (ts ! i) = Some info"
  shows "pb_field_map fs ts (fieldNum info) = Some i"
proof -
  have other: "case getPBFieldInfo j (fs ! j) (ts ! j) of None \<Rightarrow> True | Some info' \<Rightarrow> fieldNum info' \<noteq> fieldNum info"
    if "j < length fs" "j \<noteq> i" for j
    using assms(2) [unfolded numbers_ok_def, rule_format, OF assms(3)] assms(4) that by simp
  have "pb_field_map (take k fs) (take k ts) (fieldNum info) = Some i" if "i < k" "k \<le> length fs" for k
    using that
  proof (induction k)
    case (Suc k)
    have k: "take (Suc k) fs = take k fs @ [fs ! k]" "take (Suc k) ts = take k ts @ [ts ! k]" "length (take k fs) = k"
      using Suc.prems(2) assms(1) by (simp_all add: take_Suc_conv_app_nth)
    show ?case
    proof (cases "i = k")
      case True
      then show ?thesis using assms(1,4) k(3) by (simp add: k(1,2) pb_field_map_snoc)
    next
      case False
      then have IH: "pb_field_map (take k fs) (take k ts) (fieldNum info) = Some i" using Suc by simp
      show ?thesis using IH other [of k] False Suc.prems(2) assms(1) k(3)
        by (cases "getPBFieldInfo k (fs ! k) (ts ! k)") (simp_all add: k(1,2) pb_field_map_snoc)
    qed
  qed simp
  then show ?thesis using assms(1,3) by (metis order.refl take_all)
qed

subsection \<open>Decoding what was encoded\<close>

definition pb_body :: "ty \<Rightarrow> val \<Rightarrow> bytes \<Rightarrow> bool" where
  "pb_body t v body \<longleftrightarrow>
     encodeLengthDelimValue True t v = Some (Inr (delimited body)) \<and>
     (\<forall>opts. length body < 2 ^ 63 \<longrightarrow> setLengthDelimValue opts t (zero t) body = (Done, kept t v))"

definition pb_codes :: "ty \<Rightarrow> val \<Rightarrow> bytes \<Rightarrow> bool" where
  "pb_codes t v enc \<longleftrightarrow>
     enc \<noteq> [] \<and> encodeValue (getWireType t) True t v = Some (Inr enc) \<and>
     (\<forall>opts pre rest. length (pre @ enc @ rest) < 2 ^ 63 \<longrightarrow>
        decodeValue opts (getWireType t) t (zero t) (pre @ enc @ rest) (int (length pre)) =
        (Done, kept t v, int (length pre + length enc)))"

lemma wrap_small: "0 \<le> i \<Longrightarrow> i < 2 ^ 63 \<Longrightarrow> wrap i = i"
  unfolding wrap_def by (simp add: signed_of_int signed_take_bit_int_eq_self)

lemma sint_length: "n < 2 ^ 63 \<Longrightarrow> sint (word_of_nat n :: 64 word) = int n"
  by (simp add: signed_of_nat signed_take_bit_int_eq_self)

lemma unat_length: "n < 2 ^ 63 \<Longrightarrow> unat (word_of_nat n :: 64 word) = n"
  by (simp add: unsigned_of_nat take_bit_nat_eq_self)

lemma delimited_nonempty [simp]: "delimited body \<noteq> []"
  by (simp add: delimited_def)

lemma put_be_nonempty [simp]: "0 < k \<Longrightarrow> put_be k w \<noteq> []"
  by (metis length_put_be length_greater_0_conv)

lemma decode_delimited:
  assumes "length (pre @ delimited body @ rest) < 2 ^ 63"
  shows "decodeValue opts pbWireTypeLengthDelim t old (pre @ delimited body @ rest) (int (length pre)) =
    (case setLengthDelimValue opts t old body of (out, v) \<Rightarrow> (out, v, int (length pre + length (delimited body))))"
proof -
  let ?l = "word_of_nat (length body) :: 64 word"
  have len: "length pre + (length (encodeVarint ?l) + (length body + length rest)) < 2 ^ 63" using assms by (simp add: delimited_def)
  then have l: "sint ?l = int (length body)" "unat ?l = length body" using sint_length unat_length by simp_all
  have w: "wrap (int (length pre + length (encodeVarint ?l)) + sint ?l) = int (length pre + length (encodeVarint ?l)) + int (length body)"
    using len by (simp add: l wrap_small)
  have r: "readVarint (pre @ delimited body @ rest) (int (length pre)) = (Done, ?l, int (length pre + length (encodeVarint ?l)))"
    using readVarint_encode [of pre ?l "body @ rest"] by (simp add: delimited_def)
  have "take (length body) (drop (nat (int (length pre + length (encodeVarint ?l)))) (pre @ delimited body @ rest)) = body"
    by (simp add: delimited_def)
  then show ?thesis
    unfolding decodeValue.simps r using w l by (simp add: delimited_def split: prod.splits)
qed

lemma pb_codes_body:
  assumes "pb_body t v body" "getWireType t = pbWireTypeLengthDelim"
  shows "pb_codes t v (delimited body)"
proof -
  have "length body < 2 ^ 63" if "length (pre @ delimited body @ rest) < 2 ^ 63" for pre rest :: bytes
    using that by (simp add: delimited_def)
  then show ?thesis
    using assms by (auto simp: pb_codes_def pb_body_def decode_delimited simp del: length_append)
qed

lemma pb_codes_varint:
  assumes "getWireType t = pbWireTypeVarint" "typed t v"
  shows "\<exists>enc. pb_codes t v enc"
proof -
  obtain w where w: "encodeVarintValue v = Inr (encodeVarint w)" "setVarintValue t (zero t) w = (Done, kept t v)"
  proof (cases t)
    case TBool
    then obtain b where "v = VBool b" using assms(2) by (auto simp: typed_of)
    moreover have "encodeVarint 1 = [1]" "encodeVarint 0 = [0]" by (simp_all add: encodeVarint.simps)
    ultimately show ?thesis using that [of "if b then 1 else 0"] TBool by (auto simp: encodeVarintValue_def setVarintValue_def)
  qed (use assms that in \<open>auto simp: getWireType_def typed_of encodeVarintValue_def setVarintValue_def\<close>)
  then have "pb_codes t v (encodeVarint w)"
    using assms(1) by (simp add: pb_codes_def decodeValue.simps readVarint_encode)
  then show ?thesis ..
qed

lemma pb_codes_float32:
  assumes "typed TFloat32 v" "quiet v"
  shows "\<exists>enc. pb_codes TFloat32 v enc"
proof -
  obtain x where x: "v = VFloat32 x" "\<not> signalling x" using assms by (auto simp: typed_of)
  then have "narrow (widen x) = x" by (simp add: narrow_widen)
  then have "pb_codes TFloat32 v (rev (put_be 4 x))"
    using x(1) by (simp add: pb_codes_def decodeValue.simps getWireType_def encode32bitValue_def set32bitValue_def)
  then show ?thesis ..
qed

lemma pb_codes_float64:
  assumes "typed TFloat64 v"
  shows "\<exists>enc. pb_codes TFloat64 v enc"
proof -
  obtain x where "v = VFloat64 x" using assms by (auto simp: typed_of)
  then have "pb_codes TFloat64 v (rev (put_be 8 x))"
    by (simp add: pb_codes_def decodeValue.simps getWireType_def encode64bitValue_def set64bitValue_def)
  then show ?thesis ..
qed

lemma pb_codes_elems:
  assumes "\<forall>v \<in> set vs. \<exists>enc. pb_codes e v enc"
  shows "\<exists>enc. encode_elems True e vs = Some (Inr enc) \<and>
    (\<forall>opts n fixed pre. length (pre @ enc) < 2 ^ 63 \<longrightarrow> length enc < n \<longrightarrow>
       decode_elems opts n fixed e (if fixed then replicate (length vs) (zero e) else []) (pre @ enc) (int (length pre)) =
       (Done, map (kept e) vs))"
  using assms
proof (induction vs)
  case Nil
  have "decode_elems opts n fixed e [] pre (int (length pre)) = (Done, [])" if "0 < n" for opts n fixed pre
    using that by (cases n) auto
  then show ?case by (auto intro!: exI [of _ "[]"])
next
  case (Cons v vs)
  then obtain enc1 where enc1: "pb_codes e v enc1" by auto
  from Cons obtain enc2 where enc2: "encode_elems True e vs = Some (Inr enc2)"
    "\<forall>opts n fixed pre. length (pre @ enc2) < 2 ^ 63 \<longrightarrow> length enc2 < n \<longrightarrow>
       decode_elems opts n fixed e (if fixed then replicate (length vs) (zero e) else []) (pre @ enc2) (int (length pre)) =
       (Done, map (kept e) vs)" by auto
  have "decode_elems opts n fixed e (if fixed then replicate (length (v # vs)) (zero e) else []) (pre @ enc1 @ enc2) (int (length pre)) =
      (Done, map (kept e) (v # vs))" if len: "length (pre @ enc1 @ enc2) < 2 ^ 63" "length (enc1 @ enc2) < n" for opts n fixed pre
  proof -
    have ne: "0 < length enc1" using enc1 by (simp add: pb_codes_def)
    obtain k where k: "n = Suc k" using len(2) by (cases n) auto
    then have "length enc2 < k" using ne len(2) unfolding length_append by linarith
    note k = k this
    have "decodeValue opts (getWireType e) e (zero e) (pre @ enc1 @ enc2) (int (length pre)) =
        (Done, kept e v, int (length (pre @ enc1)))" using enc1 len(1) by (simp add: pb_codes_def)
    moreover have "decode_elems opts k fixed e (if fixed then replicate (length vs) (zero e) else []) ((pre @ enc1) @ enc2) (int (length (pre @ enc1))) =
        (Done, map (kept e) vs)" using k(2) len(1) by (intro enc2(2) [rule_format]) simp_all
    moreover have "\<not> int (length pre) \<ge> int (length (pre @ enc1 @ enc2))" using ne unfolding length_append by linarith
    ultimately show ?thesis by (cases fixed) (simp_all add: k(1) del: length_append)
  qed
  moreover have "encode_elems True e (v # vs) = Some (Inr (enc1 @ enc2))"
    using enc1 enc2(1) by (simp add: pb_codes_def append_encoded_def)
  ultimately show ?case by blast
qed

lemma pb_body_slice:
  assumes "e \<noteq> TUint 8" "\<forall>v \<in> set vs. \<exists>enc. pb_codes e v enc"
  shows "\<exists>body. pb_body (TSlice e) (VSlice vs) body"
proof -
  obtain enc where enc: "encode_elems True e vs = Some (Inr enc)"
    "\<forall>opts n fixed pre. length (pre @ enc) < 2 ^ 63 \<longrightarrow> length enc < n \<longrightarrow>
       decode_elems opts n fixed e (if fixed then replicate (length vs) (zero e) else []) (pre @ enc) (int (length pre)) =
       (Done, map (kept e) vs)" using pb_codes_elems [OF assms(2)] by blast
  have "pb_body (TSlice e) (VSlice vs) enc"
    using assms(1) enc(1) enc(2) [rule_format, of "[]" "Suc (length enc)" _ False]
    by (simp add: pb_body_def wrap_delimited_def del: decode_elems.simps)
  then show ?thesis ..
qed

lemma pb_body_array:
  assumes "\<forall>v \<in> set vs. \<exists>enc. pb_codes e v enc"
  shows "\<exists>body. pb_body (TArray (length vs) e) (VArray vs) body"
proof -
  obtain enc where enc: "encode_elems True e vs = Some (Inr enc)"
    "\<forall>opts n fixed pre. length (pre @ enc) < 2 ^ 63 \<longrightarrow> length enc < n \<longrightarrow>
       decode_elems opts n fixed e (if fixed then replicate (length vs) (zero e) else []) (pre @ enc) (int (length pre)) =
       (Done, map (kept e) vs)" using pb_codes_elems [OF assms] by blast
  have "pb_body (TArray (length vs) e) (VArray vs) enc"
    using enc(1) enc(2) [rule_format, of "[]" "Suc (length enc)" _ True]
    by (simp add: pb_body_def wrap_delimited_def del: decode_elems.simps)
  then show ?thesis ..
qed

lemma tag_parts:
  assumes "unat num < 2 ^ 61" "wt < 8"
  shows "drop_bit 3 (push_bit 3 num OR word_of_nat wt) = (num :: 64 word)"
    "unat ((push_bit 3 num OR word_of_nat wt) AND 7 :: 64 word) = wt"
proof -
  define m where "m = (7 :: 64 word)"
  have m7: "(7 :: 64 word) = mask 3" by (simp add: mask_eq_decr_exp)
  have m: "bit m k \<longleftrightarrow> k < 3" for k unfolding m_def m7 bit_mask_iff by auto
  have "take_bit 61 num = num" using assms(1) by (rule take_bit_small)
  then have num: "k < 61" if "bit num k" for k using that by (metis bit_take_bit_iff)
  have "take_bit 3 wt = wt" using assms(2) by (simp add: take_bit_nat_eq_self)
  then have wt: "k < 3" if "bit wt k" for k using that by (metis bit_take_bit_iff)
  show "drop_bit 3 (push_bit 3 num OR word_of_nat wt) = num"
    by (rule bit_word_eqI) (use num wt in \<open>auto simp: bit_simps dest: wt\<close>)
  have "(push_bit 3 num OR word_of_nat wt) AND m = word_of_nat wt"
    by (rule bit_word_eqI) (use wt m in \<open>auto simp: bit_simps not_less\<close>)
  then show "unat ((push_bit 3 num OR word_of_nat wt) AND 7 :: 64 word) = wt"
    using assms(2) unfolding m_def by (simp add: unat_length)
qed

lemma wireType_bound: "getWireType t < 8"
  by (simp add: getWireType_def split: ty.splits)

definition fields_back :: "nat \<Rightarrow> field list \<Rightarrow> ty list \<Rightarrow> val list \<Rightarrow> bytes \<Rightarrow> bool" where
  "fields_back i fs ts vs enc \<longleftrightarrow>
     (\<forall>opts n m tpre us ver pre.
        length (pre @ enc) < 2 ^ 63 \<longrightarrow> length enc < n \<longrightarrow> length us = i \<longrightarrow> length tpre = i \<longrightarrow>
        (\<forall>j < length fs. \<forall>info. getPBFieldInfo (i + j) (fs ! j) (ts ! j) = Some info \<longrightarrow>
           m (fieldNum info) = Some (i + j) \<and> fieldNum info \<noteq> 1 \<and> unat (fieldNum info) < 2 ^ 61) \<longrightarrow>
        field_loop opts n m (tpre @ ts) (us @ map zero ts) ver (pre @ enc) (int (length pre)) =
        (strict_outcome opts ver, us @ fields_kept fs ts vs))"


lemma fields_back_skip:
  assumes later: "fields_back (Suc i) fs ts vs enc" and skip: "\<not> (serialized f \<and> \<not> isZeroValue v)"
  shows "fields_back i (f # fs) (t # ts) (v # vs) enc"
  unfolding fields_back_def
proof (intro allI impI)
  fix opts n m and tpre :: "ty list" and us :: "val list" and ver and pre :: bytes
  assume len: "length (pre @ enc) < 2 ^ 63" "length enc < n" "length us = i" "length tpre = i"
    and m: "\<forall>j < length (f # fs). \<forall>info. getPBFieldInfo (i + j) ((f # fs) ! j) ((t # ts) ! j) = Some info \<longrightarrow>
      m (fieldNum info) = Some (i + j) \<and> fieldNum info \<noteq> 1 \<and> unat (fieldNum info) < 2 ^ 61"
  have "field_loop opts n m ((tpre @ [t]) @ ts) ((us @ [zero t]) @ map zero ts) ver (pre @ enc) (int (length pre)) =
      (strict_outcome opts ver, (us @ [zero t]) @ fields_kept fs ts vs)"
    by (rule later [unfolded fields_back_def, rule_format]) (use len m in \<open>force+\<close>)
  then show "field_loop opts n m (tpre @ t # ts) (us @ map zero (t # ts)) ver (pre @ enc) (int (length pre)) =
      (strict_outcome opts ver, us @ fields_kept (f # fs) (t # ts) (v # vs))" using skip by auto
qed

lemma fields_back_field:
  assumes later: "fields_back (Suc i) fs ts vs enc" and info: "getPBFieldInfo i f t = Some info" and nz: "\<not> isZeroValue v"
    and enc1: "pb_codes t v enc1"
  shows "fields_back i (f # fs) (t # ts) (v # vs) (field_tag (fieldNum info) (wireType info) @ enc1 @ enc)"
  unfolding fields_back_def
proof (intro allI impI)
  let ?tag = "field_tag (fieldNum info) (wireType info)"
  fix opts n m and tpre :: "ty list" and us :: "val list" and ver and pre :: bytes
  assume len: "length (pre @ ?tag @ enc1 @ enc) < 2 ^ 63" "length (?tag @ enc1 @ enc) < n" "length us = i" "length tpre = i"
    and m: "\<forall>j < length (f # fs). \<forall>info. getPBFieldInfo (i + j) ((f # fs) ! j) ((t # ts) ! j) = Some info \<longrightarrow>
      m (fieldNum info) = Some (i + j) \<and> fieldNum info \<noteq> 1 \<and> unat (fieldNum info) < 2 ^ 61"
  have num: "m (fieldNum info) = Some i" "fieldNum info \<noteq> 1" "unat (fieldNum info) < 2 ^ 61" using m info by force+
  have ne: "0 < length ?tag" by (simp add: field_tag_def)
  obtain k where k: "n = Suc k" using len(2) by (cases n) auto
  have "length enc < k" using len(2) ne k unfolding length_append by linarith
  then have rest: "field_loop opts k m ((tpre @ [t]) @ ts) ((us @ [kept t v]) @ map zero ts) ver ((pre @ ?tag @ enc1) @ enc) (int (length (pre @ ?tag @ enc1))) =
      (strict_outcome opts ver, (us @ [kept t v]) @ fields_kept fs ts vs)"
    by (intro later [unfolded fields_back_def, rule_format]) (use len m in \<open>force+\<close>)
  have tag: "readVarint (pre @ ?tag @ enc1 @ enc) (int (length pre)) =
      (Done, push_bit 3 (fieldNum info) OR word_of_nat (wireType info), int (length (pre @ ?tag)))"
    using readVarint_encode [of pre _ "enc1 @ enc"] by (simp add: field_tag_def)
  have val: "decodeValue opts (wireType info) t (zero t) (pre @ ?tag @ enc1 @ enc) (int (length (pre @ ?tag))) =
      (Done, kept t v, int (length (pre @ ?tag @ enc1)))"
    using enc1 len(1) info_wireType [OF info] unfolding pb_codes_def by (metis append.assoc length_append)
  have pos: "\<not> int (length pre) \<ge> int (length (pre @ ?tag @ enc1 @ enc))" using ne unfolding length_append by linarith
  have i: "i < length (tpre @ t # ts)" using len(4) by simp
  have wt: "wireType info < 8" using info_wireType [OF info] wireType_bound by simp
  have "field_loop opts n m (tpre @ t # ts) (us @ map zero (t # ts)) ver (pre @ ?tag @ enc1 @ enc) (int (length pre)) =
      field_loop opts k m (tpre @ t # ts) (us @ kept t v # map zero ts) ver (pre @ ?tag @ enc1 @ enc) (int (length (pre @ ?tag @ enc1)))"
    using pos tag val num len(3,4) tag_parts [OF num(3) wt] i unfolding k
    by (simp add: Let_def nth_append list_update_append del: length_append)
  also have "\<dots> = (strict_outcome opts ver, us @ fields_kept (f # fs) (t # ts) (v # vs))"
    using rest nz info_serialized [of i f t] info by (simp del: length_append)
  finally show "field_loop opts n m (tpre @ t # ts) (us @ map zero (t # ts)) ver (pre @ ?tag @ enc1 @ enc) (int (length pre)) =
      (strict_outcome opts ver, us @ fields_kept (f # fs) (t # ts) (v # vs))" .
qed


lemma pb_codes_fields:
  assumes "length fs = length ts" "length vs = length ts" "\<forall>j < length ts. \<exists>enc. pb_codes (ts ! j) (vs ! j) enc"
  shows "\<exists>enc. encode_fields i True fs ts vs = Some (Inr enc) \<and> fields_back i fs ts vs enc"
  using assms
proof (induction fs arbitrary: i ts vs)
  case Nil
  have "field_loop opts n m tpre us ver pre (int (length pre)) = (strict_outcome opts ver, us)" if "0 < n" for opts n m tpre us ver pre
    using that by (cases n) auto
  then show ?case using Nil by (auto simp: fields_back_def intro!: exI [of _ "[]"])
next
  case (Cons f fs)
  then obtain t ts' v vs' where tv: "ts = t # ts'" "vs = v # vs'" by (metis length_Suc_conv)
  have "\<forall>j < length ts'. \<exists>enc. pb_codes (ts' ! j) (vs' ! j) enc" using Cons.prems(3) by (simp add: tv All_less_Suc2)
  then obtain enc where enc: "encode_fields (Suc i) True fs ts' vs' = Some (Inr enc)" "fields_back (Suc i) fs ts' vs' enc"
    using Cons.IH [of ts' vs' "Suc i"] Cons.prems tv by auto
  obtain enc1 where enc1: "pb_codes t v enc1" using Cons.prems(3) tv by auto
  show ?case
  proof (cases "serialized f \<and> \<not> isZeroValue v")
    case True
    then obtain info where info: "getPBFieldInfo i f t = Some info" using info_serialized [of i f t] by auto
    then have "encode_fields i True (f # fs) ts vs = Some (Inr (field_tag (fieldNum info) (wireType info) @ enc1 @ enc))"
      using True enc(1) enc1 info_wireType [OF info] by (simp add: tv pb_codes_def append_encoded_def)
    then show ?thesis using fields_back_field [OF enc(2) info _ enc1] True by (auto simp: tv)
  next
    case False
    then have "encode_fields i True (f # fs) ts vs = Some (Inr enc)"
      using enc(1) info_serialized [of i f t] by (auto simp: tv split: option.splits)
    then show ?thesis using fields_back_skip [OF enc(2) False] tv by auto
  qed
qed

lemma numbers_back:
  assumes "pb_type (TStruct fs ts)"
  shows "\<forall>j < length fs. \<forall>info. getPBFieldInfo (0 + j) (fs ! j) (ts ! j) = Some info \<longrightarrow>
    pb_field_map fs ts (fieldNum info) = Some (0 + j) \<and> fieldNum info \<noteq> 1 \<and> unat (fieldNum info) < 2 ^ 61"
proof (intro allI impI)
  fix j info
  assume j: "j < length fs" "getPBFieldInfo (0 + j) (fs ! j) (ts ! j) = Some info"
  have ok: "length fs = length ts" "numbers_ok fs ts" "length fs < 2 ^ 61" using assms by simp_all
  have "unat (fieldNum info) < 2 ^ 61"
    using ok(2) [unfolded numbers_ok_def, rule_format, OF j(1)] j(2) by simp
  moreover have "fieldNum info \<noteq> 1" using number_not_one [OF j(2)] j(1) ok(3) by simp
  ultimately show "pb_field_map fs ts (fieldNum info) = Some (0 + j) \<and> fieldNum info \<noteq> 1 \<and> unat (fieldNum info) < 2 ^ 61"
    using pb_field_map_number [OF ok(1,2) j(1)] j(2) by simp
qed

lemma pb_struct:
  assumes "pb_type (TStruct fs ts)" "length vs = length ts" "\<forall>j < length ts. \<exists>enc. pb_codes (ts ! j) (vs ! j) enc"
  shows "\<exists>enc. encode_fields 0 True fs ts vs = Some (Inr enc) \<and>
    (\<forall>opts n ver pre. length (pre @ enc) < 2 ^ 63 \<longrightarrow> length enc < n \<longrightarrow>
       field_loop opts n (pb_field_map fs ts) ts (map zero ts) ver (pre @ enc) (int (length pre)) =
       (strict_outcome opts ver, fields_kept fs ts vs))"
proof -
  obtain enc where enc: "encode_fields 0 True fs ts vs = Some (Inr enc)" "fields_back 0 fs ts vs enc"
    using pb_codes_fields [of fs ts vs 0] assms by auto
  have "field_loop opts n (pb_field_map fs ts) ([] @ ts) ([] @ map zero ts) ver (pre @ enc) (int (length pre)) =
      (strict_outcome opts ver, [] @ fields_kept fs ts vs)" if "length (pre @ enc) < 2 ^ 63" "length enc < n" for opts n ver pre
    by (rule enc(2) [unfolded fields_back_def, rule_format]) (use that numbers_back [OF assms(1)] in auto)
  then show ?thesis using enc(1) by auto
qed

lemma pb_body_struct:
  assumes "pb_type (TStruct fs ts)" "length vs = length ts" "\<forall>j < length ts. \<exists>enc. pb_codes (ts ! j) (vs ! j) enc"
  shows "\<exists>body. pb_body (TStruct fs ts) (VStruct vs) body"
proof -
  obtain enc where enc: "encode_fields 0 True fs ts vs = Some (Inr enc)"
    "\<forall>opts n ver pre. length (pre @ enc) < 2 ^ 63 \<longrightarrow> length enc < n \<longrightarrow>
       field_loop opts n (pb_field_map fs ts) ts (map zero ts) ver (pre @ enc) (int (length pre)) =
       (strict_outcome opts ver, fields_kept fs ts vs)" using pb_struct [OF assms] by blast
  have loop: "field_loop opts (Suc (length enc)) (pb_field_map fs ts) ts (map zero ts) None enc 0 = (Done, fields_kept fs ts vs)"
    if "length enc < 2 ^ 63" for opts
    using enc(2) [rule_format, of "[]" "Suc (length enc)" opts None] that by (simp add: strict_outcome_def del: field_loop.simps)
  have "fields_kept fs ts vs = map zero ts" if "enc = []" using loop [of DefaultOptions] that by (simp add: strict_outcome_def)
  then have "pb_body (TStruct fs ts) (VStruct vs) enc"
    using enc(1) loop by (auto simp: pb_body_def wrap_delimited_def simp del: field_loop.simps)
  then show ?thesis ..
qed


lemma pb_body_string: "pb_body TString (VString s) s"
  by (simp add: pb_body_def)

lemma pb_body_bytes:
  assumes "\<forall>v \<in> set vs. typed (TUint 8) v"
  shows "pb_body (TSlice (TUint 8)) (VSlice vs) (val_bytes vs)"
proof -
  have "kept (TUint 8) v = v" if "v \<in> set vs" for v using assms that unfolding typed_of by fastforce
  then have "map (kept (TUint 8)) vs = vs" by (simp add: map_idI)
  then show ?thesis using bytes_val_bytes [OF assms] by (simp add: pb_body_def)
qed

lemma set_empty_filled: "pb_type t \<Longrightarrow> getWireType t = pbWireTypeLengthDelim \<Longrightarrow> setLengthDelimValue opts t (zero t) [] = (Done, filled t)"
  by (induction t) (auto simp: getWireType_def bytes_val_def)

lemma pb_body_pointer:
  assumes "pb_type (TPtr t)" "pb_body t v body"
  shows "pb_body (TPtr t) (VPtr v) body"
  using assms by (simp add: pb_body_def)

lemma pb_body_nil: "pb_type (TPtr t) \<Longrightarrow> pb_body (TPtr t) VNilPtr []"
  using set_empty_filled [of t] by (simp add: pb_body_def delimited_def)

lemma pb_codes_value:
  "pb_type t \<Longrightarrow> typed t v \<Longrightarrow> quiet v \<Longrightarrow>
   (\<exists>enc. pb_codes t v enc) \<and> (getWireType t = pbWireTypeLengthDelim \<longrightarrow> (\<exists>body. pb_body t v body))"
proof (induction t arbitrary: v)
  case TString
  then show ?case using pb_body_string pb_codes_body [of TString] by (auto simp: typed_of getWireType_def)
next
  case (TSlice e)
  obtain vs where vs: "v = VSlice vs" "\<forall>u \<in> set vs. typed e u" using TSlice.prems(2) unfolding typed_of by blast
  have "\<exists>body. pb_body (TSlice e) v body"
  proof (cases "e = TUint 8")
    case True
    then show ?thesis using pb_body_bytes vs by blast
  next
    case False
    then show ?thesis using pb_body_slice [OF False, of vs] TSlice vs by simp
  qed
  then show ?case using pb_codes_body [of "TSlice e"] by (auto simp: getWireType_def)
next
  case (TArray n e)
  obtain vs where "v = VArray vs" "n = length vs" "\<forall>u \<in> set vs. typed e u" using TArray.prems(2) unfolding typed_of by blast
  then have "\<exists>body. pb_body (TArray n e) v body" using pb_body_array [of vs e] TArray by simp
  then show ?case using pb_codes_body [of "TArray n e"] by (auto simp: getWireType_def)
next
  case (TStruct fs ts)
  obtain vs where vs: "v = VStruct vs" "list_all2 (\<lambda>v u. typed u v) vs ts" using TStruct.prems(2) unfolding typed_of by blast
  have "\<forall>j < length ts. \<exists>enc. pb_codes (ts ! j) (vs ! j) enc"
    using TStruct vs by (auto simp: list_all2_conv_all_nth)
  then have "\<exists>body. pb_body (TStruct fs ts) v body"
    using pb_body_struct [OF TStruct.prems(1)] vs by (auto simp: list_all2_lengthD)
  then show ?case using pb_codes_body [of "TStruct fs ts"] by (auto simp: getWireType_def)
next
  case (TPtr e)
  have "\<exists>body. pb_body (TPtr e) v body"
  proof (cases "v = VNilPtr")
    case True
    then show ?thesis using pb_body_nil [OF TPtr.prems(1)] by blast
  next
    case False
    then obtain u where u: "v = VPtr u" "typed e u" using TPtr.prems(2) unfolding typed_of by blast
    then show ?thesis using pb_body_pointer [OF TPtr.prems(1)] TPtr.IH [of u] TPtr.prems by auto
  qed
  then show ?case using pb_codes_body [of "TPtr e"] by (auto simp: getWireType_def)
qed (use pb_codes_varint pb_codes_float32 pb_codes_float64 in \<open>simp_all add: getWireType_def\<close>)

text \<open>
  The values that are kept as they are: their fields are serialized or zero, none is a negative zero, and nil pointers are
  fields of a struct.
\<close>

function (sequential) exact :: "ty \<Rightarrow> val \<Rightarrow> bool" where
  "exact t (VSlice vs) \<longleftrightarrow> (case t of TSlice e \<Rightarrow> \<forall>v \<in> set vs. exact e v | _ \<Rightarrow> True)"
| "exact t (VArray vs) \<longleftrightarrow> (case t of TArray _ e \<Rightarrow> \<forall>v \<in> set vs. exact e v | _ \<Rightarrow> True)"
| "exact t (VStruct vs) \<longleftrightarrow>
     (case t of
        TStruct fs ts \<Rightarrow>
          length fs = length vs \<and> length ts = length vs \<and>
          (\<forall>(v, f, e) \<in> set (zip vs (zip fs ts)). if serialized f \<and> \<not> isZeroValue v then exact e v else v = zero e)
      | _ \<Rightarrow> True)"
| "exact t (VPtr v) \<longleftrightarrow> (case t of TPtr e \<Rightarrow> exact e v | _ \<Rightarrow> True)"
| "exact t VNilPtr \<longleftrightarrow> False"
| "exact t v \<longleftrightarrow> True"
  by pat_completeness auto
termination
proof (relation "measure (\<lambda>(t, v). size v)", goal_cases)
  case (2 t vs e v)
  then show ?case by (auto simp: less_Suc_eq_le size_list_estimation')
next
  case (3 t vs k e v)
  then show ?case by (auto simp: less_Suc_eq_le size_list_estimation')
next
  case (4 t vs fs ts x v y f e)
  then show ?case by (auto simp: less_Suc_eq_le dest!: set_zip_leftD intro: size_list_estimation')
qed auto

lemma kept_exact: "exact t v \<Longrightarrow> kept t v = v"
proof (induction t v rule: exact.induct)
  case (3 t vs)
  show ?case
  proof (cases t)
    case (TStruct fs ts)
    have "fields_kept fs ts vs = vs"
    proof (rule nth_equalityI)
      show "length (fields_kept fs ts vs) = length vs" using 3 TStruct by simp
      fix i assume "i < length (fields_kept fs ts vs)"
      then have i: "i < length vs" "(vs ! i, fs ! i, ts ! i) \<in> set (zip vs (zip fs ts))"
        using 3 TStruct by (auto simp: set_zip)
      then show "fields_kept fs ts vs ! i = vs ! i" using 3 TStruct by fastforce
    qed
    then show ?thesis using TStruct by simp
  qed simp_all
qed (auto split: ty.splits intro!: map_idI)

lemma version_loop:
  assumes "length ver_enc + length enc < 2 ^ 63" "ver_enc = field_tag 1 pbWireTypeVarint @ encodeVarint w"
  shows "field_loop opts (Suc n) m ts vs None (ver_enc @ enc) 0 = field_loop opts n m ts vs (Some w) (ver_enc @ enc) (int (length ver_enc))"
proof -
  let ?tag = "push_bit 3 1 OR word_of_nat pbWireTypeVarint :: 64 word"
  have tag: "readVarint (ver_enc @ enc) 0 = (Done, ?tag, int (length (field_tag 1 pbWireTypeVarint)))"
    using readVarint_encode [of "[]" ?tag "encodeVarint w @ enc"] by (simp add: assms(2) field_tag_def)
  have ver: "readVarint (ver_enc @ enc) (int (length (field_tag 1 pbWireTypeVarint))) = (Done, w, int (length ver_enc))"
    using readVarint_encode [of "field_tag 1 pbWireTypeVarint" w enc] by (simp add: assms(2))
  have "0 < length ver_enc" by (simp add: assms(2))
  then have "\<not> 0 \<ge> int (length (ver_enc @ enc))" unfolding length_append by linarith
  moreover have "drop_bit 3 ?tag = 1" using tag_parts(1) [of 1 pbWireTypeVarint] by simp
  ultimately show ?thesis using tag ver by (auto simp: Let_def)
qed

lemma marshal_reads_back:
  assumes ty: "pb_type (TStruct fs ts)" "typed (TStruct fs ts) v" "quiet v" and opts: "agree eopts opts"
  shows "\<exists>data. Marshal eopts (Some (TPtr (TStruct fs ts), VPtr v)) = Some (Inr data) \<and>
    (length data < 2 ^ 63 \<longrightarrow>
      Unmarshal opts data (Some (TPtr (TStruct fs ts), VPtr (zero (TStruct fs ts)))) =
      (Done, Some (TPtr (TStruct fs ts), VPtr (kept (TStruct fs ts) v))))"
proof -
  obtain vs where vs: "v = VStruct vs" "list_all2 (\<lambda>v u. typed u v) vs ts" using ty(2) unfolding typed_of by blast
  have "\<forall>j < length ts. \<exists>enc. pb_codes (ts ! j) (vs ! j) enc"
    using pb_codes_value ty vs by (auto simp: list_all2_conv_all_nth)
  from pb_struct [OF ty(1) _ this] obtain enc where enc: "encode_fields 0 True fs ts vs = Some (Inr enc)"
    "\<forall>opts n ver pre. length (pre @ enc) < 2 ^ 63 \<longrightarrow> length enc < n \<longrightarrow>
       field_loop opts n (pb_field_map fs ts) ts (map zero ts) ver (pre @ enc) (int (length pre)) =
       (strict_outcome opts ver, fields_kept fs ts vs)" using vs(2) by (auto simp: list_all2_lengthD)
  define pos where "pos \<longleftrightarrow> sint (Version eopts) > 0"
  define ver where "ver = (if pos then Some (Version eopts) else None)"
  define ver_enc where "ver_enc = (if pos then field_tag 1 pbWireTypeVarint @ encodeVarint (Version eopts) else [])"
  have m: "Marshal eopts (Some (TPtr (TStruct fs ts), VPtr v)) = Some (Inr (ver_enc @ enc))"
    using enc(1) by (simp add: Marshal_def marshal_struct_def vs(1) ver_enc_def pos_def append_encoded_def encodeVarintValue_def)
  have strict: "strict_outcome opts ver = Done" using opts by (auto simp: strict_outcome_def agree_def ver_def pos_def)
  have "field_loop opts (Suc (length (ver_enc @ enc))) (pb_field_map fs ts) ts (map zero ts) None (ver_enc @ enc) 0 =
      (Done, fields_kept fs ts vs)" if len: "length (ver_enc @ enc) < 2 ^ 63"
  proof (cases pos)
    case True
    then have ve: "ver_enc = field_tag 1 pbWireTypeVarint @ encodeVarint (Version eopts)" by (simp add: ver_enc_def)
    have "field_loop opts (length (ver_enc @ enc)) (pb_field_map fs ts) ts (map zero ts) (Some (Version eopts)) (ver_enc @ enc) (int (length ver_enc)) =
        (strict_outcome opts (Some (Version eopts)), fields_kept fs ts vs)"
      using len by (intro enc(2) [rule_format]) (simp_all add: ve)
    then show ?thesis using version_loop [OF _ ve, of enc] len strict True by (simp add: ver_def del: field_loop.simps)
  next
    case False
    then show ?thesis using enc(2) [rule_format, of "[]" "Suc (length enc)" opts None] len strict
      by (simp add: ver_enc_def ver_def del: field_loop.simps)
  qed
  note loop = this
  have "fields_kept fs ts vs = map zero ts" if "ver_enc @ enc = []" using loop that by (simp add: strict_outcome_def)
  then have "Unmarshal opts (ver_enc @ enc) (Some (TPtr (TStruct fs ts), VPtr (zero (TStruct fs ts)))) =
      (Done, Some (TPtr (TStruct fs ts), VPtr (kept (TStruct fs ts) v)))" if "length (ver_enc @ enc) < 2 ^ 63"
    using loop [OF that] by (auto simp: Unmarshal_def vs(1) simp del: field_loop.simps)
  then show ?thesis using m by blast
qed

definition ProtoBufSerializer :: Serializer where
  "ProtoBufSerializer =
     \<lparr>Serializer_Name = bytes_of ''protobuf'', ContentType = bytes_of ''application/protobuf'', Serializer_Marshal = Marshal,
      Serializer_Unmarshal = Unmarshal\<rparr>"

fun pb_can_write :: "ty \<Rightarrow> val \<Rightarrow> bool" where
  "pb_can_write (TStruct fs ts) v \<longleftrightarrow> pb_type (TStruct fs ts) \<and> typed (TStruct fs ts) v \<and> quiet v"
| "pb_can_write t v \<longleftrightarrow> False"

interpretation pb_codec: codec ProtoBufSerializer pb_can_write kept
proof
  fix t v eopts opts
  assume "pb_can_write t v" "agree eopts opts"
  then show "\<exists>data. Serializer_Marshal ProtoBufSerializer eopts (Some (TPtr t, VPtr v)) = Some (Inr data) \<and>
      (length data < 2 ^ 63 \<longrightarrow>
        Serializer_Unmarshal ProtoBufSerializer opts data (Some (TPtr t, VPtr (zero t))) = (Done, Some (TPtr t, VPtr (kept t v))))"
    using marshal_reads_back by (cases t) (auto simp: ProtoBufSerializer_def)
qed


definition pb_sample_fields :: "field list" where
  "pb_sample_fields =
     [\<lparr>Name = bytes_of ''ID'', SerializeTag = bytes_of ''id,protobuf:7'', Exported = True\<rparr>,
      \<lparr>Name = bytes_of ''Tags'', SerializeTag = [], Exported = True\<rparr>,
      \<lparr>Name = bytes_of ''Next'', SerializeTag = [], Exported = True\<rparr>]"

definition pb_sample_next :: ty where
  "pb_sample_next = TStruct [\<lparr>Name = bytes_of ''N'', SerializeTag = [], Exported = True\<rparr>] [TUint 16]"

definition pb_sample_types :: "ty list" where
  "pb_sample_types = [TInt 32, TSlice TString, TPtr pb_sample_next]"

definition pb_sample :: val where
  "pb_sample = VStruct [VInt (- 1), VSlice [VString [0x61], VString []], VPtr (VStruct [VUint 300])]"

definition pb_sample_data :: bytes where
  "pb_sample_data =
     [0x08, 0x01, 0x38, 0xff, 0xff, 0xff, 0xff, 0xff, 0xff, 0xff, 0xff, 0xff, 0x01, 0x1a, 0x03, 0x01, 0x61, 0x00,
      0x22, 0x03, 0x10, 0xac, 0x02]"

lemma pb_sample_Marshal:
  "Marshal DefaultOptions (Some (TPtr (TStruct pb_sample_fields pb_sample_types), VPtr pb_sample)) = Some (Inr pb_sample_data)"
  by code_simp

lemma pb_sample_type: "pb_type (TStruct pb_sample_fields pb_sample_types)"
proof -
  have "map_option fieldNum (getPBFieldInfo 0 (pb_sample_fields ! 0) (pb_sample_types ! 0)) = Some 7"
    "map_option fieldNum (getPBFieldInfo 1 (pb_sample_fields ! 1) (pb_sample_types ! 1)) = Some 3"
    "map_option fieldNum (getPBFieldInfo (Suc (Suc 0)) (pb_sample_fields ! Suc (Suc 0)) (pb_sample_types ! Suc (Suc 0))) = Some 4"
    by code_simp+
  moreover have len: "length pb_sample_fields = Suc (Suc (Suc 0))" by (simp add: pb_sample_fields_def)
  ultimately have "numbers_ok pb_sample_fields pb_sample_types"
    by (auto simp: numbers_ok_def All_less_Suc split: option.splits)
  moreover have "numbers_ok [\<lparr>Name = bytes_of ''N'', SerializeTag = [], Exported = True\<rparr>] [TUint 16]"
    by (simp add: numbers_ok_def getPBFieldInfo_def)
  ultimately show ?thesis using len by (simp add: pb_sample_types_def pb_sample_next_def getWireType_def)
qed


subsection \<open>What goes wrong\<close>

text \<open>
  A length that is negative as an \<open>int\<close> moves the position of a skipped field back to the start, so that the loop over the
  fields never ends, however much fuel it has.
\<close>

definition looping_data :: bytes where
  "looping_data = [0x7a, 0xf5, 0xff, 0xff, 0xff, 0xff, 0xff, 0xff, 0xff, 0xff, 0x01]"

lemma skip_runs_forever: "fst (field_loop DefaultOptions n Map.empty [] [] None looping_data 0) = OutOfFuel"
proof (induction n)
  case (Suc n)
  have r: "readVarint looping_data 0 = (Done, 0x7a, 1)" "skipValue 2 looping_data 1 = (Done, 0)" by code_simp+
  have "field_loop DefaultOptions (Suc n) Map.empty [] [] None looping_data 0 = field_loop DefaultOptions n Map.empty [] [] None looping_data 0"
    using r by (simp add: looping_data_def DefaultOptions_def)
  then show ?case using Suc by simp
qed simp

text \<open>The same length panics in a field that is decoded.\<close>

lemma negative_length_panics:
  "fst (Unmarshal DefaultOptions [0x12, 0xff, 0xff, 0xff, 0xff, 0xff, 0xff, 0xff, 0xff, 0xff, 0x01]
     (Some (TPtr (TStruct [\<lparr>Name = bytes_of ''S'', SerializeTag = [], Exported = True\<rparr>] [TString]), VPtr (VStruct [VString []])))) = Panicked"
  by code_simp

text \<open>A struct in a struct that is not marshalled through a pointer has no address.\<close>

lemma marshal_value_panics:
  "Marshal DefaultOptions (Some (TStruct [\<lparr>Name = bytes_of ''S'', SerializeTag = [], Exported = True\<rparr>] [TStruct [] []], VStruct [VStruct []])) = None"
  by code_simp

text \<open>The field number 1 that a tag declares becomes 2, which is the number of the first field without a tag.\<close>

lemma declared_one_collides:
  "map_option fieldNum (getPBFieldInfo 1 \<lparr>Name = bytes_of ''B'', SerializeTag = bytes_of ''protobuf:1'', Exported = True\<rparr> TString) = Some 2"
  "map_option fieldNum (getPBFieldInfo 0 \<lparr>Name = bytes_of ''A'', SerializeTag = [], Exported = True\<rparr> TString) = Some 2"
  by code_simp+

text \<open>A slice that is longer than the one in the data keeps its tail.\<close>

lemma slice_keeps_tail:
  "setLengthDelimValue DefaultOptions (TSlice (TInt 64)) (VSlice [VInt 7, VInt 8, VInt 9]) [0x01] = (Done, VSlice [VInt 1, VInt 8, VInt 9])"
  by code_simp

text \<open>A pointer to a number cannot be marshalled.\<close>

lemma number_pointer_rejected:
  "Marshal DefaultOptions (Some (TPtr (TStruct [\<lparr>Name = bytes_of ''P'', SerializeTag = [], Exported = True\<rparr>] [TPtr (TInt 64)]),
     VPtr (VStruct [VPtr (VInt 5)]))) = Some (Inl ErrInvalidType)"
  by code_simp

end
