(* ===== verification/Serializers.thy ===== *)
theory Serializers
  imports Msgpack Protobuf
begin

section \<open>The registered serializers\<close>

text \<open>
  The registry as the \<open>init\<close> functions of the package leave it. The JSON serializer is built on \<open>encoding/json\<close> and is an
  argument. The other two are found under their names, and values go through the registry and back.
\<close>

definition init_registry :: "Serializer \<Rightarrow> runtime \<Rightarrow> Registry" where
  "init_registry json rt =
     snd (Register (bytes_of ''protobuf'') (Some ProtoBufSerializer)
       (snd (Register (bytes_of ''msgpack'') (Some (MsgPackSerializer rt))
         (snd (Register (bytes_of ''json'') (Some json) NewRegistry)))))"

lemma init_registry_inv: "registry_inv (init_registry json rt)"
  unfolding init_registry_def by (intro Register_inv NewRegistry_inv)

lemma init_registry_finds:
  "Default (init_registry json rt) = Inr json"
  "fmlookup (serializers (init_registry json rt)) (bytes_of ''msgpack'') = Some (MsgPackSerializer rt)"
  "fmlookup (serializers (init_registry json rt)) (bytes_of ''protobuf'') = Some ProtoBufSerializer"
  by (simp_all add: init_registry_def Register_def NewRegistry_def Default_def bytes_of_def)

lemmas msgpack_through_registry = mp_codec.with_name [OF init_registry_finds(2)]
lemmas protobuf_through_registry = pb_codec.with_name [OF init_registry_finds(3)]

end
