(* ===== verification/Spec2Isabelle.thy ===== *)
theory Spec2Isabelle
  imports Ringbuffer Snowflake Trie Rbac Redlock Leaderelect Eventsrc Patchtext Merge Raftsys Wal Skiplist Serializers
begin

text \<open>
  A verification of packages of a Go library of independent components (\<open>src/internal/<package>\<close>). The packages do
  not call one another, with the exceptions named below, so the development is a family of theories over one
  prelude, one theory or a small chain of theories per package.

  \<^bold>\<open>Rendering of Go.\<close> A struct is a record with the source's fields, an enumeration a datatype, a function or
  method a definition of the same name (with a suffix or prefix where the name is taken). A method that holds the
  component's mutex for its whole body is one atomic function from state to state; a method that releases it in
  between is cut into the pieces between the releases, and the pieces of different goroutines interleave. A
  result \<open>(T, error)\<close> is a sum, \<^const>\<open>Inl\<close> the error. A panic is \<^const>\<open>None\<close> of an option. Maps and sets are finite
  maps and finite sets; where the code ranges over a map and the order shows, the order is a parameter or
  the result is sorted as the code sorts it. Strings are lists of bytes; instants and durations are integers
  (nanoseconds or milliseconds as in the code), and every reading of the clock is an argument.
  A 64-bit integer is a word where its width shows (\<open>Snowflake\<close>) and an integer elsewhere.

  \<^bold>\<open>Parts.\<close>
  \<^item> \<open>Prelude\<close>: results, \<open>run\<close> (a sequence of method calls) and the locales \<open>preserved\<close> and \<open>refinement\<close>: an invariant kept by
    each call holds after every sequence, and a forward simulation of one call gives one of every
    sequence. They are interpreted in \<open>Ringbuffer\<close>, \<open>Snowflake\<close>, \<open>Trie\<close>, \<open>Rbac\<close>, \<open>Distlock\<close>, \<open>Eventsrc\<close>, \<open>Skiplist\<close>
    and \<open>Serialize\<close>.
  \<^item> \<open>Gostrings\<close>: what the packages use of \<open>strings\<close>, \<open>strconv\<close> and \<open>fmt\<close>.
  \<^item> \<open>Ringbuffer\<close> (\<open>ringbuffer\<close>): the circular buffer with its full strategies and water-mark callbacks refines a
    bounded queue (C1). A callback runs after the mutex is released, in an event of its own: the decisions to fire
    alternate and each is dispatched once (C2).
  \<^item> \<open>Snowflake\<close> (\<open>snowflake\<close>): identifiers of one generator increase (C3), parse back (C4), and \<open>Next\<close>, whose waiting loop is a
    partial function over a clock and the sections other goroutines complete during a wait, returns when the clock
    advances and the others do not use up every millisecond (C5).
  \<^item> \<open>Trie\<close> (\<open>trie\<close>): a map from words (C6) without dead branches (C7); prefix, wildcard and longest-match search
    (C8 to C10).
  \<^item> \<open>Rbac\<close> (\<open>rbac\<close>): refinement of the relations of core RBAC with all errors (C11), the access decision (C12), lookup by
    name (C13), the text form of permissions (C14).
  \<^item> \<open>Distlock\<close> and \<open>Redlock\<close> (\<open>distlock\<close>): the lock manager is a table of leases (C15, C16); the quorum lock over several
    managers excludes other tokens (C17), leaves no residue (C18) and its retry loop ends (C19).
  \<^item> \<open>Leaderelect\<close> (\<open>leaderelect\<close>): any number of electors over one lock backend, interleaved between their critical
    sections (C20 to C22).
  \<^item> \<open>Eventsrc\<close> (\<open>eventsrc\<close>): the event store with events as heap objects (C23) and state rebuilt from snapshots (C24).
  \<^item> \<open>Myers\<close>, \<open>Diffpatch\<close>, \<open>Patchtext\<close>, \<open>Merge\<close> (\<open>diffpatch\<close>): shortest edit scripts with all array accesses checked (C25),
    diff and apply (C26), the printed patch parsed and applied (C27), three-way merge (C28). The relation
    \<open>applies\<close> (hunks that lead from one text to another) links them.
  \<^item> \<open>Raft\<close> and \<open>Raftsys\<close> (\<open>raftlog\<close>): every handler of a Raft node; the log after an append request (C29), commitment by
    quorum (C30); the transport, the cluster, and the system of nodes and votes in flight, whose elections are
    safe under two conditions the code does not enforce (C31); transfer of a snapshot (C32).
  \<^item> \<open>Gobytes\<close>, \<open>Wal\<close> (\<open>wal\<close>): big-endian numbers and the CRC-32, and the write-ahead log over files as byte lists: integrity of
    an entry (C33), the log read back across rotations (C34) and after a crash that cuts the active file (C35).
  \<^item> \<open>Skiplist\<close> (\<open>skiplist\<close>): the skip list over an explicit store of nodes, with the coins of its random source as an
    argument, answers as a finite map in key order does (C36) and is well linked on every level (C37).
  \<^item> \<open>Goreflect\<close>: Go types and values as \<open>reflect\<close> sees them, their zero values, map keys and conversions, with floating-point
    numbers as bits.
  \<^item> \<open>Serialize\<close>, \<open>Msgpack\<close>, \<open>Protobuf\<close>, \<open>Serializers\<close> (\<open>serialize\<close>): the registry, whose default serializer is always a
    registered one; the MessagePack serializer reads back what it wrote (C38) and is safe on any data (C39); the
    protobuf serializer reads back what it wrote (C40). The locale \<open>codec\<close> is the contract of a serializer; it is
    interpreted for both, and a value goes through the registry under their names and back.

  \<^bold>\<open>Termination and bounds.\<close> Loops are structural recursions or folds over the range they traverse. \<open>Next\<close> of \<open>Snowflake\<close> and \<open>Lock\<close> of
  \<open>Redlock\<close> wait on a clock and are partial functions into an option; C5 and C19 show that they return. The
  outer loop of \<open>myersDiff\<close> runs over edit distances up to the sum of the two lengths, which C25 shows to be
  enough. The MessagePack decoder has one more unit of fuel than the data has bytes, for its nesting; C39 shows that it
  never runs out. The loop of the protobuf decoder over the fields of a struct can run forever, because a length in the data
  can move the position back; it has as much fuel, which C40 shows to be enough for data that \<open>Marshal\<close> wrote.

  \<^bold>\<open>Deviations found.\<close> Where the code does not do what it means to, the model follows the code, the theorem states the
  condition under which the property holds, and a lemma beside it evaluates a run that violates it: \<open>leader_votes_again\<close>,
  \<open>stale_vote_counted\<close>, \<open>commit_index_moves_back\<close>, \<open>snapshot_ends_replication\<close>, \<open>deleted_dashes_break_the_patch\<close>,
  \<open>insertion_conflict_has_no_marker\<close>, \<open>equal_overlap_doubles_lines\<close>, \<open>long_entry_unreadable\<close>, \<open>append_after_torn_lost\<close>, \<open>validate_NaN\<close>,
  \<open>pointer_not_restored\<close>, \<open>interface_slice_dropped\<close>, \<open>array_surplus_left\<close>, \<open>lower_case_hides_field\<close>, \<open>unmarshal_panics\<close>,
  \<open>number_as_string\<close>, \<open>skip_runs_forever\<close>, \<open>negative_length_panics\<close>, \<open>marshal_value_panics\<close>, \<open>declared_one_collides\<close>,
  \<open>slice_keeps_tail\<close>, \<open>number_pointer_rejected\<close>.

  \<^bold>\<open>Not modelled.\<close> Goroutine scheduling below the granularity of the mutex, real time, logging, and the codecs of
  \<open>encoding/gob\<close> and \<open>encoding/json\<close>, which are parameters, and with the latter the JSON serializer. Recursive types and the
  sharing of memory between decoded strings and the data are not seen by the values of \<open>Goreflect\<close>. The other packages of \<open>src/internal\<close> are not modelled: they are independent of the
  ones above, and many are wrappers around network connections, files, HTTP or reflection, whose behaviour is
  that of the operating system and of libraries rather than of their own code.
\<close>

end
